(* ===== verification/Prelude.thy ===== *)
theory Prelude
  imports Main "HOL-Library.Word"
begin

text \<open>
  Shared vocabulary of the development: the machine integers of the code, its errors as
  values, the two assertion macros, and the standard containers the sources use.

  \<^item> \<open>uint64_t\<close>, \<open>size_t\<close> and the raw values behind \<open>Timestamp\<close>, \<open>SequenceNumber\<close>,
    \<open>ChunkNumber\<close> and \<open>OriginId\<close> are \<open>u64\<close>, so addition and subtraction wrap as they do in C++.
  \<^item> \<open>PRECONDITION\<close> and \<open>INVARIANT\<close> (\<open>src/nes-common/include/ErrorHandling.hpp\<close>) terminate the
    process when their condition fails; the model returns \<open>Inl\<close> of the corresponding error.
    Exceptions of \<open>ExceptionDefinitions.inc\<close> are further constructors of the same type.
    \<open>UndefinedBehaviour\<close> stands for a null or out-of-range access the code does not check, and
    \<open>NonTermination\<close> for a loop that does not return.
  \<^item> A \<open>std::map\<close> is an association list ordered by its key; a \<open>std::unordered_map\<close> is a map.
\<close>

section \<open>Machine integers\<close>

type_synonym u64 = "64 word"
type_synonym u32 = "32 word"
type_synonym u16 = "16 word"

section \<open>Errors as values\<close>

datatype nes_error =
    PreconditionViolated
  | InvariantViolated
  | NonTermination
  | FieldNotFound
  | CannotInferStamp
  | UnknownOperation
  | BufferAllocationFailure
  | CannotAccessBuffer
  | CannotAllocateBuffer
  | InvalidRefCountForBuffer
  | UndefinedBehaviour
  | UnknownPluginType
  | OutOfRange
  | NotImplemented
  | UnknownDataType
  | CannotSerialize
  | CannotDeserialize
  | CannotInferSchema
  | FieldAlreadyExists
  | TypeInferenceException
  | FunctionNotImplemented
  | InvalidDynamicCast
  | BadVariantAccess
  | BadFunctionCall
  | UnknownLogicalOperator
  | RuntimeError

type_synonym 'a result = "nes_error + 'a"

definition PRECONDITION :: "bool \<Rightarrow> unit result" where
  "PRECONDITION c = (if c then Inr () else Inl PreconditionViolated)"

definition INVARIANT :: "bool \<Rightarrow> unit result" where
  "INVARIANT c = (if c then Inr () else Inl InvariantViolated)"

text \<open>Sequencing of fallible statements: the first error ends the function.\<close>

definition andThen :: "'a result \<Rightarrow> ('a \<Rightarrow> 'b result) \<Rightarrow> 'b result" where
  "andThen m f = (case m of Inl e \<Rightarrow> Inl e | Inr a \<Rightarrow> f a)"

definition isOk :: "'a result \<Rightarrow> bool" where
  "isOk r = (case r of Inl _ \<Rightarrow> False | Inr _ \<Rightarrow> True)"

section \<open>Ordered maps\<close>

text \<open>\<open>find\<close>, \<open>emplace\<close> (keeps an existing entry), assignment through \<open>operator[]\<close>, \<open>erase\<close>.\<close>

definition omap_find :: "'k \<Rightarrow> ('k \<times> 'v) list \<Rightarrow> 'v option" where
  "omap_find k m = map_of m k"

fun omap_set :: "'k::linorder \<Rightarrow> 'v \<Rightarrow> ('k \<times> 'v) list \<Rightarrow> ('k \<times> 'v) list" where
  "omap_set k v [] = [(k, v)]"
| "omap_set k v ((k', v') # m) =
     (if k < k' then (k, v) # (k', v') # m
      else if k = k' then (k, v) # m
      else (k', v') # omap_set k v m)"

definition omap_emplace :: "'k::linorder \<Rightarrow> 'v \<Rightarrow> ('k \<times> 'v) list \<Rightarrow> ('k \<times> 'v) list" where
  "omap_emplace k v m = (case omap_find k m of Some _ \<Rightarrow> m | None \<Rightarrow> omap_set k v m)"

definition omap_erase :: "'k \<Rightarrow> ('k \<times> 'v) list \<Rightarrow> ('k \<times> 'v) list" where
  "omap_erase k m = filter (\<lambda>e. fst e \<noteq> k) m"

definition omap_wf :: "('k::linorder \<times> 'v) list \<Rightarrow> bool" where
  "omap_wf m = sorted_wrt (<) (map fst m)"

section \<open>Collections of rewrite rules\<close>

named_theorems result_simps \<open>unfolding of the error monad\<close>
named_theorems u64_simps \<open>transfer of comparisons on machine words to naturals\<close>

lemma PRECONDITION_simps [simp, result_simps]:
  "PRECONDITION True = Inr ()" "PRECONDITION False = Inl PreconditionViolated"
  by (simp_all add: PRECONDITION_def)

lemma INVARIANT_simps [simp, result_simps]:
  "INVARIANT True = Inr ()" "INVARIANT False = Inl InvariantViolated"
  by (simp_all add: INVARIANT_def)

lemma andThen_simps [simp, result_simps]:
  "andThen (Inl e) f = Inl e" "andThen (Inr a) f = f a"
  by (simp_all add: andThen_def)

lemma PRECONDITION_Inr [simp]: "PRECONDITION c = Inr u \<longleftrightarrow> c"
  by (simp add: PRECONDITION_def)

lemma INVARIANT_Inr [simp]: "INVARIANT c = Inr u \<longleftrightarrow> c"
  by (simp add: INVARIANT_def)

lemma andThen_eq_Inr: "andThen m f = Inr b \<longleftrightarrow> (\<exists>a. m = Inr a \<and> f a = Inr b)"
  by (cases m) auto

lemma isOk_simps [simp]: "isOk (Inl e) = False" "isOk (Inr a) = True"
  by (simp_all add: isOk_def)

lemma isOk_iff: "isOk r \<longleftrightarrow> (\<exists>a. r = Inr a)"
  by (cases r) auto

section \<open>Machine words as naturals\<close>

lemmas [u64_simps] = word_le_nat_alt word_less_nat_alt word_unat_eq_iff unat_div_distrib unat_mod_distrib

lemma unat_u64_less [simp]: "unat (x :: u64) < 18446744073709551616"
  using unsigned_less [of x] by simp

lemma le_unat_u64: "n \<le> unat (x :: u64) \<Longrightarrow> n < 2 ^ 64"
  using unat_u64_less [of x] by (simp del: unat_u64_less)

lemma unat_add_u64:
  "unat (a :: u64) + unat b < 2 ^ 64 \<Longrightarrow> unat (a + b) = unat a + unat b"
  by (simp add: unat_word_ariths)

lemma unat_mult_u64:
  "unat (a :: u64) * unat b < 2 ^ 64 \<Longrightarrow> unat (a * b) = unat a * unat b"
  by (simp add: unat_word_ariths)

lemma unat_Suc_u64: "unat (a :: u64) + 1 < 2 ^ 64 \<Longrightarrow> unat (a + 1) = unat a + 1"
  by (simp add: unat_word_ariths)

lemma unat_Suc_u64_less: "(a :: u64) < b \<Longrightarrow> unat (a + 1) = unat a + 1"
proof -
  assume "a < b"
  then have "unat a < unat b" by (simp add: word_less_nat_alt)
  moreover have "unat b < 2 ^ 64" using unat_u64_less [of b] by simp
  ultimately have "unat a + 1 < 2 ^ 64" by linarith
  then show ?thesis by (rule unat_Suc_u64)
qed

lemma unat_of_nat_u64: "n < 2 ^ 64 \<Longrightarrow> unat (of_nat n :: u64) = n"
  by (simp add: unat_of_nat)

lemma u64_eqI: "unat (a :: u64) = unat b \<Longrightarrow> a = b"
  by (simp add: word_unat_eq_iff)

lemma map_upt_add: "map f [0..<m + k] = map f [0..<m] @ map (\<lambda>i. f (m + i)) [0..<k]"
  by (induction k) auto

section \<open>Ordered maps: laws\<close>

lemma omap_wf_Nil [simp]: "omap_wf []"
  by (simp add: omap_wf_def)

lemma omap_wf_Cons [simp]: "omap_wf ((k, v) # m) \<longleftrightarrow> (\<forall>k' \<in> fst ` set m. k < k') \<and> omap_wf m"
  by (auto simp: omap_wf_def)

lemma omap_wf_distinct: "omap_wf m \<Longrightarrow> distinct (map fst m)"
  by (induction m) (force)+

lemma omap_wf_sorted: "omap_wf m \<Longrightarrow> sorted (map fst m)"
  unfolding omap_wf_def by (rule strict_sorted_imp_sorted)

lemma omap_set_keys [simp]: "fst ` set (omap_set k v m) = insert k (fst ` set m)"
  by (induction k v m rule: omap_set.induct) auto

lemma omap_wf_set [simp, intro]: "omap_wf m \<Longrightarrow> omap_wf (omap_set k v m)"
  by (induction k v m rule: omap_set.induct) auto

lemma omap_find_set [simp]:
  "omap_wf m \<Longrightarrow> omap_find k' (omap_set k v m) = (if k' = k then Some v else omap_find k' m)"
  by (induction k v m rule: omap_set.induct) (auto simp: omap_find_def map_of_eq_None_iff)

lemma omap_find_in: "omap_find k m = Some v \<Longrightarrow> (k, v) \<in> set m"
  by (simp add: omap_find_def map_of_SomeD)

lemma omap_find_iff: "omap_wf m \<Longrightarrow> omap_find k m = Some v \<longleftrightarrow> (k, v) \<in> set m"
  by (auto simp: omap_find_def omap_wf_distinct dest: map_of_SomeD)

lemma omap_find_None: "omap_find k m = None \<longleftrightarrow> k \<notin> fst ` set m"
  by (simp add: omap_find_def map_of_eq_None_iff)

lemma omap_wf_filter [intro]: "omap_wf m \<Longrightarrow> omap_wf (filter P m)"
  by (induction m) auto

lemma omap_set_in:
  "omap_wf m \<Longrightarrow> (k', v') \<in> set (omap_set k v m) \<longleftrightarrow> (k' = k \<and> v' = v \<or> k' \<noteq> k \<and> (k', v') \<in> set m)"
  by (auto simp: omap_find_iff [symmetric])

lemma omap_wf_emplace [intro]: "omap_wf m \<Longrightarrow> omap_wf (omap_emplace k v m)"
  by (auto simp: omap_emplace_def split: option.split)

end
