(* ===== verification/ChunkCollector.thy ===== *)
theory ChunkCollector
  imports Prelude
begin

text \<open>
  \<open>SequenceData\<close> (\<open>src/nes-common/src/Sequencing/SequenceData.cpp\<close>) and the chunk collector
  (\<open>src/nes-common/include/Sequencing/ChunkCollector.hpp\<close>), which decides when every chunk of a
  sequence number has been seen and with which watermark.

  The collector keeps a list of nodes of \<open>NodeSize\<close> counters each. The lock-protected search, the
  compare-exchange loop on the watermark and the counter updates are the sequential effect of one
  call of \<open>collect\<close>. The abstract view is one chunk state per sequence number; \<open>collect_refines\<close> shows
  that nodes, node release and slot arithmetic implement it, and \<open>run_collect_correct\<close> that chunks
  may arrive in any order and interleaving.
\<close>

section \<open>Sequence data\<close>

datatype SequenceData =
  SequenceData (sequenceNumber: u64) (chunkNumber: u64) (lastChunk: bool)

definition SequenceNumber_INITIAL :: u64 where "SequenceNumber_INITIAL = 1"
definition SequenceNumber_INVALID :: u64 where "SequenceNumber_INVALID = 0"
definition ChunkNumber_INITIAL :: u64 where "ChunkNumber_INITIAL = SequenceNumber_INITIAL"
definition ChunkNumber_INVALID :: u64 where "ChunkNumber_INVALID = SequenceNumber_INVALID"

definition defaultSequenceData :: SequenceData where
  "defaultSequenceData = SequenceData SequenceNumber_INVALID ChunkNumber_INVALID False"

text \<open>The defaulted three-way comparison: sequence number, then chunk number, then last chunk.\<close>

lemma SequenceData_eq_iff:
  "a = b \<longleftrightarrow> sequenceNumber a = sequenceNumber b \<and> chunkNumber a = chunkNumber b \<and> lastChunk a = lastChunk b"
  by (cases a; cases b) auto

instantiation SequenceData :: linorder
begin

definition less_SequenceData :: "SequenceData \<Rightarrow> SequenceData \<Rightarrow> bool" where
  "less_SequenceData a b \<longleftrightarrow>
     sequenceNumber a < sequenceNumber b
     \<or> sequenceNumber a = sequenceNumber b
       \<and> (chunkNumber a < chunkNumber b
          \<or> chunkNumber a = chunkNumber b \<and> \<not> lastChunk a \<and> lastChunk b)"

definition less_eq_SequenceData :: "SequenceData \<Rightarrow> SequenceData \<Rightarrow> bool" where
  "less_eq_SequenceData a b \<longleftrightarrow> a < b \<or> a = b"

instance
  by standard
    (auto simp: less_SequenceData_def less_eq_SequenceData_def SequenceData_eq_iff)

end

section \<open>One chunk counter\<close>

record Chunk =
  counter :: u64
  seenLastChunk :: bool
  chunkValue :: u64

definition initialChunk :: Chunk where
  "initialChunk = \<lparr>counter = 0, seenLastChunk = False, chunkValue = 0\<rparr>"

definition update :: "Chunk \<Rightarrow> SequenceData \<Rightarrow> u64 \<Rightarrow> (Chunk \<times> u64 option) result" where
  "update c sequence newWatermark =
     (let chunk = chunkNumber sequence - ChunkNumber_INITIAL;
          c1 = c\<lparr>chunkValue := (if newWatermark > chunkValue c then newWatermark else chunkValue c)\<rparr>
      in andThen (if lastChunk sequence then INVARIANT (\<not> seenLastChunk c1) else Inr ()) (\<lambda>_.
           let c2 = (if lastChunk sequence then c1\<lparr>seenLastChunk := True\<rparr> else c1);
               updatedCounter = (if lastChunk sequence then counter c2 + chunk else counter c2 - 1);
               c3 = c2\<lparr>counter := updatedCounter\<rparr>
           in Inr (c3, if updatedCounter = 0 then Some (chunkValue c3) else None)))"

section \<open>Nodes and the collector\<close>

record Node =
  nodeStart :: u64
  missing :: u64
  nodeData :: "Chunk list"

definition newNode :: "nat \<Rightarrow> u64 \<Rightarrow> Node" where
  "newNode NodeSize s =
     \<lparr>nodeStart = s, missing = of_nat NodeSize, nodeData = replicate NodeSize initialChunk\<rparr>"

definition coversSequence :: "nat \<Rightarrow> u64 \<Rightarrow> Node \<Rightarrow> bool" where
  "coversSequence NodeSize sequence n \<longleftrightarrow>
     nodeStart n \<le> sequence \<and> sequence < nodeStart n + of_nat NodeSize"

fun find_node :: "nat \<Rightarrow> u64 \<Rightarrow> Node list \<Rightarrow> nat option" where
  "find_node NodeSize sequence [] = None"
| "find_node NodeSize sequence (n # ns) =
     (if coversSequence NodeSize sequence n then Some 0
      else map_option Suc (find_node NodeSize sequence ns))"

definition locateNode :: "nat \<Rightarrow> u64 \<Rightarrow> Node list \<Rightarrow> Node list \<times> nat" where
  "locateNode NodeSize sequence nodes =
     (case find_node NodeSize sequence nodes of
        Some i \<Rightarrow> (nodes, i)
      | None \<Rightarrow>
          (nodes @ [newNode NodeSize ((sequence div of_nat NodeSize) * of_nat NodeSize)], length nodes))"

definition collect ::
  "nat \<Rightarrow> Node list \<Rightarrow> SequenceData \<Rightarrow> u64 \<Rightarrow> (Node list \<times> (u64 \<times> u64) option) result" where
  "collect NodeSize nodes d watermark =
     andThen (PRECONDITION (sequenceNumber d \<noteq> SequenceNumber_INVALID)) (\<lambda>_.
     andThen (PRECONDITION (chunkNumber d \<noteq> ChunkNumber_INVALID)) (\<lambda>_.
     let sequence = sequenceNumber d - SequenceNumber_INITIAL;
         (nodes1, i) = locateNode NodeSize sequence nodes;
         node = nodes1 ! i;
         slot = unat (sequence mod of_nat NodeSize)
     in andThen (update (nodeData node ! slot) d watermark) (\<lambda>(chunk', finalWatermark).
          let node1 = node\<lparr>nodeData := (nodeData node)[slot := chunk']\<rparr>
          in case finalWatermark of
               None \<Rightarrow> Inr (nodes1[i := node1], None)
             | Some w \<Rightarrow>
                 let node2 = node1\<lparr>missing := missing node1 - 1\<rparr>;
                     nodes2 = nodes1[i := node2];
                     nodes3 = (if missing node1 = 1
                               then filter (\<lambda>n. nodeStart n \<noteq> nodeStart node2) nodes2
                               else nodes2)
                 in Inr (nodes3, Some (sequenceNumber d, w)))))"

text \<open>A stream of calls, with the answer of each.\<close>

fun run_collect ::
  "nat \<Rightarrow> Node list \<Rightarrow> (SequenceData \<times> u64) list \<Rightarrow> (Node list \<times> (u64 \<times> u64) option list) result" where
  "run_collect N nodes [] = Inr (nodes, [])"
| "run_collect N nodes ((d, w) # evs) =
     andThen (collect N nodes d w) (\<lambda>(nodes', out).
     andThen (run_collect N nodes' evs) (\<lambda>(nodes'', outs). Inr (nodes'', out # outs)))"


section \<open>The abstract view: one chunk state per sequence\<close>

definition chunkAt :: "nat \<Rightarrow> Node list \<Rightarrow> u64 \<Rightarrow> Chunk" where
  "chunkAt N nodes s =
     (case find_node N s nodes of
        Some i \<Rightarrow> nodeData (nodes ! i) ! unat (s mod of_nat N)
      | None \<Rightarrow> initialChunk)"

definition node_wf :: "nat \<Rightarrow> Node \<Rightarrow> bool" where
  "node_wf N n \<longleftrightarrow>
     unat (nodeStart n) mod N = 0 \<and> unat (nodeStart n) + N < 2 ^ 64 \<and> length (nodeData n) = N"

definition openSequences :: "nat \<Rightarrow> u64 set \<Rightarrow> Node \<Rightarrow> u64 set" where
  "openSequences N D n = {s. coversSequence N s n \<and> s \<notin> D}"

text \<open>
  \<open>D\<close> holds the completed sequences (counted from 0). A node exists for every partly completed
  group of \<open>N\<close> sequences, its \<open>missing\<close> field counts the open ones, and a completed sequence
  without a node has a completely finished group.
\<close>

definition collector_wf :: "nat \<Rightarrow> u64 set \<Rightarrow> Node list \<Rightarrow> bool" where
  "collector_wf N D nodes \<longleftrightarrow>
     0 < N \<and> distinct (map nodeStart nodes)
     \<and> (\<forall>n \<in> set nodes. node_wf N n \<and> missing n \<noteq> 0 \<and> unat (missing n) = card (openSequences N D n))
     \<and> (\<forall>t \<in> D. (\<exists>n \<in> set nodes. coversSequence N t n) \<or> (\<forall>t'. unat t' div N = unat t div N \<longrightarrow> t' \<in> D))"

lemma find_node_Some: "find_node N s nodes = Some i \<Longrightarrow> i < length nodes \<and> coversSequence N s (nodes ! i)"
  by (induction nodes arbitrary: i) (auto split: if_splits)

lemma find_node_None: "find_node N s nodes = None \<longleftrightarrow> (\<forall>n \<in> set nodes. \<not> coversSequence N s n)"
  by (induction nodes) auto

lemma covers_iff:
  assumes "0 < N" "node_wf N n"
  shows "coversSequence N s n \<longleftrightarrow> unat (nodeStart n) = unat s div N * N"
proof -
  have N: "unat (of_nat N :: u64) = N"
    using assms by (simp add: node_wf_def unat_of_nat_u64)
  have e: "unat (nodeStart n + of_nat N) = unat (nodeStart n) + N"
    using assms(2) by (subst unat_add_u64) (simp_all add: N node_wf_def)
  obtain k where k: "unat (nodeStart n) = k * N"
    using assms(2) by (auto simp: node_wf_def mod_eq_0_iff_dvd dvd_def mult.commute)
  have "k * N \<le> unat s \<and> unat s < k * N + N \<longleftrightarrow> unat s div N = k"
    using assms(1) by (metis add.commute div_nat_eqI dividend_less_div_times mult.commute mult_Suc
        times_div_less_eq_dividend)
  then show ?thesis
    using assms(1) by (auto simp: coversSequence_def word_le_nat_alt word_less_nat_alt e k)
qed

lemma covers_unique:
  assumes "collector_wf N D nodes" "n \<in> set nodes" "m \<in> set nodes"
    "coversSequence N s n" "coversSequence N s m"
  shows "n = m"
proof -
  have "nodeStart n = nodeStart m"
    using assms by (auto simp: collector_wf_def covers_iff intro!: u64_eqI)
  then show ?thesis
    using assms by (auto simp: collector_wf_def distinct_map inj_on_def)
qed

lemma chunkAt_in:
  assumes "collector_wf N D nodes" "n \<in> set nodes" "coversSequence N s n"
  shows "chunkAt N nodes s = nodeData n ! unat (s mod of_nat N)"
proof -
  obtain i where i: "find_node N s nodes = Some i"
    using assms by (cases "find_node N s nodes") (auto simp: find_node_None)
  then have "nodes ! i = n"
    using covers_unique [OF assms(1), of "nodes ! i" n s] assms(2,3) find_node_Some [OF i]
    by auto
  with i show ?thesis by (simp add: chunkAt_def)
qed

lemma chunkAt_out:
  "\<forall>n \<in> set nodes. \<not> coversSequence N s n \<Longrightarrow> chunkAt N nodes s = initialChunk"
  by (simp add: chunkAt_def find_node_None [symmetric])

lemma collector_wf_set:
  assumes "collector_wf N D nodes" "i < length nodes"
  shows "set (nodes[i := n]) = insert n (set nodes - {nodes ! i})"
  using assms by (intro set_update_distinct) (auto simp: collector_wf_def distinct_map)

lemma covers_cong: "nodeStart m = nodeStart n \<Longrightarrow> coversSequence N s m = coversSequence N s n"
  by (simp add: coversSequence_def)

lemma openSequences_cong: "nodeStart m = nodeStart n \<Longrightarrow> openSequences N D m = openSequences N D n"
  by (simp add: openSequences_def coversSequence_def)

lemma distinct_starts_update:
  assumes "distinct (map nodeStart nodes)" "i < length nodes" "nodeStart n = nodeStart (nodes ! i)"
  shows "distinct (map nodeStart (nodes[i := n]))"
  using assms by (metis list_update_id map_update)

lemma slot_inj:
  assumes "0 < N" "node_wf N n" "coversSequence N s n" "coversSequence N t n"
    "unat (s mod of_nat N) = unat (t mod of_nat N)"
  shows "s = t"
proof -
  have N: "unat (of_nat N :: u64) = N"
    using assms(2) by (intro unat_of_nat_u64) (auto simp: node_wf_def)
  have "unat s mod N = unat t mod N"
    using assms(5) by (simp add: unat_mod_distrib N)
  moreover have "unat s div N = unat t div N"
    using assms(1-4) by (simp add: covers_iff)
  ultimately show ?thesis
    by (metis div_mult_mod_eq u64_eqI)
qed

lemma slot_less:
  assumes "0 < N" "node_wf N n"
  shows "unat ((s :: u64) mod of_nat N) < length (nodeData n)"
proof -
  have "unat (of_nat N :: u64) = N"
    using assms(2) by (intro unat_of_nat_u64) (auto simp: node_wf_def)
  then show ?thesis using assms by (simp add: node_wf_def unat_mod_distrib)
qed

lemma newNode_wf:
  assumes "0 < N" "unat s + N < 2 ^ 64"
  shows "node_wf N (newNode N (s div of_nat N * of_nat N))"
    "coversSequence N s (newNode N (s div of_nat N * of_nat N))"
proof -
  have N: "unat (of_nat N :: u64) = N"
    using assms by (intro unat_of_nat_u64) simp
  have le: "unat s div N * N \<le> unat s" by simp
  have u: "unat (s div of_nat N * of_nat N) = unat s div N * N"
  proof -
    have "unat s div N * N < 2 ^ 64" using le assms(2) by linarith
    then show ?thesis by (subst unat_mult_u64) (simp_all add: unat_div_distrib N)
  qed
  show w: "node_wf N (newNode N (s div of_nat N * of_nat N))"
  proof -
    have "unat s div N * N + N < 2 ^ 64" using le assms(2) by linarith
    then show ?thesis unfolding node_wf_def newNode_def by (simp add: u)
  qed
  show "coversSequence N s (newNode N (s div of_nat N * of_nat N))"
    unfolding covers_iff [OF assms(1) w] by (simp add: newNode_def u)
qed

lemma card_covered:
  assumes "0 < N" "node_wf N n"
  shows "card {s. coversSequence N s n} = N"
proof -
  have "unat ` {s. coversSequence N s n} = {unat (nodeStart n) ..< unat (nodeStart n) + N}"
  proof -
    have N: "unat (of_nat N :: u64) = N"
      using assms(2) by (intro unat_of_nat_u64) (auto simp: node_wf_def)
    have e: "unat (nodeStart n + of_nat N) = unat (nodeStart n) + N"
      using assms(2) by (subst unat_add_u64) (auto simp: N node_wf_def)
    have "x \<in> unat ` {s. coversSequence N s n}"
      if "unat (nodeStart n) \<le> x" "x < unat (nodeStart n) + N" for x
      using that assms(2)
      by (intro image_eqI [of _ _ "of_nat x"])
        (auto simp: coversSequence_def word_le_nat_alt word_less_nat_alt e node_wf_def unat_of_nat_u64)
    then show ?thesis
      by (auto simp: coversSequence_def word_le_nat_alt word_less_nat_alt e)
  qed
  moreover have "inj_on unat {s. coversSequence N s n}"
    by (auto simp: inj_on_def intro: u64_eqI)
  ultimately show ?thesis
    using card_image by fastforce
qed

lemma locateNode_wf:
  assumes wf: "collector_wf N D nodes" and s: "s \<notin> D" "unat s + N < 2 ^ 64"
    and loc: "locateNode N s nodes = (nodes1, i)"
  shows "collector_wf N D nodes1 \<and> i < length nodes1 \<and> coversSequence N s (nodes1 ! i)
         \<and> (\<forall>t. chunkAt N nodes1 t = chunkAt N nodes t)"
proof (cases "find_node N s nodes")
  case (Some j)
  then show ?thesis using assms find_node_Some [OF Some] by (auto simp: locateNode_def)
next
  case None
  define n where "n = newNode N (s div of_nat N * of_nat N)"
  have N: "0 < N" using wf by (simp add: collector_wf_def)
  have n: "node_wf N n" "coversSequence N s n"
    using newNode_wf [OF N s(2)] by (simp_all add: n_def)
  have nodes1: "nodes1 = nodes @ [n]" "i = length nodes"
    using loc None by (auto simp: locateNode_def n_def)
  have out: "\<not> coversSequence N t m" if "m \<in> set nodes" "coversSequence N t n" for t m
  proof -
    have "node_wf N m" "\<not> coversSequence N s m"
      using that wf None by (auto simp: collector_wf_def find_node_None)
    then show ?thesis using that(2) n N by (simp add: covers_iff)
  qed
  have new: "nodeStart n \<notin> nodeStart ` set nodes"
    using out [OF _ n(2)] n(2) covers_cong by (metis imageE)
  have "t \<notin> D" if "coversSequence N t n" for t
  proof
    assume "t \<in> D"
    moreover have "unat s div N = unat t div N" using that n N by (simp add: covers_iff)
    ultimately show False
      using wf s(1) out [OF _ that] unfolding collector_wf_def by blast
  qed
  then have openSequences: "openSequences N D n = {s. coversSequence N s n}"
    by (auto simp: openSequences_def)
  then have "unat (missing n) = card (openSequences N D n)"
    using card_covered [OF N n(1)] s(2) by (simp add: n_def newNode_def unat_of_nat_u64)
  moreover have "missing n \<noteq> 0"
    using calculation card_covered [OF N n(1)] N openSequences
    by (metis less_irrefl unat_0)
  ultimately have wf1: "collector_wf N D nodes1"
    using wf new n(1) by (auto simp: collector_wf_def nodes1)
  have "chunkAt N nodes1 t = chunkAt N nodes t" for t
  proof (cases "\<exists>m \<in> set nodes. coversSequence N t m")
    case True
    then show ?thesis using chunkAt_in [OF wf] chunkAt_in [OF wf1] by (force simp: nodes1)
  next
    case False
    then have "chunkAt N nodes t = initialChunk" by (auto intro: chunkAt_out)
    moreover have "chunkAt N nodes1 t = initialChunk"
    proof (cases "coversSequence N t n")
      case True
      then have "chunkAt N nodes1 t = nodeData n ! unat (t mod of_nat N)"
        by (intro chunkAt_in [OF wf1]) (auto simp: nodes1)
      then show ?thesis using slot_less [OF N n(1), of t] by (simp add: n_def newNode_def)
    qed (use False in \<open>auto intro!: chunkAt_out simp: nodes1\<close>)
    ultimately show ?thesis by simp
  qed
  with wf1 n(2) show ?thesis by (simp add: nodes1)
qed

lemma store_chunk_wf:
  assumes wf: "collector_wf N D nodes" and i: "i < length nodes" and cov: "coversSequence N s (nodes ! i)"
    and upd: "nodes' = nodes[i := (nodes ! i)\<lparr>nodeData := (nodeData (nodes ! i))[unat (s mod of_nat N) := c]\<rparr>]"
  shows "collector_wf N D nodes'" and "chunkAt N nodes' = (chunkAt N nodes)(s := c)"
proof -
  let ?n = "nodes ! i"
  let ?n' = "?n\<lparr>nodeData := (nodeData ?n)[unat (s mod of_nat N) := c]\<rparr>"
  have N: "0 < N" and n: "?n \<in> set nodes" "node_wf N ?n"
    using wf i by (auto simp: collector_wf_def)
  have set': "set nodes' = insert ?n' (set nodes - {?n})"
    using collector_wf_set [OF wf i] upd by simp
  have cov': "coversSequence N t ?n' = coversSequence N t ?n" for t
    by (simp add: coversSequence_def)
  have covers: "(\<exists>m \<in> set nodes. coversSequence N t m) \<longleftrightarrow> (\<exists>m \<in> set nodes'. coversSequence N t m)" for t
    using n(1) by (auto simp: set' cov')
  show wf': "collector_wf N D nodes'"
    unfolding collector_wf_def
  proof (intro conjI)
    show "distinct (map nodeStart nodes')"
      using wf i distinct_starts_update [of nodes i ?n'] by (simp add: collector_wf_def upd)
    show "\<forall>n\<in>set nodes'. node_wf N n \<and> missing n \<noteq> 0 \<and> unat (missing n) = card (openSequences N D n)"
      using wf n by (auto simp: set' collector_wf_def node_wf_def openSequences_def cov')
    show "\<forall>t\<in>D. (\<exists>n\<in>set nodes'. coversSequence N t n) \<or> (\<forall>t'. unat t' div N = unat t div N \<longrightarrow> t' \<in> D)"
      using wf unfolding collector_wf_def covers [symmetric] by blast
  qed (rule N)
  show "chunkAt N nodes' = (chunkAt N nodes)(s := c)"
  proof
    fix t
    show "chunkAt N nodes' t = ((chunkAt N nodes)(s := c)) t"
    proof (cases "coversSequence N t ?n")
      case True
      then have "chunkAt N nodes' t = nodeData ?n' ! unat (t mod of_nat N)"
        "chunkAt N nodes t = nodeData ?n ! unat (t mod of_nat N)"
        using n chunkAt_in [OF wf', of ?n' t] chunkAt_in [OF wf n(1), of t]
        by (simp_all add: set' cov')
      then show ?thesis
        using slot_inj [OF N n(2) cov True] slot_less [OF N n(2), of t]
          slot_less [OF N n(2), of s]
        by (auto simp: nth_list_update)
    next
      case False
      have "chunkAt N nodes' t = chunkAt N nodes t"
      proof (cases "\<exists>m \<in> set nodes. coversSequence N t m")
        case True
        then obtain m where "m \<in> set nodes" "coversSequence N t m" by blast
        with False show ?thesis
          by (subst chunkAt_in [OF wf', of m], simp_all add: set')
            (auto intro: chunkAt_in [OF wf, symmetric])
      next
        case nocov: False
        then have "\<forall>m \<in> set nodes'. \<not> coversSequence N t m" using covers by blast
        then show ?thesis using nocov chunkAt_out [of nodes N t] chunkAt_out [of nodes' N t] by simp
      qed
      then show ?thesis using False cov by auto
    qed
  qed
qed

lemma openSequences_insert:
  assumes "coversSequence N s n" "s \<notin> D"
  shows "card (openSequences N (insert s D) n) = card (openSequences N D n) - 1"
    and "0 < card (openSequences N D n)"
proof -
  have "openSequences N (insert s D) n = openSequences N D n - {s}"
    by (auto simp: openSequences_def)
  then show "card (openSequences N (insert s D) n) = card (openSequences N D n) - 1"
    using assms by (simp add: openSequences_def)
  show "0 < card (openSequences N D n)"
    using assms by (auto simp: card_gt_0_iff openSequences_def)
qed

lemma openSequences_other:
  "\<not> coversSequence N s n \<Longrightarrow> openSequences N (insert s D) n = openSequences N D n"
  by (auto simp: openSequences_def)

lemma complete_sequence_wf:
  assumes wf: "collector_wf N D nodes" and i: "i < length nodes" and cov: "coversSequence N s (nodes ! i)"
    and s: "s \<notin> D" and n2: "node2 = (nodes ! i)\<lparr>missing := missing (nodes ! i) - 1\<rparr>"
    and nodes': "nodes' = (if missing (nodes ! i) = 1
                           then filter (\<lambda>n. nodeStart n \<noteq> nodeStart node2) (nodes[i := node2])
                           else nodes[i := node2])"
  shows "collector_wf N (insert s D) nodes'"
    and "t \<notin> insert s D \<Longrightarrow> chunkAt N nodes' t = chunkAt N nodes t"
proof -
  let ?n = "nodes ! i"
  have N: "0 < N" and n: "?n \<in> set nodes" "node_wf N ?n" "unat (missing ?n) = card (openSequences N D ?n)"
    using wf i by (auto simp: collector_wf_def)
  have start2: "nodeStart node2 = nodeStart ?n" by (simp add: n2)
  have set2: "set (nodes[i := node2]) = insert node2 (set nodes - {?n})"
    by (rule collector_wf_set [OF wf i])
  have others: "m = ?n \<or> nodeStart m \<noteq> nodeStart ?n" if "m \<in> set nodes" for m
    using that n(1) wf by (auto simp: collector_wf_def distinct_map inj_on_def)
  have set': "set nodes' = (if missing ?n = 1 then set nodes - {?n} else insert node2 (set nodes - {?n}))"
    using others by (auto simp: nodes' set2 start2)
  have missing2: "unat (missing node2) = card (openSequences N (insert s D) ?n)"
  proof -
    have "missing ?n \<noteq> 0"
      using openSequences_insert(2) [OF cov s] n(3) by (metis less_numeral_extra(3) unat_0)
    then show ?thesis
      using openSequences_insert(1) [OF cov s] n(3) by (simp add: n2 unat_minus_one)
  qed
  have old: "node_wf N m" "missing m \<noteq> 0" "unat (missing m) = card (openSequences N (insert s D) m)"
    if "m \<in> set nodes" "m \<noteq> ?n" for m
  proof -
    have "\<not> coversSequence N s m" using covers_unique [OF wf that(1) n(1) _ cov] that(2) by blast
    then show "node_wf N m" "missing m \<noteq> 0" "unat (missing m) = card (openSequences N (insert s D) m)"
      using that wf by (auto simp: collector_wf_def openSequences_other)
  qed
  have full: "t \<in> insert s D" if "missing ?n = 1" "coversSequence N t ?n" for t
  proof -
    have "openSequences N (insert s D) ?n = {}"
      using that(1) missing2 by (simp add: n2)
    then show ?thesis using that(2) by (auto simp: openSequences_def)
  qed
  show wf': "collector_wf N (insert s D) nodes'"
    unfolding collector_wf_def
  proof (intro conjI)
    show "distinct (map nodeStart nodes')"
      using wf i distinct_starts_update [of nodes i node2]
      by (auto simp: collector_wf_def nodes' start2 distinct_map_filter)
    show "\<forall>m\<in>set nodes'. node_wf N m \<and> missing m \<noteq> 0 \<and> unat (missing m) = card (openSequences N (insert s D) m)"
    proof -
      have "node_wf N node2" "unat (missing node2) = card (openSequences N (insert s D) node2)"
        using n(2) missing2 openSequences_cong [OF start2] by (simp_all add: n2 node_wf_def)
      moreover have "missing node2 \<noteq> 0" if "missing ?n \<noteq> 1" using that by (simp add: n2)
      ultimately show ?thesis using old unfolding set' by auto
    qed
    show "\<forall>t\<in>insert s D. (\<exists>m\<in>set nodes'. coversSequence N t m)
            \<or> (\<forall>t'. unat t' div N = unat t div N \<longrightarrow> t' \<in> insert s D)"
    proof
      fix t assume t: "t \<in> insert s D"
      show "(\<exists>m\<in>set nodes'. coversSequence N t m)
            \<or> (\<forall>t'. unat t' div N = unat t div N \<longrightarrow> t' \<in> insert s D)"
      proof (cases "coversSequence N t ?n")
        case True
        then have "t' \<in> insert s D" if "missing ?n = 1" "unat t' div N = unat t div N" for t'
          using full [OF that(1), of t'] that(2) by (simp add: covers_iff [OF N n(2)])
        moreover have "coversSequence N t node2" using True covers_cong [OF start2] by simp
        ultimately show ?thesis unfolding set' by auto
      next
        case False
        then have "t \<in> D" using t cov by auto
        then show ?thesis
          using wf False unfolding collector_wf_def set' by auto
      qed
    qed
  qed (rule N)
  assume t: "t \<notin> insert s D"
  show "chunkAt N nodes' t = chunkAt N nodes t"
  proof (cases "\<exists>m \<in> set nodes. coversSequence N t m")
    case True
    then obtain m where m: "m \<in> set nodes" "coversSequence N t m" by blast
    define m' where "m' = (if m = ?n then node2 else m)"
    have "m' \<in> set nodes'" "coversSequence N t m'" "nodeData m' = nodeData m"
      using full t m by (auto simp: m'_def set' n2 coversSequence_def)
    then show ?thesis
      using chunkAt_in [OF wf'] chunkAt_in [OF wf m] by simp
  next
    case False
    then have "\<forall>m \<in> set nodes'. \<not> coversSequence N t m"
      using n(1) by (auto simp: set' n2 coversSequence_def split: if_splits)
    with False show ?thesis by (simp add: chunkAt_out)
  qed
qed

text \<open>Non-negative answers of one call, against the abstract chunk states.\<close>

lemma collect_step:
  assumes wf: "collector_wf N D nodes"
    and ok: "sequenceNumber d \<noteq> SequenceNumber_INVALID" "chunkNumber d \<noteq> ChunkNumber_INVALID"
    and s: "s = sequenceNumber d - SequenceNumber_INITIAL" "s \<notin> D" "unat s + N < 2 ^ 64"
    and upd: "update (chunkAt N nodes s) d w = Inr (c, r)"
  shows "\<exists>nodes'. collect N nodes d w = Inr (nodes', map_option (Pair (sequenceNumber d)) r)
           \<and> collector_wf N (if r = None then D else insert s D) nodes'
           \<and> (\<forall>t. t \<notin> D \<longrightarrow> t \<noteq> s \<longrightarrow> chunkAt N nodes' t = chunkAt N nodes t)
           \<and> (r = None \<longrightarrow> chunkAt N nodes' s = c)"
proof -
  obtain nodes1 i where loc: "locateNode N s nodes = (nodes1, i)" by fastforce
  note L = locateNode_wf [OF wf s(2,3) loc]
  define nodes2 where
    "nodes2 = nodes1[i := (nodes1 ! i)\<lparr>nodeData := (nodeData (nodes1 ! i))[unat (s mod of_nat N) := c]\<rparr>]"
  have L2: "collector_wf N D nodes2" "chunkAt N nodes2 = (chunkAt N nodes)(s := c)"
    using store_chunk_wf [of N D nodes1 i s nodes2 c] L unfolding nodes2_def by auto
  have i2: "i < length nodes2" "coversSequence N s (nodes2 ! i)"
    using L by (auto simp: nodes2_def coversSequence_def)
  have at: "nodeData (nodes1 ! i) ! unat (s mod of_nat N) = chunkAt N nodes s"
    using L chunkAt_in [of N D nodes1 "nodes1 ! i" s] by auto
  show ?thesis
  proof (cases r)
    case None
    then have "collect N nodes d w = Inr (nodes2, None)"
      using ok upd by (simp add: collect_def s(1) [symmetric] loc at nodes2_def Let_def)
    with None L2 show ?thesis by auto
  next
    case (Some v)
    define nodes3 where "nodes3 = (let n = (nodes2 ! i)\<lparr>missing := missing (nodes2 ! i) - 1\<rparr> in
       if missing (nodes2 ! i) = 1 then filter (\<lambda>m. nodeStart m \<noteq> nodeStart n) (nodes2[i := n])
       else nodes2[i := n])"
    note L3 = complete_sequence_wf [OF L2(1) i2 s(2) refl nodes3_def [unfolded Let_def]]
    have "collect N nodes d w = Inr (nodes3, Some (sequenceNumber d, v))"
      using ok upd Some L
      by (simp add: collect_def s(1) [symmetric] loc at nodes2_def nodes3_def Let_def)
    with Some L3 L2(2) show ?thesis by auto
  qed
qed

section \<open>Streams of chunks\<close>

text \<open>
  \<open>lastChunkOf q\<close> is the number of the last chunk of sequence \<open>q\<close>. A stream is valid when each chunk of a
  sequence arrives at most once, is numbered from \<open>ChunkNumber::INITIAL\<close> to \<open>lastChunkOf q\<close> and carries the
  last-chunk flag exactly when it is number \<open>lastChunkOf q\<close>. Nothing is said about the order.
\<close>

type_synonym chunkEvent = "SequenceData \<times> u64"

definition seqEvents :: "u64 \<Rightarrow> chunkEvent list \<Rightarrow> chunkEvent list" where
  "seqEvents q evs = filter (\<lambda>e. sequenceNumber (fst e) = q) evs"

definition chunk_of :: "u64 \<Rightarrow> chunkEvent \<Rightarrow> bool" where
  "chunk_of T e \<longleftrightarrow> 1 \<le> chunkNumber (fst e) \<and> chunkNumber (fst e) \<le> T
                  \<and> (lastChunk (fst e) \<longleftrightarrow> chunkNumber (fst e) = T)"

definition valid_chunks :: "nat \<Rightarrow> (u64 \<Rightarrow> u64) \<Rightarrow> chunkEvent list \<Rightarrow> bool" where
  "valid_chunks N lastChunkOf evs \<longleftrightarrow>
     distinct (map (\<lambda>e. (sequenceNumber (fst e), chunkNumber (fst e))) evs)
     \<and> list_all (\<lambda>e. sequenceNumber (fst e) \<noteq> 0 \<and> unat (sequenceNumber (fst e)) + N \<le> 2 ^ 64
                   \<and> chunk_of (lastChunkOf (sequenceNumber (fst e))) e) evs"

text \<open>The answer expected for event \<open>e\<close> after the events \<open>pre\<close>.\<close>

definition expectedAnswer ::
  "(u64 \<Rightarrow> u64) \<Rightarrow> chunkEvent list \<Rightarrow> chunkEvent \<Rightarrow> (u64 \<times> u64) option" where
  "expectedAnswer lastChunkOf pre e =
     (let q = sequenceNumber (fst e); es = seqEvents q (pre @ [e])
      in if length es = unat (lastChunkOf q) then Some (q, Max (snd ` set es)) else None)"

fun expectedAnswers ::
  "(u64 \<Rightarrow> u64) \<Rightarrow> chunkEvent list \<Rightarrow> chunkEvent list \<Rightarrow> (u64 \<times> u64) option list" where
  "expectedAnswers lastChunkOf pre [] = []"
| "expectedAnswers lastChunkOf pre (e # evs) =
     expectedAnswer lastChunkOf pre e # expectedAnswers lastChunkOf (pre @ [e]) evs"

definition chunkState :: "u64 \<Rightarrow> chunkEvent list \<Rightarrow> Chunk" where
  "chunkState T es =
     (let seen = (\<exists>e \<in> set es. lastChunk (fst e))
      in \<lparr>counter = (if seen then T - 1 else 0) - of_nat (length (filter (\<lambda>e. \<not> lastChunk (fst e)) es)),
          seenLastChunk = seen, chunkValue = fold max (map snd es) 0\<rparr>)"

definition completed :: "(u64 \<Rightarrow> u64) \<Rightarrow> chunkEvent list \<Rightarrow> u64 set" where
  "completed lastChunkOf evs =
     {s. seqEvents (s + 1) evs \<noteq> [] \<and> length (seqEvents (s + 1) evs) = unat (lastChunkOf (s + 1))}"

definition one_sequence :: "u64 \<Rightarrow> chunkEvent list \<Rightarrow> bool" where
  "one_sequence T es \<longleftrightarrow> distinct (map (\<lambda>e. chunkNumber (fst e)) es) \<and> list_all (chunk_of T) es"

lemma one_sequence_length:
  assumes "one_sequence T es"
  shows "length es \<le> unat T" "es \<noteq> [] \<Longrightarrow> \<forall>e \<in> set es. \<not> lastChunk (fst e) \<Longrightarrow> length es < unat T"
proof -
  let ?f = "\<lambda>e :: chunkEvent. unat (chunkNumber (fst e))"
  have inj: "inj_on ?f (set es)" and dist: "distinct es"
    using assms by (auto simp: one_sequence_def distinct_map inj_on_def dest: u64_eqI)
  have card: "length es = card (?f ` set es)"
    using inj dist by (simp add: card_image distinct_card)
  have le: "?f e \<in> {1..unat T}" if "e \<in> set es" for e
    using that assms
    by (auto simp: one_sequence_def list_all_iff chunk_of_def word_le_nat_alt)
  have "card (?f ` set es) \<le> card {1..unat T}"
    using le by (intro card_mono) auto
  then show "length es \<le> unat T" by (simp add: card)
  assume ne: "es \<noteq> []" and nl: "\<forall>e \<in> set es. \<not> lastChunk (fst e)"
  have "?f e \<in> {1..<unat T}" if "e \<in> set es" for e
    using that assms nl le [OF that]
    by (auto simp: one_sequence_def list_all_iff chunk_of_def word_unat_eq_iff order.strict_iff_order)
  then have "card (?f ` set es) \<le> card {1..<unat T}"
    by (intro card_mono) auto
  moreover have "0 < length es" using ne by simp
  ultimately show "length es < unat T" by (simp add: card)
qed

lemma one_sequence_nonlast:
  assumes "one_sequence T es"
  shows "length (filter (\<lambda>e. \<not> lastChunk (fst e)) es)
         = length es - (if \<exists>e \<in> set es. lastChunk (fst e) then 1 else 0)"
  using assms
proof (induction es)
  case (Cons e es)
  then have os: "one_sequence T es" by (simp add: one_sequence_def)
  show ?case
  proof (cases "lastChunk (fst e)")
    case True
    then have "\<forall>e' \<in> set es. \<not> lastChunk (fst e')"
      using Cons.prems by (auto simp: one_sequence_def list_all_iff chunk_of_def image_iff)
    with True Cons.IH [OF os] show ?thesis by auto
  next
    case False
    have "es \<noteq> []" if "\<exists>e \<in> set es. lastChunk (fst e)" using that by auto
    with False Cons.IH [OF os] show ?thesis by (cases es) auto
  qed
qed simp

lemma of_nat_eq_0_u64: "n < 2 ^ 64 \<Longrightarrow> (of_nat n :: u64) = 0 \<longleftrightarrow> n = 0"
  using unat_of_nat_u64 [of n] by (auto simp: word_unat_eq_iff)

lemma counter_zero_iff:
  assumes "one_sequence T es" "es \<noteq> []"
  shows "counter (chunkState T es) = 0 \<longleftrightarrow> length es = unat T"
proof (cases "\<exists>e \<in> set es. lastChunk (fst e)")
  case True
  have "T \<noteq> 0" using one_sequence_length(1) [OF assms(1)] assms(2) by auto
  then have T: "unat (T - 1) = unat T - 1" by (simp add: unat_minus_one)
  have "length es - 1 < 2 ^ 64"
    using le_unat_u64 [OF one_sequence_length(1) [OF assms(1)]] by simp
  then have "unat (of_nat (length es - 1) :: u64) = length es - 1" by (rule unat_of_nat_u64)
  then have "T - 1 = of_nat (length es - 1) \<longleftrightarrow> unat T - 1 = length es - 1"
    by (simp add: word_unat_eq_iff T)
  moreover have "counter (chunkState T es) = T - 1 - of_nat (length es - 1)"
    using True one_sequence_nonlast [OF assms(1)] by (simp add: chunkState_def)
  moreover have "0 < length es" "0 < unat T"
    using assms(2) \<open>T \<noteq> 0\<close> by (simp_all add: unat_gt_0)
  ultimately show ?thesis by (simp only: right_minus_eq) arith
next
  case False
  then have lt: "length es < unat T" using one_sequence_length(2) [OF assms] by auto
  then have "length es < 2 ^ 64" by (intro le_unat_u64 [of _ T]) simp
  then have "(of_nat (length es) :: u64) \<noteq> 0" using assms(2) by (simp only: of_nat_eq_0_u64) simp
  then show ?thesis
    using False lt one_sequence_nonlast [OF assms(1)] by (auto simp: chunkState_def)
qed

lemma update_chunkState:
  assumes os: "one_sequence T (es @ [(d, w)])"
  shows "update (chunkState T es) d w =
           Inr (chunkState T (es @ [(d, w)]),
                if length (es @ [(d, w)]) = unat T then Some (fold max (map snd (es @ [(d, w)])) 0) else None)"
proof -
  have last: "\<forall>e \<in> set es. \<not> lastChunk (fst e)" if "lastChunk d"
    using os that by (auto simp: one_sequence_def list_all_iff chunk_of_def image_iff)
  have T: "chunkNumber d = T" if "lastChunk d"
    using os that by (simp add: one_sequence_def chunk_of_def)
  let ?c = "chunkState T (es @ [(d, w)])"
  have "update (chunkState T es) d w = Inr (?c, if counter ?c = 0 then Some (chunkValue ?c) else None)"
    using last T
    by (auto simp: update_def Let_def chunkState_def ChunkNumber_INITIAL_def SequenceNumber_INITIAL_def
        max_def algebra_simps)
  moreover have "chunkValue ?c = fold max (map snd (es @ [(d, w)])) 0"
    by (simp add: chunkState_def Let_def)
  ultimately show ?thesis
    using counter_zero_iff [OF os] by simp
qed

lemma fold_max_eq_Max: "xs \<noteq> [] \<Longrightarrow> fold max xs (0 :: u64) = Max (set xs)"
proof (cases xs)
  case (Cons x ys)
  have "max x 0 = x" by (rule max_absorb1) simp
  with Cons show ?thesis by (simp add: Max.set_eq_fold del: list.set)
qed simp

lemma seqEvents_append: "seqEvents q (pre @ [e]) =
   seqEvents q pre @ (if sequenceNumber (fst e) = q then [e] else [])"
  by (simp add: seqEvents_def)

lemma valid_chunks_one_sequence: "valid_chunks N lastChunkOf evs \<Longrightarrow> one_sequence (lastChunkOf q) (seqEvents q evs)"
proof (induction evs)
  case (Cons e evs)
  then have "chunkNumber (fst e) \<notin> (\<lambda>e. chunkNumber (fst e)) ` set (seqEvents q evs)"
    if "sequenceNumber (fst e) = q"
    using that by (fastforce simp: valid_chunks_def seqEvents_def image_iff)
  with Cons show ?case by (auto simp: valid_chunks_def one_sequence_def seqEvents_def)
qed (simp add: one_sequence_def seqEvents_def)

lemma valid_chunks_prefix: "valid_chunks N lastChunkOf (pre @ evs) \<Longrightarrow> valid_chunks N lastChunkOf pre"
  by (simp add: valid_chunks_def)

text \<open>The state of the collector after the events \<open>pre\<close>.\<close>

definition collector_inv :: "nat \<Rightarrow> (u64 \<Rightarrow> u64) \<Rightarrow> chunkEvent list \<Rightarrow> Node list \<Rightarrow> bool" where
  "collector_inv N lastChunkOf pre nodes \<longleftrightarrow>
     collector_wf N (completed lastChunkOf pre) nodes
     \<and> (\<forall>s. s \<notin> completed lastChunkOf pre \<longrightarrow>
            chunkAt N nodes s = chunkState (lastChunkOf (s + 1)) (seqEvents (s + 1) pre))"

lemma collector_inv_init: "0 < N \<Longrightarrow> collector_inv N lastChunkOf [] []"
  by (simp add: collector_inv_def collector_wf_def completed_def seqEvents_def chunkAt_def
      chunkState_def initialChunk_def)

lemma completed_append:
  "completed lastChunkOf (pre @ [(d, w)]) =
     (if length (seqEvents (sequenceNumber d) (pre @ [(d, w)])) = unat (lastChunkOf (sequenceNumber d))
      then insert (sequenceNumber d - 1) (completed lastChunkOf pre)
      else completed lastChunkOf pre - {sequenceNumber d - 1})"
  by (auto simp: completed_def seqEvents_append)

lemma collector_inv_step:
  assumes inv: "collector_inv N lastChunkOf pre nodes"
    and valid: "valid_chunks N lastChunkOf (pre @ [(d, w)])"
  shows "\<exists>nodes'. collect N nodes d w = Inr (nodes', expectedAnswer lastChunkOf pre (d, w))
                 \<and> collector_inv N lastChunkOf (pre @ [(d, w)]) nodes'"
proof -
  let ?q = "sequenceNumber d" let ?T = "lastChunkOf ?q" let ?s = "?q - 1"
  let ?es = "seqEvents ?q (pre @ [(d, w)])"
  have os: "one_sequence ?T (seqEvents ?q pre @ [(d, w)])"
    using valid_chunks_one_sequence [OF valid, of ?q] by (simp add: seqEvents_append)
  have ns: "?s \<notin> completed lastChunkOf pre"
    using one_sequence_length(1) [OF os] by (auto simp: completed_def)
  have q: "?q \<noteq> 0" "unat ?q + N \<le> 2 ^ 64" "1 \<le> chunkNumber d"
    using valid by (auto simp: valid_chunks_def chunk_of_def)
  have N: "unat ?s + N < 2 ^ 64"
    using q unat_minus_one [of ?q] unat_gt_0 [of ?q] by linarith
  define r where "r = (if length ?es = unat ?T then Some (fold max (map snd ?es) 0) else None)"
  have wf: "collector_wf N (completed lastChunkOf pre) nodes"
    and st: "s \<notin> completed lastChunkOf pre \<Longrightarrow>
       chunkAt N nodes s = chunkState (lastChunkOf (s + 1)) (seqEvents (s + 1) pre)" for s
    using inv by (auto simp: collector_inv_def)
  have upd: "update (chunkAt N nodes ?s) d w = Inr (chunkState ?T ?es, r)"
    using update_chunkState [OF os] st [OF ns] by (simp add: r_def seqEvents_append)
  have "chunkNumber d \<noteq> 0" using q(3) by auto
  then obtain nodes' where c: "collect N nodes d w = Inr (nodes', map_option (Pair ?q) r)"
    and wf': "collector_wf N (if r = None then completed lastChunkOf pre else insert ?s (completed lastChunkOf pre)) nodes'"
    and ot: "\<And>t. t \<notin> completed lastChunkOf pre \<Longrightarrow> t \<noteq> ?s \<Longrightarrow> chunkAt N nodes' t = chunkAt N nodes t"
    and same: "r = None \<Longrightarrow> chunkAt N nodes' ?s = chunkState ?T ?es"
    using collect_step [OF wf _ _ _ ns N upd] q(1)
    by (auto simp: SequenceNumber_INVALID_def ChunkNumber_INVALID_def SequenceNumber_INITIAL_def)
  have D: "completed lastChunkOf (pre @ [(d, w)]) =
      (if r = None then completed lastChunkOf pre else insert ?s (completed lastChunkOf pre))"
    using ns by (auto simp: completed_append r_def)
  have "?es \<noteq> []" by (simp add: seqEvents_append)
  then have "map_option (Pair ?q) r = expectedAnswer lastChunkOf pre (d, w)"
    using fold_max_eq_Max [of "map snd ?es"] by (simp add: r_def expectedAnswer_def Let_def)
  moreover have "chunkAt N nodes' t = chunkState (lastChunkOf (t + 1)) (seqEvents (t + 1) (pre @ [(d, w)]))"
    if "t \<notin> completed lastChunkOf (pre @ [(d, w)])" for t
  proof (cases "t = ?s")
    case True
    then show ?thesis using that D same by (auto split: if_splits)
  next
    case False
    then have "?q \<noteq> t + 1" by auto
    then show ?thesis using that False D ot [of t] st [of t]
      by (auto simp: seqEvents_append split: if_splits)
  qed
  ultimately show ?thesis
    using c wf' by (auto simp: collector_inv_def D)
qed

lemma run_collect_inv:
  assumes "collector_inv N lastChunkOf pre nodes" "valid_chunks N lastChunkOf (pre @ evs)"
  shows "\<exists>nodes'. run_collect N nodes evs = Inr (nodes', expectedAnswers lastChunkOf pre evs)
                 \<and> collector_inv N lastChunkOf (pre @ evs) nodes'"
  using assms
proof (induction evs arbitrary: pre nodes)
  case (Cons e evs)
  obtain d w where e: "e = (d, w)" by (cases e)
  have "valid_chunks N lastChunkOf ((pre @ [(d, w)]) @ evs)" using Cons.prems(2) e by simp
  moreover obtain nodes1 where
    "collect N nodes d w = Inr (nodes1, expectedAnswer lastChunkOf pre (d, w))"
    "collector_inv N lastChunkOf (pre @ [(d, w)]) nodes1"
    using collector_inv_step [OF Cons.prems(1)] valid_chunks_prefix [OF calculation] by blast
  ultimately show ?case
    using Cons.IH [of "pre @ [(d, w)]" nodes1] e by auto
qed simp

section \<open>Properties\<close>

text \<open>
  C8. The chunk collector answers every call of a valid stream correctly, whatever the order and the
  interleaving in which the chunks arrive: the call that delivers the last missing chunk of a
  sequence returns the sequence number with the maximum watermark of all its chunks, every other
  call returns nothing, and no assertion fails. A node that is left covers a sequence that is not
  complete, so completed groups of sequences are released.
\<close>

theorem run_collect_correct:
  assumes "0 < N" "valid_chunks N lastChunkOf evs"
  shows "\<exists>nodes'. run_collect N [] evs = Inr (nodes', expectedAnswers lastChunkOf [] evs)
                 \<and> (\<forall>n \<in> set nodes'. \<exists>s. coversSequence N s n \<and> s \<notin> completed lastChunkOf evs)"
proof -
  obtain nodes' where r: "run_collect N [] evs = Inr (nodes', expectedAnswers lastChunkOf [] evs)"
    and wf: "collector_wf N (completed lastChunkOf evs) nodes'"
    using run_collect_inv [OF collector_inv_init [OF assms(1)], of lastChunkOf evs] assms(2)
    by (auto simp: collector_inv_def)
  have "\<exists>s. coversSequence N s n \<and> s \<notin> completed lastChunkOf evs" if "n \<in> set nodes'" for n
  proof -
    have "missing n \<noteq> 0" "unat (missing n) = card (openSequences N (completed lastChunkOf evs) n)"
      using wf that by (auto simp: collector_wf_def)
    then have "openSequences N (completed lastChunkOf evs) n \<noteq> {}"
      by (metis card.empty unat_eq_zero)
    then show ?thesis by (auto simp: openSequences_def)
  qed
  with r show ?thesis by blast
qed

theorem run_collect_correct_witness:
  "\<exists>nodes'. run_collect 2 [] [(SequenceData 2 1 True, 7), (SequenceData 1 2 True, 5), (SequenceData 1 1 False, 9)]
             = Inr (nodes', [Some (2, 7), None, Some (1, 9)])"
proof -
  let ?T = "\<lambda>q :: u64. if q = 1 then 2 else 1 :: u64"
  let ?e = "[(SequenceData 2 1 True, 7), (SequenceData 1 2 True, 5), (SequenceData 1 1 False, 9)]"
  have "valid_chunks 2 ?T ?e"
    by (simp add: valid_chunks_def chunk_of_def)
  moreover have "expectedAnswers ?T [] ?e = [Some (2, 7), None, Some (1, 9)]"
    by (simp add: expectedAnswer_def seqEvents_def)
  ultimately show ?thesis
    using run_collect_correct [of 2 ?T ?e] by auto
qed

text \<open>
  C30. One call of \<open>collect\<close> implements the abstract collector that keeps one chunk state per sequence
  number: it fails exactly when updating that state fails, answers with the watermark the update
  reports, keeps the node list well formed, and leaves the chunk state of every other open sequence
  untouched. Node lookup, slot arithmetic and node release are invisible.
\<close>

theorem collect_refines:
  assumes wf: "collector_wf N D nodes"
    and ok: "sequenceNumber d \<noteq> SequenceNumber_INVALID" "chunkNumber d \<noteq> ChunkNumber_INVALID"
    and s: "s = sequenceNumber d - SequenceNumber_INITIAL" "s \<notin> D" "unat s + N < 2 ^ 64"
  shows "case update (chunkAt N nodes s) d w of
      Inl e \<Rightarrow> collect N nodes d w = Inl e
    | Inr (c, r) \<Rightarrow> (\<exists>nodes'. collect N nodes d w = Inr (nodes', map_option (Pair (sequenceNumber d)) r)
           \<and> collector_wf N (if r = None then D else insert s D) nodes'
           \<and> (\<forall>t. t \<notin> D \<longrightarrow> t \<noteq> s \<longrightarrow> chunkAt N nodes' t = chunkAt N nodes t)
           \<and> (r = None \<longrightarrow> chunkAt N nodes' s = c))"
proof (cases "update (chunkAt N nodes s) d w")
  case (Inl e)
  obtain nodes1 i where loc: "locateNode N s nodes = (nodes1, i)" by fastforce
  have "nodeData (nodes1 ! i) ! unat (s mod of_nat N) = chunkAt N nodes s"
    using locateNode_wf [OF wf s(2,3) loc] chunkAt_in [of N D nodes1 "nodes1 ! i" s] by auto
  then have "collect N nodes d w = Inl e"
    using ok Inl by (simp add: collect_def s(1) [symmetric] loc Let_def)
  with Inl show ?thesis by simp
next
  case (Inr p)
  then show ?thesis
    using collect_step [OF wf ok s, of w "fst p" "snd p"] by (simp add: case_prod_beta)
qed

theorem collect_refines_witness:
  "\<exists>nodes'. collect 2 [] (SequenceData 3 1 True) 5 = Inr (nodes', Some (3, 5)) \<and> collector_wf 2 {2} nodes'"
proof -
  have "collector_wf 2 {} []" by (simp add: collector_wf_def)
  then show ?thesis
    using collect_refines [of 2 "{}" "[]" "SequenceData 3 1 True" 2 5]
    by (auto simp: SequenceNumber_INVALID_def ChunkNumber_INVALID_def SequenceNumber_INITIAL_def
        chunkAt_def update_def initialChunk_def ChunkNumber_INITIAL_def)
qed

end
