(* ===== verification/SequencerOrder.thy ===== *)
theory SequencerOrder
  imports ChunkCollector "HOL-Library.Product_Lexorder"
begin

text \<open>
  The sequencer (\<open>src/nes-common/include/Sequencing/Sequencer.hpp\<close>), the operator handler around it
  (\<open>src/nes-physical-operators/src/SequenceOperatorHandler.cpp\<close>) and the loop of
  \<open>SequencePhysicalOperator::open\<close>, which pass buffers on in sequence order.

  A buffer carries its sequence data. The priority queue is a list ordered by sequence data. Each
  call runs under the sequencer's lock, so threads interleave at call granularity: \<open>seq_step\<close> is the
  step relation of arriving buffers (\<open>getNextBuffer\<close>) and finished ones (\<open>markBufferAsDone\<close>), in any
  interleaving. The invariant \<open>seq_inv\<close> carries the ordering theorems.
\<close>

section \<open>The sequencer\<close>

record 't SequencerState =
  nextSequence :: u64
  nextChunkNumber :: u64
  queue :: "(SequenceData \<times> 't) list"

definition initialSequencer :: "'t SequencerState" where
  "initialSequencer =
     \<lparr>nextSequence = SequenceNumber_INITIAL, nextChunkNumber = ChunkNumber_INITIAL, queue = []\<rparr>"

definition isNext :: "'t SequencerState \<Rightarrow> SequenceData \<Rightarrow> 't \<Rightarrow> 't SequencerState \<times> 't option" where
  "isNext state sequence data =
     (if sequenceNumber sequence = nextSequence state \<and> chunkNumber sequence = nextChunkNumber state
      then (state, Some data)
      else (state\<lparr>queue := insort_key fst (sequence, data) (queue state)\<rparr>, None))"

definition advanceAndGetNext ::
  "'t SequencerState \<Rightarrow> SequenceData \<Rightarrow> ('t SequencerState \<times> 't option) result" where
  "advanceAndGetNext state data =
     andThen (PRECONDITION (nextChunkNumber state = chunkNumber data \<and> sequenceNumber data = nextSequence state)) (\<lambda>_.
       let state1 = (if lastChunk data
                     then state\<lparr>nextSequence := sequenceNumber data + 1, nextChunkNumber := ChunkNumber_INITIAL\<rparr>
                     else state\<lparr>nextChunkNumber := chunkNumber data + 1\<rparr>)
       in Inr (case queue state1 of
                 [] \<Rightarrow> (state1, None)
               | (sd, next) # rest \<Rightarrow>
                   if sequenceNumber sd = nextSequence state1 \<and> chunkNumber sd = nextChunkNumber state1
                   then (state1\<lparr>queue := rest\<rparr>, Some next)
                   else (state1, None)))"

section \<open>The operator handler and its loop\<close>

type_synonym 'p seqBuffer = "SequenceData \<times> 'p"

text \<open>\<open>currentBuffer\<close> is \<open>Some\<close> while a pointer to it is handed out.\<close>

record 'p SequenceOperatorHandler =
  sequencer :: "'p seqBuffer SequencerState"
  currentBuffer :: "'p seqBuffer option"

definition initialHandler :: "'p SequenceOperatorHandler" where
  "initialHandler = \<lparr>sequencer = initialSequencer, currentBuffer = None\<rparr>"

definition getNextBuffer ::
  "'p SequenceOperatorHandler \<Rightarrow> 'p seqBuffer \<Rightarrow> 'p SequenceOperatorHandler \<times> 'p seqBuffer option" where
  "getNextBuffer handler buffer =
     (case isNext (sequencer handler) (fst buffer) buffer of
        (s, Some optBuffer) \<Rightarrow> (handler\<lparr>sequencer := s, currentBuffer := Some optBuffer\<rparr>, Some optBuffer)
      | (s, None) \<Rightarrow> (handler\<lparr>sequencer := s\<rparr>, None))"

definition markBufferAsDone ::
  "'p SequenceOperatorHandler \<Rightarrow> 'p seqBuffer \<Rightarrow> ('p SequenceOperatorHandler \<times> 'p seqBuffer option) result" where
  "markBufferAsDone handler buffer =
     andThen (INVARIANT (currentBuffer handler = Some buffer)) (\<lambda>_.
     andThen (advanceAndGetNext (sequencer handler) (fst buffer)) (\<lambda>(s, optNextBuffer).
       Inr (handler\<lparr>sequencer := s, currentBuffer := optNextBuffer\<rparr>, optNextBuffer)))"

text \<open>The \<open>while (buffer)\<close> loop of \<open>open\<close>; the result lists the buffers given to the scan.\<close>

partial_function (option) open_loop ::
  "'p SequenceOperatorHandler \<Rightarrow> 'p seqBuffer option \<Rightarrow> 'p seqBuffer list
     \<Rightarrow> ('p SequenceOperatorHandler \<times> 'p seqBuffer list) result option" where
  "open_loop handler buffer out =
     (case buffer of
        None \<Rightarrow> Some (Inr (handler, out))
      | Some b \<Rightarrow>
          (case markBufferAsDone handler b of
             Inl e \<Rightarrow> Some (Inl e)
           | Inr (handler', next) \<Rightarrow> open_loop handler' next (out @ [b])))"

definition open_sequence ::
  "'p SequenceOperatorHandler \<Rightarrow> 'p seqBuffer \<Rightarrow> ('p SequenceOperatorHandler \<times> 'p seqBuffer list) result" where
  "open_sequence handler recordBuffer =
     (case getNextBuffer handler recordBuffer of (handler', buffer) \<Rightarrow>
        (case open_loop handler' buffer [] of None \<Rightarrow> Inl NonTermination | Some r \<Rightarrow> r))"

fun run_open ::
  "'p SequenceOperatorHandler \<Rightarrow> 'p seqBuffer list \<Rightarrow> ('p SequenceOperatorHandler \<times> 'p seqBuffer list) result" where
  "run_open handler [] = Inr (handler, [])"
| "run_open handler (b # bs) =
     andThen (open_sequence handler b) (\<lambda>(handler', out).
     andThen (run_open handler' bs) (\<lambda>(handler'', out'). Inr (handler'', out @ out')))"

section \<open>Interleaved calls\<close>

record 'p seqRun =
  handlerOf :: "'p SequenceOperatorHandler"
  arrived :: "'p seqBuffer list"
  processed :: "'p seqBuffer list"

definition initialRun :: "'p seqRun" where
  "initialRun = \<lparr>handlerOf = initialHandler, arrived = [], processed = []\<rparr>"

inductive seq_step :: "'p seqBuffer list \<Rightarrow> 'p seqRun \<Rightarrow> 'p seqRun \<Rightarrow> bool" for S where
  Arrive: "b \<in> set S \<Longrightarrow> b \<notin> set (arrived r) \<Longrightarrow> getNextBuffer (handlerOf r) b = (h, out) \<Longrightarrow>
     seq_step S r (r\<lparr>handlerOf := h, arrived := arrived r @ [b]\<rparr>)"
| Done: "currentBuffer (handlerOf r) = Some b \<Longrightarrow> markBufferAsDone (handlerOf r) b = Inr (h, out) \<Longrightarrow>
     seq_step S r (r\<lparr>handlerOf := h, processed := processed r @ [b]\<rparr>)"

inductive_cases seq_stepE: "seq_step S r r'"

section \<open>Streams in canonical order\<close>

definition pos :: "SequenceData \<Rightarrow> u64 \<times> u64" where
  "pos d = (sequenceNumber d, chunkNumber d)"

definition nextPos :: "SequenceData \<Rightarrow> u64 \<times> u64" where
  "nextPos d = (if lastChunk d then (sequenceNumber d + 1, ChunkNumber_INITIAL)
                else (sequenceNumber d, chunkNumber d + 1))"

text \<open>Consecutive positions from \<open>p\<close> on, without wrap-around of either number.\<close>

fun wf_stream :: "u64 \<times> u64 \<Rightarrow> 'p seqBuffer list \<Rightarrow> bool" where
  "wf_stream p [] \<longleftrightarrow> True"
| "wf_stream p (b # bs) \<longleftrightarrow>
     pos (fst b) = p \<and> sequenceNumber (fst b) + 1 \<noteq> 0 \<and> chunkNumber (fst b) + 1 \<noteq> 0
     \<and> wf_stream (nextPos (fst b)) bs"

definition startPos :: "u64 \<times> u64" where
  "startPos = (SequenceNumber_INITIAL, ChunkNumber_INITIAL)"

definition seq_inv :: "'p seqBuffer list \<Rightarrow> 'p seqRun \<Rightarrow> 'p seqBuffer list \<Rightarrow> bool" where
  "seq_inv S r rest \<longleftrightarrow>
     (let h = handlerOf r; q = sequencer h
      in S = processed r @ rest
         \<and> wf_stream (nextSequence q, nextChunkNumber q) rest
         \<and> sorted_wrt (<) (map fst (queue q)) \<and> (\<forall>e \<in> set (queue q). fst e = fst (snd e))
         \<and> set (map snd (queue q)) = {b \<in> set (arrived r). b \<in> set rest \<and> currentBuffer h \<noteq> Some b}
         \<and> set (processed r) \<subseteq> set (arrived r) \<and> set (arrived r) \<subseteq> set S
         \<and> (case rest of
              [] \<Rightarrow> currentBuffer h = None
            | b # _ \<Rightarrow> currentBuffer h = (if b \<in> set (arrived r) then Some b else None)))"

section \<open>Order lemmas\<close>

lemma u64_less_Suc: "(x :: u64) + 1 \<noteq> 0 \<Longrightarrow> x < x + 1"
proof -
  assume "x + 1 \<noteq> 0"
  then have "unat (x + 1) = unat x + 1"
    by (metis Suc_eq_plus1 unatSuc add.commute)
  then show ?thesis by (simp add: word_less_nat_alt)
qed

lemma pos_less_nextPos:
  "sequenceNumber d + 1 \<noteq> 0 \<Longrightarrow> chunkNumber d + 1 \<noteq> 0 \<Longrightarrow> pos d < nextPos d"
  by (auto simp: pos_def nextPos_def less_prod_def u64_less_Suc less_imp_le less_imp_not_less)

lemma pos_less_imp_less: "pos a < pos b \<Longrightarrow> a < b"
  by (auto simp: pos_def less_SequenceData_def less_prod_def)

lemma wf_stream_ge: "wf_stream p S \<Longrightarrow> b \<in> set S \<Longrightarrow> p \<le> pos (fst b)"
proof (induction S arbitrary: p)
  case (Cons c S)
  show ?case
  proof (cases "b = c")
    case False
    then have "nextPos (fst c) \<le> pos (fst b)" using Cons by (simp del: split_paired_All)
    with pos_less_nextPos [of "fst c"] Cons.prems(1) show ?thesis by force
  qed (use Cons.prems in simp)
qed simp

lemma wf_stream_less: "wf_stream p (c # S) \<Longrightarrow> b \<in> set S \<Longrightarrow> pos (fst c) < pos (fst b)"
  using wf_stream_ge [of "nextPos (fst c)" S b] pos_less_nextPos [of "fst c"]
  by (auto intro: less_le_trans)

lemma wf_stream_unique:
  "wf_stream p S \<Longrightarrow> x \<in> set S \<Longrightarrow> y \<in> set S \<Longrightarrow> pos (fst x) = pos (fst y) \<Longrightarrow> x = y"
proof (induction S arbitrary: p)
  case (Cons c S)
  then show ?case using wf_stream_less [OF Cons.prems(1)] by fastforce
qed simp

lemma wf_stream_distinct: "wf_stream p S \<Longrightarrow> distinct S"
proof (induction S arbitrary: p)
  case (Cons c S)
  then show ?case using wf_stream_less [OF Cons.prems(1)] by fastforce
qed simp

lemma sorted_insort_strict:
  "sorted_wrt (<) (map fst xs) \<Longrightarrow> fst e \<notin> fst ` set xs \<Longrightarrow> sorted_wrt (<) (map fst (insort_key fst e xs))"
  by (induction xs) (auto simp: set_insort_key order.strict_iff_order dest: order_trans)

section \<open>The invariant\<close>

lemma seq_inv_init: "wf_stream startPos S \<Longrightarrow> seq_inv S initialRun S"
  by (simp add: seq_inv_def initialRun_def initialHandler_def initialSequencer_def startPos_def
      split: list.split)

lemma seq_inv_arrive:
  assumes inv: "seq_inv S r rest" and b: "b \<in> set S" "b \<notin> set (arrived r)"
    and get: "getNextBuffer (handlerOf r) b = (h, out)"
  shows "seq_inv S (r\<lparr>handlerOf := h, arrived := arrived r @ [b]\<rparr>) rest"
proof -
  let ?q = "sequencer (handlerOf r)"
  have wf: "wf_stream (nextSequence ?q, nextChunkNumber ?q) rest" and S: "S = processed r @ rest"
    using inv by (auto simp: seq_inv_def Let_def)
  have "b \<in> set rest" using inv b by (auto simp: seq_inv_def Let_def)
  then obtain c bs where rest: "rest = c # bs" by (cases rest) auto
  have c: "pos (fst c) = (nextSequence ?q, nextChunkNumber ?q)" using wf by (simp add: rest)
  show ?thesis
  proof (cases "b = c")
    case True
    then have "h = (handlerOf r)\<lparr>currentBuffer := Some b\<rparr>"
      using get c by (auto simp: getNextBuffer_def isNext_def pos_def)
    then show ?thesis using inv b True by (auto simp: seq_inv_def Let_def rest)
  next
    case False
    then have "pos (fst b) \<noteq> pos (fst c)"
      using wf_stream_unique [OF wf \<open>b \<in> set rest\<close>, of c] by (auto simp: rest)
    then have h: "h = (handlerOf r)\<lparr>sequencer := ?q\<lparr>queue := insort_key fst (fst b, b) (queue ?q)\<rparr>\<rparr>"
      using get c by (auto simp: getNextBuffer_def isNext_def pos_def)
    have new: "fst b \<noteq> fst e" if "e \<in> set (queue ?q)" for e
    proof
      assume "fst b = fst e"
      moreover have "snd e \<in> set (arrived r)" "snd e \<in> set rest" "fst e = fst (snd e)"
        using inv that by (auto simp: seq_inv_def Let_def)
      ultimately show False
        using wf_stream_unique [OF wf \<open>b \<in> set rest\<close>, of "snd e"] b(2) by auto
    qed
    have "sorted_wrt (<) (map fst (insort_key fst (fst b, b) (queue ?q)))"
      using inv new by (intro sorted_insort_strict) (auto simp: seq_inv_def Let_def)
    then show ?thesis
      using inv b False \<open>b \<in> set rest\<close>
      by (auto simp: seq_inv_def Let_def rest h set_insort_key split: if_splits)
  qed
qed

lemma advanceAndGetNext_ok:
  assumes "pos d = (nextSequence q, nextChunkNumber q)"
  shows "advanceAndGetNext q d =
    (let q1 = q\<lparr>nextSequence := fst (nextPos d), nextChunkNumber := snd (nextPos d)\<rparr>
     in Inr (case queue q of
               [] \<Rightarrow> (q1, None)
             | e # es \<Rightarrow> if pos (fst e) = nextPos d then (q1\<lparr>queue := es\<rparr>, Some (snd e)) else (q1, None)))"
  using assms
  by (cases "queue q")
    (auto simp: advanceAndGetNext_def pos_def nextPos_def Let_def)

lemma seq_inv_done:
  assumes inv: "seq_inv S r rest" and b: "currentBuffer (handlerOf r) = Some b"
  shows "\<exists>h out bs. markBufferAsDone (handlerOf r) b = Inr (h, out) \<and> rest = b # bs
           \<and> currentBuffer h = out \<and> seq_inv S (r\<lparr>handlerOf := h, processed := processed r @ [b]\<rparr>) bs"
proof -
  let ?q = "sequencer (handlerOf r)"
  have wf: "wf_stream (nextSequence ?q, nextChunkNumber ?q) rest"
    and S: "S = processed r @ rest" and srt: "sorted_wrt (<) (map fst (queue ?q))"
    and keys: "\<And>e. e \<in> set (queue ?q) \<Longrightarrow> fst e = fst (snd e)"
    and qset: "set (map snd (queue ?q)) = {x \<in> set (arrived r). x \<in> set rest \<and> currentBuffer (handlerOf r) \<noteq> Some x}"
    using inv by (auto simp: seq_inv_def Let_def)
  from inv b obtain bs where rest: "rest = b # bs" "b \<in> set (arrived r)"
    by (auto simp: seq_inv_def Let_def split: list.splits if_splits)
  have wfb: "wf_stream (nextPos (fst b)) bs" and pb: "pos (fst b) = (nextSequence ?q, nextChunkNumber ?q)"
    using wf by (auto simp: rest)
  have nb: "b \<notin> set bs" using wf_stream_distinct [OF wf] by (simp add: rest)
  have qset': "snd ` set (queue ?q) = {x \<in> set (arrived r). x \<in> set bs}"
    using qset b nb by (auto simp: rest)
  define q1 where "q1 = ?q\<lparr>nextSequence := fst (nextPos (fst b)), nextChunkNumber := snd (nextPos (fst b))\<rparr>"
  define found where "found = (\<exists>e es. queue ?q = e # es \<and> pos (fst e) = nextPos (fst b))"
  define q2 where "q2 = (if found then q1\<lparr>queue := tl (queue ?q)\<rparr> else q1)"
  define out where "out = (if found then Some (snd (hd (queue ?q))) else None)"
  have mark: "markBufferAsDone (handlerOf r) b = Inr ((handlerOf r)\<lparr>sequencer := q2, currentBuffer := out\<rparr>, out)"
    using b advanceAndGetNext_ok [OF pb]
    by (auto simp: markBufferAsDone_def q2_def out_def found_def q1_def Let_def split: list.splits)
  have hd_found: "out = (case bs of [] \<Rightarrow> None | c # _ \<Rightarrow> if c \<in> set (arrived r) then Some c else None)"
  proof (cases "queue ?q")
    case Nil
    then have "\<forall>x \<in> set bs. x \<notin> set (arrived r)" using qset' by auto
    with Nil show ?thesis by (cases bs) (auto simp: out_def found_def)
  next
    case (Cons e es)
    then have e: "snd e \<in> set (arrived r)" "snd e \<in> set bs" "fst e = fst (snd e)"
      using qset' keys [of e] by auto
    then obtain c cs where bs: "bs = c # cs" by (cases bs) auto
    have pc: "pos (fst c) = nextPos (fst b)" using wfb by (simp add: bs)
    show ?thesis
    proof (cases "c \<in> set (arrived r)")
      case True
      then have "c \<in> snd ` set (queue ?q)" using qset' by (simp add: bs)
      then obtain e' where e': "e' \<in> set (queue ?q)" "snd e' = c" by (metis imageE)
      have "fst e \<le> fst e'" using srt e'(1) by (auto simp: Cons)
      then have "\<not> pos (fst c) < pos (fst (snd e))"
        using pos_less_imp_less keys [OF e'(1)] e(3) e'(2) by (metis leD)
      then have "snd e = c"
        using wf_stream_less [of "nextPos (fst b)" c cs "snd e"] wfb e(2) by (auto simp: bs)
      then show ?thesis using True pc e(3) by (auto simp: out_def found_def Cons bs)
    next
      case False
      then have "pos (fst e) \<noteq> nextPos (fst b)"
        using wf_stream_unique [OF wfb e(2), of c] pc e by (auto simp: bs)
      then show ?thesis using False by (auto simp: out_def found_def Cons bs)
    qed
  qed
  have "snd ` set (queue q2) = {x \<in> set (arrived r). x \<in> set bs \<and> out \<noteq> Some x}"
  proof (cases found)
    case True
    then obtain e es where e: "queue ?q = e # es" by (auto simp: found_def)
    have "snd e \<noteq> snd e'" if "e' \<in> set es" for e'
    proof -
      have "fst e < fst e'" using srt that by (simp add: e)
      then show ?thesis using keys [of e] keys [of e'] that by (auto simp: e)
    qed
    then have "snd ` set es = snd ` set (queue ?q) - {snd e}" by (auto simp: e)
    also have "\<dots> = {x \<in> set (arrived r). x \<in> set bs \<and> Some (snd e) \<noteq> Some x}"
      unfolding qset' by blast
    finally show ?thesis using True e by (simp add: q2_def out_def q1_def)
  qed (use qset' in \<open>auto simp: q2_def out_def q1_def\<close>)
  moreover have "sorted_wrt (<) (map fst (queue q2))" "\<forall>e \<in> set (queue q2). fst e = fst (snd e)"
    using srt keys by (cases "queue ?q"; auto simp: q2_def q1_def found_def)+
  moreover have "(nextSequence q2, nextChunkNumber q2) = nextPos (fst b)"
    by (simp add: q2_def q1_def)
  ultimately have "seq_inv S (r\<lparr>handlerOf := (handlerOf r)\<lparr>sequencer := q2, currentBuffer := out\<rparr>,
      processed := processed r @ [b]\<rparr>) bs"
    using inv wfb rest hd_found S by (auto simp: seq_inv_def Let_def split: list.split)
  with mark rest(1) show ?thesis by auto
qed

lemma seq_inv_reachable:
  assumes "(seq_step S)\<^sup>*\<^sup>* initialRun r" "wf_stream startPos S"
  shows "\<exists>rest. seq_inv S r rest"
  using assms
proof (induction rule: rtranclp_induct)
  case (step r r')
  then obtain rest where inv: "seq_inv S r rest" by blast
  from step.hyps(2) show ?case
    using seq_inv_arrive [OF inv] seq_inv_done [OF inv] by (elim seq_stepE) (blast, fastforce)
qed (use seq_inv_init in blast)

lemma open_loop_correct:
  assumes "seq_inv S r rest" "currentBuffer (handlerOf r) = buf"
  shows "\<exists>h' out' rest'. open_loop (handlerOf r) buf out = Some (Inr (h', out @ out'))
           \<and> currentBuffer h' = None
           \<and> seq_inv S (r\<lparr>handlerOf := h', processed := processed r @ out'\<rparr>) rest'"
  using assms
proof (induction rest arbitrary: r buf out)
  case Nil
  then have "buf = None" by (auto simp: seq_inv_def Let_def)
  then have "open_loop (handlerOf r) buf out = Some (Inr (handlerOf r, out @ []))"
    by (subst open_loop.simps) simp
  with \<open>buf = None\<close> Nil show ?case by fastforce
next
  case (Cons c rest)
  show ?case
  proof (cases buf)
    case None
    then have "open_loop (handlerOf r) buf out = Some (Inr (handlerOf r, out @ []))"
      by (subst open_loop.simps) simp
    with None Cons.prems show ?thesis by fastforce
  next
    case (Some b)
    let ?r = "\<lambda>h. r\<lparr>handlerOf := h, processed := processed r @ [b]\<rparr>"
    obtain h1 o1 where h1: "markBufferAsDone (handlerOf r) b = Inr (h1, o1)" "currentBuffer h1 = o1"
      "seq_inv S (?r h1) rest"
      using seq_inv_done [OF Cons.prems(1), of b] Cons.prems(2) Some by auto
    obtain h' out' rest' where "open_loop h1 o1 (out @ [b]) = Some (Inr (h', out @ [b] @ out'))"
      "currentBuffer h' = None"
      "seq_inv S (r\<lparr>handlerOf := h', processed := processed r @ [b] @ out'\<rparr>) rest'"
      using Cons.IH [OF h1(3), of o1 "out @ [b]"] h1(2) by auto
    moreover have "open_loop (handlerOf r) buf out = open_loop h1 o1 (out @ [b])"
      using Some h1(1) by (subst open_loop.simps) simp
    ultimately show ?thesis by fastforce
  qed
qed

lemma run_open_correct_aux:
  assumes "seq_inv S r rest" "currentBuffer (handlerOf r) = None"
    "distinct (arrived r @ bs)" "set bs \<subseteq> set S"
  shows "\<exists>h' out rest'. run_open (handlerOf r) bs = Inr (h', out) \<and> currentBuffer h' = None
           \<and> seq_inv S (r\<lparr>handlerOf := h', arrived := arrived r @ bs, processed := processed r @ out\<rparr>) rest'"
  using assms
proof (induction bs arbitrary: r rest)
  case (Cons b bs)
  obtain h1 o1 where get: "getNextBuffer (handlerOf r) b = (h1, o1)" by fastforce
  let ?r1 = "r\<lparr>handlerOf := h1, arrived := arrived r @ [b]\<rparr>"
  have inv1: "seq_inv S ?r1 rest"
    using seq_inv_arrive [OF Cons.prems(1) _ _ get] Cons.prems(3,4) by auto
  have "currentBuffer h1 = o1"
    using get Cons.prems(2) by (auto simp: getNextBuffer_def split: prod.splits option.splits)
  then obtain h2 out2 rest2 where o2: "open_loop h1 o1 [] = Some (Inr (h2, out2))" "currentBuffer h2 = None"
    and inv2: "seq_inv S (?r1\<lparr>handlerOf := h2, processed := processed r @ out2\<rparr>) rest2"
    using open_loop_correct [OF inv1, of o1 "[]"] by auto
  have "distinct (arrived r @ [b] @ bs)" "set bs \<subseteq> set S" using Cons.prems(3,4) by auto
  from Cons.IH [OF inv2 _ _ this(2)] o2(2) this(1)
  obtain h' out rest' where "run_open h2 bs = Inr (h', out)" "currentBuffer h' = None"
    "seq_inv S (r\<lparr>handlerOf := h', arrived := arrived r @ b # bs, processed := processed r @ out2 @ out\<rparr>) rest'"
    by auto
  then show ?case using o2(1) get by (auto simp: open_sequence_def)
qed auto

lemma seq_inv_complete:
  "seq_inv S r rest \<Longrightarrow> set (arrived r) = set S \<Longrightarrow> currentBuffer (handlerOf r) = None \<Longrightarrow> processed r = S"
  by (auto simp: seq_inv_def Let_def split: list.splits)

section \<open>Properties\<close>

text \<open>
  C10. Whatever the interleaving of threads that deliver buffers and finish them, the sequencer hands
  the buffers to the scan in stream order: the processed buffers are a prefix of the stream, a buffer
  in progress is the next one and finishing it never fails an assertion, and when everything has
  arrived and nothing is in progress, everything has been processed.
\<close>

theorem sequencer_in_order:
  assumes "wf_stream startPos S" "(seq_step S)\<^sup>*\<^sup>* initialRun r"
  shows "\<exists>rest. S = processed r @ rest
      \<and> (\<forall>b. currentBuffer (handlerOf r) = Some b \<longrightarrow>
             rest \<noteq> [] \<and> b = hd rest \<and> (\<exists>h out. markBufferAsDone (handlerOf r) b = Inr (h, out)))
      \<and> (set (arrived r) = set S \<longrightarrow> currentBuffer (handlerOf r) = None \<longrightarrow> rest = [])"
proof -
  obtain rest where inv: "seq_inv S r rest" using seq_inv_reachable [OF assms(2,1)] by blast
  have S: "S = processed r @ rest" using inv by (simp add: seq_inv_def Let_def)
  have complete: "rest = []" if "set (arrived r) = set S" "currentBuffer (handlerOf r) = None"
    using seq_inv_complete [OF inv that] S by simp
  have current: "rest \<noteq> [] \<and> b = hd rest \<and> (\<exists>h out. markBufferAsDone (handlerOf r) b = Inr (h, out))"
    if "currentBuffer (handlerOf r) = Some b" for b
    using seq_inv_done [OF inv that] by auto
  show ?thesis
  proof (rule exI [of _ rest], intro conjI allI impI)
    show "S = processed r @ rest" by (rule S)
  qed (use complete current in \<open>auto\<close>)
qed

theorem sequencer_in_order_witness:
  "\<exists>r :: nat seqRun. (seq_step [(SequenceData 1 1 True, 7)])\<^sup>*\<^sup>* initialRun r
      \<and> currentBuffer (handlerOf r) = Some (SequenceData 1 1 True, 7) \<and> processed r = []
      \<and> (\<exists>h out. markBufferAsDone (handlerOf r) (SequenceData 1 1 True, 7) = Inr (h, out))"
proof -
  let ?b = "(SequenceData 1 1 True, 7 :: nat)"
  let ?h = "initialHandler\<lparr>currentBuffer := Some ?b\<rparr>"
  let ?r = "initialRun\<lparr>handlerOf := ?h, arrived := [?b]\<rparr>"
  have "getNextBuffer initialHandler ?b = (?h, Some ?b)"
    by (simp add: getNextBuffer_def initialHandler_def isNext_def initialSequencer_def
        SequenceNumber_INITIAL_def ChunkNumber_INITIAL_def)
  then have "seq_step [?b] initialRun ?r"
    using seq_step.Arrive [of ?b "[?b]" initialRun ?h "Some ?b"] by (simp add: initialRun_def)
  then have step: "(seq_step [?b])\<^sup>*\<^sup>* initialRun ?r" by blast
  have wf: "wf_stream startPos [?b]"
    by (simp add: startPos_def pos_def SequenceNumber_INITIAL_def ChunkNumber_INITIAL_def)
  have "\<exists>h out. markBufferAsDone (handlerOf ?r) ?b = Inr (h, out)"
    using sequencer_in_order [OF wf step] by auto
  with step show ?thesis
    by (intro exI [of _ ?r]) (simp add: initialRun_def)
qed

text \<open>
  C11. When the buffers of a stream are delivered one after the other in any order, every call of
  \<open>open\<close> terminates and the concatenated output is exactly the stream in order.
\<close>

theorem run_open_sorts:
  assumes "wf_stream startPos S" "distinct bs" "set bs = set S"
  shows "\<exists>h. run_open initialHandler bs = Inr (h, S)"
proof -
  have h: "handlerOf initialRun = initialHandler" "currentBuffer (handlerOf initialRun) = None"
    "distinct (arrived initialRun @ bs)"
    using assms(2) by (auto simp: initialRun_def initialHandler_def)
  obtain h' out rest' where run: "run_open initialHandler bs = Inr (h', out)" "currentBuffer h' = None"
    "seq_inv S (initialRun\<lparr>handlerOf := h', arrived := arrived initialRun @ bs,
        processed := processed initialRun @ out\<rparr>) rest'"
    using run_open_correct_aux [OF seq_inv_init [OF assms(1)] h(2,3) eq_refl [OF assms(3)]]
    unfolding h(1) by blast
  then have "out = S"
    using seq_inv_complete [OF run(3)] assms(3) by (simp add: initialRun_def)
  with run(1) show ?thesis by blast
qed

theorem run_open_sorts_witness:
  "\<exists>h. run_open initialHandler [(SequenceData 2 1 True, CHR ''c''), (SequenceData 1 2 True, CHR ''b''), (SequenceData 1 1 False, CHR ''a'')]
     = Inr (h, [(SequenceData 1 1 False, CHR ''a''), (SequenceData 1 2 True, CHR ''b''), (SequenceData 2 1 True, CHR ''c'')])"
  by (rule run_open_sorts)
    (simp_all add: startPos_def pos_def nextPos_def SequenceNumber_INITIAL_def ChunkNumber_INITIAL_def
      insert_commute)

end
