(* ===== verification/SeqQueue.thy ===== *)
theory SeqQueue
  imports ChunkCollector
begin

text \<open>
  The non-blocking monotonic sequence queue
  (\<open>src/nes-common/include/Sequencing/NonBlockingMonotonicSeqQueue.hpp\<close>): a linked list of blocks of
  \<open>BlockSize\<close> slots, the last sequence number up to which every value has arrived, and a chunk
  collector in front.

  The list from \<open>head\<close> on is \<open>blocks\<close>; following \<open>next\<close> is taking the tail. One call is modelled with its
  sequential effect. The exchange of \<open>head\<close> may fail spuriously, which the parameter \<open>headCas\<close> decides
  per sequence number; it also fails whenever \<open>head\<close> is not the block of the current sequence number.
  The abstract view is a finite map from sequence numbers to values; \<open>queue_rel\<close> relates it to the
  blocks, \<open>emplace_refines\<close> and \<open>run_emplace_correct\<close> show that the queue implements it.
\<close>

section \<open>Blocks\<close>

record Container =
  seq :: u64
  slotValue :: u64

record Block =
  blockIndex :: u64
  log :: "Container list"

record SeqQueue =
  blocks :: "Block list"
  currentSeq :: u64
  chunks :: "Node list"

definition emptyContainer :: Container where
  "emptyContainer = \<lparr>seq = 0, slotValue = 0\<rparr>"

definition newBlock :: "nat \<Rightarrow> u64 \<Rightarrow> Block" where
  "newBlock BlockSize i = \<lparr>blockIndex = i, log = replicate BlockSize emptyContainer\<rparr>"

definition emptyQueue :: "nat \<Rightarrow> SeqQueue" where
  "emptyQueue BlockSize = \<lparr>blocks = [newBlock BlockSize 0], currentSeq = 0, chunks = []\<rparr>"

section \<open>Operations\<close>

function emplaceValueInBlock :: "nat \<Rightarrow> u64 \<Rightarrow> u64 \<Rightarrow> Block list \<Rightarrow> Block list result" where
  "emplaceValueInBlock BlockSize s v [] = Inl InvariantViolated"
| "emplaceValueInBlock BlockSize s v (b # rest) =
     (if blockIndex b < s div of_nat BlockSize then
        andThen (emplaceValueInBlock BlockSize s v
                   (if rest = [] then [newBlock BlockSize (blockIndex b + 1)] else rest))
          (\<lambda>rest'. Inr (b # rest'))
      else
        andThen (INVARIANT (s \<ge> blockIndex b * of_nat BlockSize)) (\<lambda>_.
        andThen (INVARIANT (s < blockIndex b * of_nat BlockSize + of_nat BlockSize)) (\<lambda>_.
          Inr (b\<lparr>log := (log b)[unat (s mod of_nat BlockSize) := \<lparr>seq = s, slotValue = v\<rparr>]\<rparr> # rest))))"
  by pat_completeness auto
termination
  by (relation "measure (\<lambda>(n, s, v, bs). length bs
        + (unat (s div of_nat n) - unat (blockIndex (last bs))))")
    (auto simp: newBlock_def word_less_nat_alt unat_Suc_u64_less [unfolded word_less_nat_alt])

declare emplaceValueInBlock.simps(2) [simp del]

fun getTargetBlock :: "u64 \<Rightarrow> Block list \<Rightarrow> Block list result" where
  "getTargetBlock targetBlockIndex [] = Inl PreconditionViolated"
| "getTargetBlock targetBlockIndex (b # rest) =
     (if blockIndex b < targetBlockIndex then getTargetBlock targetBlockIndex rest
      else Inr (b # rest))"

text \<open>
  One round of the loop of \<open>shiftCurrentValue\<close>: \<open>Some\<close> the new queue when the loop continues, \<open>None\<close>
  when \<open>checkForUpdate\<close> becomes false.
\<close>

definition shiftOnce :: "nat \<Rightarrow> (u64 \<Rightarrow> bool) \<Rightarrow> SeqQueue \<Rightarrow> SeqQueue option result" where
  "shiftOnce BlockSize headCas q =
     andThen (getTargetBlock (currentSeq q div of_nat BlockSize) (blocks q)) (\<lambda>currentBlock.
       let nextSeqNumber = currentSeq q + 1
       in if nextSeqNumber mod of_nat BlockSize = 0 then
            (case tl currentBlock of
               [] \<Rightarrow> Inr None
             | nextBlock # rest \<Rightarrow>
                 if seq (log nextBlock ! 0) = nextSeqNumber
                 then Inr (Some (q\<lparr>currentSeq := nextSeqNumber,
                                   blocks := (if length currentBlock = length (blocks q) \<and> headCas nextSeqNumber
                                              then nextBlock # rest else blocks q)\<rparr>))
                 else Inr None)
          else if seq (log (hd currentBlock) ! unat (nextSeqNumber mod of_nat BlockSize)) = nextSeqNumber
          then Inr (Some (q\<lparr>currentSeq := nextSeqNumber\<rparr>))
          else Inr None)"

partial_function (option) shiftCurrentValue ::
  "nat \<Rightarrow> (u64 \<Rightarrow> bool) \<Rightarrow> SeqQueue \<Rightarrow> SeqQueue result option" where
  "shiftCurrentValue BlockSize headCas q =
     (case shiftOnce BlockSize headCas q of
        Inl e \<Rightarrow> Some (Inl e)
      | Inr None \<Rightarrow> Some (Inr q)
      | Inr (Some q') \<Rightarrow> shiftCurrentValue BlockSize headCas q')"

declare shiftCurrentValue.simps [code]

definition emplace :: "nat \<Rightarrow> (u64 \<Rightarrow> bool) \<Rightarrow> SeqQueue \<Rightarrow> SequenceData \<Rightarrow> u64 \<Rightarrow> SeqQueue result" where
  "emplace BlockSize headCas q sequenceData newValue =
     andThen (collect BlockSize (chunks q) sequenceData newValue) (\<lambda>(nodes, opt).
       let q1 = q\<lparr>chunks := nodes\<rparr>
       in case opt of
            None \<Rightarrow> Inr q1
          | Some (s, value) \<Rightarrow>
              andThen (INVARIANT (s > currentSeq q1)) (\<lambda>_.
              andThen (emplaceValueInBlock BlockSize s value (blocks q1)) (\<lambda>blocks'.
                case shiftCurrentValue BlockSize headCas (q1\<lparr>blocks := blocks'\<rparr>) of
                  None \<Rightarrow> Inl NonTermination
                | Some r \<Rightarrow> r)))"

definition getCurrentValue :: "nat \<Rightarrow> SeqQueue \<Rightarrow> u64 result" where
  "getCurrentValue BlockSize q =
     andThen (getTargetBlock (currentSeq q div of_nat BlockSize) (blocks q)) (\<lambda>currentBlock.
       Inr (slotValue (log (hd currentBlock) ! unat (currentSeq q mod of_nat BlockSize))))"

fun run_emplace :: "nat \<Rightarrow> (u64 \<Rightarrow> bool) \<Rightarrow> SeqQueue \<Rightarrow> chunkEvent list \<Rightarrow> SeqQueue result" where
  "run_emplace N headCas q [] = Inr q"
| "run_emplace N headCas q ((d, w) # evs) =
     andThen (emplace N headCas q d w) (\<lambda>q'. run_emplace N headCas q' evs)"

section \<open>Abstract view\<close>

text \<open>The slot at distance \<open>j\<close> from the first slot of the first block; empty beyond the last block.\<close>

fun slotOf :: "nat \<Rightarrow> Block list \<Rightarrow> nat \<Rightarrow> Container" where
  "slotOf N [] j = emptyContainer"
| "slotOf N (b # bs) j = (if j < N then log b ! j else slotOf N bs (j - N))"

fun blocks_wf :: "nat \<Rightarrow> nat \<Rightarrow> Block list \<Rightarrow> bool" where
  "blocks_wf N h [] = True"
| "blocks_wf N h (b # bs) \<longleftrightarrow> unat (blockIndex b) = h \<and> length (log b) = N \<and> blocks_wf N (h + 1) bs"

definition containerOf :: "(nat \<Rightarrow> u64 option) \<Rightarrow> nat \<Rightarrow> Container" where
  "containerOf E n = (case E n of None \<Rightarrow> emptyContainer | Some v \<Rightarrow> \<lparr>seq = of_nat n, slotValue = v\<rparr>)"

definition queue_rel :: "nat \<Rightarrow> (nat \<Rightarrow> u64 option) \<Rightarrow> nat \<Rightarrow> SeqQueue \<Rightarrow> bool" where
  "queue_rel N E h q \<longleftrightarrow>
     0 < N \<and> N < 2 ^ 64 \<and> finite (dom E) \<and> (\<forall>n \<in> dom E. 0 < n \<and> n + N < 2 ^ 64)
     \<and> {1..unat (currentSeq q)} \<subseteq> dom E
     \<and> blocks_wf N h (blocks q) \<and> h \<le> unat (currentSeq q) div N
     \<and> unat (currentSeq q) div N < h + length (blocks q)
     \<and> (\<forall>j. slotOf N (blocks q) j = containerOf E (h * N + j))"

text \<open>\<open>prefixEnd E m\<close>: the values \<open>1, ..., m\<close> are present and \<open>m + 1\<close> is the first one missing.\<close>

definition prefixEnd :: "(nat \<Rightarrow> u64 option) \<Rightarrow> nat \<Rightarrow> bool" where
  "prefixEnd E m \<longleftrightarrow> {1..m} \<subseteq> dom E \<and> m + 1 \<notin> dom E"

lemma prefixEnd_le:
  assumes "prefixEnd E a" "prefixEnd E b"
  shows "b \<le> a"
proof (rule ccontr)
  assume "\<not> b \<le> a"
  then have "a + 1 \<in> {1..b}" by simp
  then have "a + 1 \<in> dom E" using assms(2) unfolding prefixEnd_def by blast
  then show False using assms(1) unfolding prefixEnd_def by blast
qed

lemma prefixEnd_unique: "prefixEnd E m \<Longrightarrow> prefixEnd E m' \<Longrightarrow> m = m'"
  by (intro le_antisym prefixEnd_le)

section \<open>Lemmas on blocks\<close>

lemma slotOf_out: "length bs * N \<le> j \<Longrightarrow> slotOf N bs j = emptyContainer"
  by (induction bs arbitrary: j) auto

lemma slotOf_drop: "k \<le> length bs \<Longrightarrow> slotOf N bs (k * N + j) = slotOf N (drop k bs) j"
proof (induction k arbitrary: bs)
  case (Suc k)
  then obtain b bs' where "bs = b # bs'" by (cases bs) auto
  with Suc show ?case by (simp add: add.assoc)
qed simp

lemma blocks_wf_drop: "blocks_wf N h bs \<Longrightarrow> k \<le> length bs \<Longrightarrow> blocks_wf N (h + k) (drop k bs)"
proof (induction k arbitrary: h bs)
  case (Suc k)
  then obtain b bs' where "bs = b # bs'" by (cases bs) auto
  with Suc.IH [of "h + 1" bs'] Suc.prems show ?case by simp
qed simp

lemma getTargetBlock_drop:
  assumes "blocks_wf N h bs" "h \<le> unat t" "unat t < h + length bs"
  shows "getTargetBlock t bs = Inr (drop (unat t - h) bs)"
  using assms
proof (induction bs arbitrary: h)
  case (Cons b bs)
  show ?case
  proof (cases "h < unat t")
    case True
    then show ?thesis using Cons.prems Cons.IH [of "h + 1"] by (simp add: word_less_nat_alt drop_Cons')
  next
    case False
    then show ?thesis using Cons.prems by (simp add: word_less_nat_alt)
  qed
qed simp

lemma slotOf_newBlock: "slotOf N [newBlock N i] j = emptyContainer"
  by (simp add: newBlock_def)

lemma emplaceValueInBlock_correct:
  assumes "blocks_wf N h bs" "bs \<noteq> []" "h \<le> unat s div N" "unat s + N < 2 ^ 64" "0 < N"
  shows "\<exists>bs'. emplaceValueInBlock N s v bs = Inr bs' \<and> blocks_wf N h bs'
           \<and> unat s div N < h + length bs' \<and> length bs \<le> length bs'
           \<and> (\<forall>j. slotOf N bs' j = (if h * N + j = unat s then \<lparr>seq = s, slotValue = v\<rparr> else slotOf N bs j))"
  using assms
proof (induction N s v bs arbitrary: h rule: emplaceValueInBlock.induct)
  case (2 N s v b rest)
  have N: "unat (of_nat N :: u64) = N" using 2(5,6) by (intro unat_of_nat_u64) simp
  have idx: "unat (blockIndex b) = h" using 2(2) by simp
  show ?case
  proof (cases "h < unat s div N")
    case True
    then have lt: "blockIndex b < s div of_nat N"
      by (simp add: word_less_nat_alt unat_div_distrib N idx)
    let ?r = "if rest = [] then [newBlock N (blockIndex b + 1)] else rest"
    have new: "unat (blockIndex b + 1) = h + 1"
      using unat_Suc_u64_less [OF lt] idx by simp
    have "blocks_wf N (h + 1) ?r" "?r \<noteq> []"
      using 2(2) new by (auto simp: newBlock_def)
    then obtain bs' where bs': "emplaceValueInBlock N s v ?r = Inr bs'" "blocks_wf N (h + 1) bs'"
      "unat s div N < h + 1 + length bs'" "length ?r \<le> length bs'"
      "\<And>j. slotOf N bs' j =
         (if (h + 1) * N + j = unat s then \<lparr>seq = s, slotValue = v\<rparr> else slotOf N ?r j)"
      using 2(1) [OF lt, of "h + 1"] True 2(5,6) by (metis Suc_eq_plus1 Suc_leI)
    have r: "slotOf N ?r j = slotOf N rest j" for j by (simp add: newBlock_def)
    have out: "h * N + j \<noteq> unat s" if "j < N" for j
    proof
      assume "h * N + j = unat s"
      then have "unat s div N = h" using that by (intro div_nat_eqI) (auto simp: algebra_simps)
      with True show False by simp
    qed
    have "slotOf N (b # bs') j =
        (if h * N + j = unat s then \<lparr>seq = s, slotValue = v\<rparr> else slotOf N (b # rest) j)" for j
    proof (cases "j < N")
      case False
      then have "h * N + j = (h + 1) * N + (j - N)" by simp
      with False show ?thesis using bs'(5) r by simp
    qed (use out in simp)
    moreover have "emplaceValueInBlock N s v (b # rest) = Inr (b # bs')"
      using lt bs'(1) by (simp add: emplaceValueInBlock.simps(2))
    moreover have "length (b # rest) \<le> length (b # bs')" using bs'(4) by (cases "rest = []") auto
    ultimately show ?thesis
      using bs'(2,3) 2(2) by (intro exI [of _ "b # bs'"]) simp
  next
    case False
    then have eq: "unat s div N = h" using 2(4) by simp
    have le: "h * N \<le> unat s" using eq by (metis div_times_less_eq_dividend)
    have lt: "unat s < h * N + N"
      using eq dividend_less_div_times [OF 2(6), of "unat s"] by simp
    have m: "unat (blockIndex b * of_nat N) = h * N"
      using le idx N 2(5) by (subst unat_mult_u64) auto
    have m2: "unat (blockIndex b * of_nat N + of_nat N) = h * N + N"
      using le m N 2(5) by (subst unat_add_u64) auto
    have md: "unat (s mod of_nat N) = unat s - h * N"
      by (simp add: unat_mod_distrib N eq [symmetric] minus_div_mult_eq_mod)
    let ?b = "b\<lparr>log := (log b)[unat s - h * N := \<lparr>seq = s, slotValue = v\<rparr>]\<rparr>"
    have "\<not> blockIndex b < s div of_nat N"
      by (simp add: word_less_nat_alt unat_div_distrib N idx eq)
    then have "emplaceValueInBlock N s v (b # rest) = Inr (?b # rest)"
      using le lt by (simp add: emplaceValueInBlock.simps(2) word_le_nat_alt [of _ s] word_less_nat_alt [of s] m m2 md)
    moreover have "slotOf N (?b # rest) j =
        (if h * N + j = unat s then \<lparr>seq = s, slotValue = v\<rparr> else slotOf N (b # rest) j)" for j
      using le lt 2(2) by (cases "j < N") (auto simp: nth_list_update)
    ultimately show ?thesis
      using 2(2) eq by (intro exI [of _ "?b # rest"]) simp
  qed
qed simp

section \<open>Shifting the current sequence number\<close>

lemma containerOf_seq:
  assumes "\<forall>n \<in> dom E. 0 < n \<and> n + N < 2 ^ 64" "unat s = n" "0 < n"
  shows "seq (containerOf E n) = s \<longleftrightarrow> n \<in> dom E"
proof (cases "E n")
  case None
  have "s \<noteq> 0" using assms(2,3) by auto
  then show ?thesis using None by (auto simp: containerOf_def emptyContainer_def)
next
  case (Some v)
  have "of_nat n = s" using assms(2) by auto
  with Some show ?thesis by (auto simp: containerOf_def)
qed

lemma queue_rel_bound:
  assumes "queue_rel N E h q"
  shows "unat (currentSeq q) + 1 < 2 ^ 64" "unat (currentSeq q + 1) = unat (currentSeq q) + 1"
    "unat (of_nat N :: u64) = N"
proof -
  show b: "unat (currentSeq q) + 1 < 2 ^ 64"
  proof (cases "currentSeq q = 0")
    case False
    then have "unat (currentSeq q) \<in> {1..unat (currentSeq q)}"
      by (simp add: unat_gt_0 Suc_le_eq)
    then have "unat (currentSeq q) + N < 2 ^ 64" "0 < N"
      using assms unfolding queue_rel_def by blast+
    then show ?thesis by linarith
  qed simp
  then show "unat (currentSeq q + 1) = unat (currentSeq q) + 1" by (rule unat_Suc_u64)
  show "unat (of_nat N :: u64) = N"
    using assms unfolding queue_rel_def by (blast intro: unat_of_nat_u64)
qed

lemma queue_rel_advance:
  assumes rel: "queue_rel N E h q" and n: "unat (currentSeq q) + 1 \<in> dom E"
    and b: "(unat (currentSeq q) + 1) div N < h + length (blocks q)"
  shows "queue_rel N E h (q\<lparr>currentSeq := currentSeq q + 1\<rparr>)"
proof -
  have "{1..unat (currentSeq q) + 1} \<subseteq> dom E"
    using rel n by (auto simp: queue_rel_def atLeastAtMostSuc_conv)
  moreover have "h \<le> (unat (currentSeq q) + 1) div N"
    using rel unfolding queue_rel_def by (meson div_le_mono le_add1 order_trans)
  ultimately show ?thesis
    using rel b queue_rel_bound(2) [OF rel] unfolding queue_rel_def by simp
qed

lemma queue_rel_move_head:
  assumes rel: "queue_rel N E h q" and bs: "blocks q = b # bs" and h: "h + 1 \<le> unat (currentSeq q) div N"
  shows "queue_rel N E (h + 1) (q\<lparr>blocks := bs\<rparr>)"
proof -
  have "slotOf N bs j = containerOf E ((h + 1) * N + j)" for j
  proof -
    have "slotOf N (blocks q) (N + j) = containerOf E (h * N + (N + j))"
      using rel by (simp add: queue_rel_def)
    then show ?thesis by (simp add: bs algebra_simps)
  qed
  then show ?thesis using rel h by (simp add: queue_rel_def bs)
qed

lemma queue_rel_current_block:
  assumes rel: "queue_rel N E h q"
  obtains b rest k where
    "getTargetBlock (currentSeq q div of_nat N) (blocks q) = Inr (b # rest)"
    "drop k (blocks q) = b # rest" "h + k = unat (currentSeq q) div N" "length (blocks q) = k + 1 + length rest"
    "\<And>j. slotOf N (b # rest) j = containerOf E (unat (currentSeq q) div N * N + j)"
proof -
  let ?c = "unat (currentSeq q)"
  define k where "k = ?c div N - h"
  have k: "k < length (blocks q)" "h + k = ?c div N" using rel by (auto simp: k_def queue_rel_def)
  then obtain b rest where br: "drop k (blocks q) = b # rest"
    by (metis Cons_nth_drop_Suc)
  have "getTargetBlock (currentSeq q div of_nat N) (blocks q) = Inr (drop k (blocks q))"
    using getTargetBlock_drop [of N h "blocks q" "currentSeq q div of_nat N"] rel queue_rel_bound(3) [OF rel]
    by (simp add: queue_rel_def unat_div_distrib k_def)
  moreover have "slotOf N (drop k (blocks q)) j = containerOf E (?c div N * N + j)" for j
  proof -
    have "slotOf N (blocks q) (k * N + j) = containerOf E (h * N + (k * N + j))"
      using rel by (simp add: queue_rel_def)
    then show ?thesis
      using slotOf_drop [of k "blocks q" N j] k by (simp add: k(2) [symmetric] algebra_simps)
  qed
  moreover have "length (blocks q) = k + 1 + length rest"
    using arg_cong [OF br, of length] k(1) by simp
  ultimately show ?thesis using that br k(2) by metis
qed

lemma shiftOnce_stop:
  assumes rel: "queue_rel N E h q" and n: "unat (currentSeq q) + 1 \<notin> dom E"
  shows "shiftOnce N headCas q = Inr None"
proof -
  let ?c = "unat (currentSeq q)"
  note bnd = queue_rel_bound [OF rel]
  have E: "\<forall>n \<in> dom E. 0 < n \<and> n + N < 2 ^ 64" "0 < N" using rel by (auto simp: queue_rel_def)
  obtain b rest where tgt: "getTargetBlock (currentSeq q div of_nat N) (blocks q) = Inr (b # rest)"
    and sl: "\<And>j. slotOf N (b # rest) j = containerOf E (?c div N * N + j)"
    using queue_rel_current_block [OF rel] by metis
  have test: "seq (slotOf N (b # rest) (?c mod N + 1)) \<noteq> currentSeq q + 1"
    using n containerOf_seq [OF E(1) bnd(2)] sl [of "?c mod N + 1"] by (simp add: add.assoc [symmetric])
  show ?thesis
  proof (cases "?c mod N + 1 = N")
    case True
    then have "(?c + 1) mod N = 0" by (simp add: mod_Suc)
    then have "(currentSeq q + 1) mod of_nat N = 0"
      by (simp add: word_unat_eq_iff unat_mod_distrib bnd)
    then show ?thesis
      using tgt test True E(2) by (simp add: shiftOnce_def Let_def split: list.split) auto
  next
    case False
    then have m: "(?c + 1) mod N = ?c mod N + 1" by (simp add: mod_Suc)
    then have w: "unat ((currentSeq q + 1) mod of_nat N) = ?c mod N + 1"
      by (simp add: unat_mod_distrib bnd)
    then have "(currentSeq q + 1) mod of_nat N \<noteq> 0" by (metis add_is_0 one_neq_zero unat_0)
    moreover have "?c mod N + 1 < N" using False mod_less_divisor [OF E(2), of ?c] by linarith
    ultimately show ?thesis using tgt test w by (simp add: shiftOnce_def Let_def)
  qed
qed

lemma shiftOnce_advance:
  assumes rel: "queue_rel N E h q" and n: "unat (currentSeq q) + 1 \<in> dom E"
  shows "\<exists>q' h'. shiftOnce N headCas q = Inr (Some q') \<and> queue_rel N E h' q'
                  \<and> currentSeq q' = currentSeq q + 1 \<and> chunks q' = chunks q"
proof -
  let ?c = "unat (currentSeq q)"
  note bnd = queue_rel_bound [OF rel]
  have E: "\<forall>n \<in> dom E. 0 < n \<and> n + N < 2 ^ 64" "0 < N" using rel by (auto simp: queue_rel_def)
  obtain b rest k where tgt: "getTargetBlock (currentSeq q div of_nat N) (blocks q) = Inr (b # rest)"
    and k: "drop k (blocks q) = b # rest" "h + k = ?c div N" "length (blocks q) = k + 1 + length rest"
    and sl: "\<And>j. slotOf N (b # rest) j = containerOf E (?c div N * N + j)"
    using queue_rel_current_block [OF rel] by metis
  have test: "seq (slotOf N (b # rest) (?c mod N + 1)) = currentSeq q + 1"
    using n containerOf_seq [OF E(1) bnd(2)] sl [of "?c mod N + 1"] by (simp add: add.assoc [symmetric])
  show ?thesis
  proof (cases "?c mod N + 1 = N")
    case True
    then have "(?c + 1) mod N = 0" by (simp add: mod_Suc)
    then have md: "(currentSeq q + 1) mod of_nat N = 0"
      by (simp add: word_unat_eq_iff unat_mod_distrib bnd)
    have dv: "(?c + 1) div N = h + k + 1" using True k(2) by (simp add: div_Suc mod_Suc)
    have "rest \<noteq> []"
      using test True bnd(2) by (auto simp: emptyContainer_def)
    then obtain nb rest' where rest: "rest = nb # rest'" by (cases rest) auto
    have t: "seq (log nb ! 0) = currentSeq q + 1" using test True E(2) by (simp add: rest)
    let ?q = "q\<lparr>currentSeq := currentSeq q + 1\<rparr>"
    have relq: "queue_rel N E h ?q"
      using queue_rel_advance [OF rel n] dv k(3) by (simp add: rest)
    show ?thesis
    proof (cases "k = 0 \<and> headCas (currentSeq q + 1)")
      case True
      have "queue_rel N E (h + 1) (?q\<lparr>blocks := rest\<rparr>)"
        using queue_rel_move_head [OF relq, of b rest] True k dv bnd(2) by simp
      moreover have "shiftOnce N headCas q = Inr (Some (?q\<lparr>blocks := rest\<rparr>))"
        using tgt md t True k by (simp add: shiftOnce_def Let_def rest)
      ultimately show ?thesis by fastforce
    next
      case False
      then have "shiftOnce N headCas q = Inr (Some ?q)"
        using tgt md t k by (auto simp: shiftOnce_def Let_def rest)
      with relq show ?thesis by fastforce
    qed
  next
    case False
    then have m: "(?c + 1) mod N = ?c mod N + 1" "(?c + 1) div N = ?c div N"
      by (simp_all add: mod_Suc div_Suc)
    then have w: "unat ((currentSeq q + 1) mod of_nat N) = ?c mod N + 1"
      by (simp add: unat_mod_distrib bnd)
    then have "(currentSeq q + 1) mod of_nat N \<noteq> 0" by (metis add_is_0 one_neq_zero unat_0)
    moreover have "?c mod N + 1 < N" using False mod_less_divisor [OF E(2), of ?c] by linarith
    ultimately have "shiftOnce N headCas q = Inr (Some (q\<lparr>currentSeq := currentSeq q + 1\<rparr>))"
      using tgt test w by (simp add: shiftOnce_def Let_def)
    moreover have "queue_rel N E h (q\<lparr>currentSeq := currentSeq q + 1\<rparr>)"
      using queue_rel_advance [OF rel n] m k by simp
    ultimately show ?thesis by fastforce
  qed
qed

text \<open>The loop returns: each round consumes one of the finitely many values beyond \<open>currentSeq\<close>.\<close>

lemma shiftCurrentValue_correct:
  assumes "queue_rel N E h q"
  shows "\<exists>q' h'. shiftCurrentValue N headCas q = Some (Inr q') \<and> queue_rel N E h' q'
           \<and> prefixEnd E (unat (currentSeq q')) \<and> chunks q' = chunks q"
  using assms
proof (induction "card {n \<in> dom E. unat (currentSeq q) < n}" arbitrary: q h rule: less_induct)
  case less
  note rel = less.prems
  show ?case
  proof (cases "unat (currentSeq q) + 1 \<in> dom E")
    case True
    obtain q1 h1 where q1: "shiftOnce N headCas q = Inr (Some q1)" "queue_rel N E h1 q1"
      "currentSeq q1 = currentSeq q + 1" "chunks q1 = chunks q"
      using shiftOnce_advance [OF rel True] by blast
    have "finite (dom E)" using rel by (simp add: queue_rel_def)
    then have "card {n \<in> dom E. unat (currentSeq q1) < n} < card {n \<in> dom E. unat (currentSeq q) < n}"
      using True queue_rel_bound(2) [OF rel] q1(3)
      by (intro psubset_card_mono) (auto simp: psubset_eq)
    from less.hyps [OF this q1(2)] show ?thesis
      using q1 by (subst shiftCurrentValue.simps) simp
  next
    case False
    then show ?thesis
      using rel shiftOnce_stop [OF rel False]
      by (subst shiftCurrentValue.simps) (auto simp: prefixEnd_def queue_rel_def)
  qed
qed

section \<open>Emplacing a complete sequence and reading the current value\<close>

lemma queue_rel_insert:
  assumes rel: "queue_rel N E h q" and s: "currentSeq q < s" "unat s + N < 2 ^ 64" "E (unat s) = None"
  shows "\<exists>bs'. emplaceValueInBlock N s v (blocks q) = Inr bs'
           \<and> queue_rel N (E(unat s \<mapsto> v)) h (q\<lparr>blocks := bs'\<rparr>)"
proof -
  let ?E = "E(unat s \<mapsto> v)"
  have h: "blocks_wf N h (blocks q)" "h \<le> unat (currentSeq q) div N" "0 < N" "blocks q \<noteq> []"
    using rel by (auto simp: queue_rel_def)
  have "unat (currentSeq q) div N \<le> unat s div N"
    using s(1) by (intro div_le_mono) (simp add: word_less_nat_alt)
  then obtain bs' where bs': "emplaceValueInBlock N s v (blocks q) = Inr bs'" "blocks_wf N h bs'"
    "length (blocks q) \<le> length bs'"
    and sl: "\<And>j. slotOf N bs' j =
        (if h * N + j = unat s then \<lparr>seq = s, slotValue = v\<rparr> else slotOf N (blocks q) j)"
    using emplaceValueInBlock_correct [OF h(1,4) _ s(2) h(3), of v] h(2) by (meson order_trans)
  have "slotOf N bs' j = containerOf ?E (h * N + j)" for j
    using rel sl [of j] by (auto simp: queue_rel_def containerOf_def)
  moreover have "0 < unat s" using s(1) by (simp add: word_less_nat_alt)
  moreover have "unat (currentSeq q) div N < h + length bs'"
    using rel bs'(3) by (simp add: queue_rel_def)
  ultimately have "queue_rel N ?E h (q\<lparr>blocks := bs'\<rparr>)"
    using rel bs'(2) s(2) unfolding queue_rel_def by auto
  with bs'(1) show ?thesis by blast
qed

lemma getCurrentValue_rel:
  assumes rel: "queue_rel N E h q"
  shows "getCurrentValue N q = Inr (if currentSeq q = 0 then 0 else the (E (unat (currentSeq q))))"
proof -
  let ?c = "unat (currentSeq q)"
  obtain b rest where tgt: "getTargetBlock (currentSeq q div of_nat N) (blocks q) = Inr (b # rest)"
    and sl: "\<And>j. slotOf N (b # rest) j = containerOf E (?c div N * N + j)"
    using queue_rel_current_block [OF rel] by metis
  have N: "0 < N" "{1..?c} \<subseteq> dom E" "0 \<notin> dom E" using rel by (auto simp: queue_rel_def)
  have slot: "log b ! (?c mod N) = containerOf E ?c"
    using sl [of "?c mod N"] N(1) by simp
  have "slotValue (containerOf E ?c) = (if ?c = 0 then 0 else the (E ?c))"
  proof (cases "?c = 0")
    case True
    then show ?thesis using N(3) by (simp add: containerOf_def emptyContainer_def domIff)
  next
    case False
    then have "?c \<in> dom E" using N(2) by (auto simp: subset_iff Suc_le_eq)
    with False show ?thesis by (auto simp: containerOf_def)
  qed
  then show ?thesis
    using tgt slot by (simp add: getCurrentValue_def unat_mod_distrib unat_eq_zero queue_rel_bound(3) [OF rel])
qed

lemma queue_rel_empty: "0 < N \<Longrightarrow> N < 2 ^ 64 \<Longrightarrow> queue_rel N (\<lambda>_. None) 0 (emptyQueue N)"
  by (simp add: queue_rel_def emptyQueue_def newBlock_def containerOf_def)

lemma queue_rel_chunks: "queue_rel N E h (q\<lparr>chunks := c\<rparr>) = queue_rel N E h q"
  by (simp add: queue_rel_def)

section \<open>Streams of chunks through the queue\<close>

text \<open>The completed sequences of a stream with their values: the queue's abstract content.\<close>

definition completedValues :: "(u64 \<Rightarrow> u64) \<Rightarrow> chunkEvent list \<Rightarrow> nat \<Rightarrow> u64 option" where
  "completedValues lastChunkOf evs n =
     (let es = seqEvents (of_nat n) evs
      in if 0 < n \<and> n < 2 ^ 64 \<and> es \<noteq> [] \<and> length es = unat (lastChunkOf (of_nat n))
         then Some (Max (snd ` set es)) else None)"

definition queue_inv :: "nat \<Rightarrow> (u64 \<Rightarrow> u64) \<Rightarrow> chunkEvent list \<Rightarrow> SeqQueue \<Rightarrow> bool" where
  "queue_inv N lastChunkOf pre q \<longleftrightarrow>
     collector_inv N lastChunkOf pre (chunks q)
     \<and> (\<exists>h. queue_rel N (completedValues lastChunkOf pre) h q)
     \<and> prefixEnd (completedValues lastChunkOf pre) (unat (currentSeq q))"

lemma completedValues_append:
  assumes "sequenceNumber d \<noteq> 0"
  shows "completedValues lastChunkOf (pre @ [(d, w)]) =
    (completedValues lastChunkOf pre)(unat (sequenceNumber d) := map_option snd (expectedAnswer lastChunkOf pre (d, w)))"
proof
  fix n
  show "completedValues lastChunkOf (pre @ [(d, w)]) n = ((completedValues lastChunkOf pre)
    (unat (sequenceNumber d) := map_option snd (expectedAnswer lastChunkOf pre (d, w)))) n"
  proof (cases "n = unat (sequenceNumber d)")
    case True
    have "0 < unat (sequenceNumber d)" using assms by (simp add: unat_gt_0)
    then show ?thesis
      using True by (simp add: completedValues_def expectedAnswer_def Let_def seqEvents_append)
  next
    case False
    then have "n < 2 ^ 64 \<longrightarrow> (of_nat n :: u64) \<noteq> sequenceNumber d"
      using unat_of_nat_u64 [of n] by auto
    then show ?thesis
      using False by (auto simp: completedValues_def Let_def seqEvents_append)
  qed
qed

lemma completedValues_fresh:
  assumes "valid_chunks N lastChunkOf (pre @ [(d, w)])"
  shows "completedValues lastChunkOf pre (unat (sequenceNumber d)) = None"
proof -
  have "one_sequence (lastChunkOf (sequenceNumber d)) (seqEvents (sequenceNumber d) pre @ [(d, w)])"
    using valid_chunks_one_sequence [OF assms, of "sequenceNumber d"] by (simp add: seqEvents_append)
  from one_sequence_length(1) [OF this] show ?thesis by (simp add: completedValues_def Let_def)
qed

lemma emplace_step:
  assumes inv: "queue_inv N lastChunkOf pre q"
    and valid: "valid_chunks N lastChunkOf (pre @ [(d, w)])" and b: "unat (sequenceNumber d) + N < 2 ^ 64"
  shows "\<exists>q'. emplace N headCas q d w = Inr q' \<and> queue_inv N lastChunkOf (pre @ [(d, w)]) q'"
proof -
  let ?E = "completedValues lastChunkOf pre" let ?s = "sequenceNumber d"
  obtain h where rel: "queue_rel N ?E h q" and pe: "prefixEnd ?E (unat (currentSeq q))"
    and cinv: "collector_inv N lastChunkOf pre (chunks q)" using inv by (auto simp: queue_inv_def)
  obtain nodes' where col: "collect N (chunks q) d w = Inr (nodes', expectedAnswer lastChunkOf pre (d, w))"
    and cinv': "collector_inv N lastChunkOf (pre @ [(d, w)]) nodes'"
    using collector_inv_step [OF cinv valid] by blast
  have nz: "?s \<noteq> 0" using valid by (simp add: valid_chunks_def)
  note fresh = completedValues_fresh [OF valid]
  note E' = completedValues_append [OF nz, of lastChunkOf pre w]
  show ?thesis
  proof (cases "expectedAnswer lastChunkOf pre (d, w)")
    case None
    then have "completedValues lastChunkOf (pre @ [(d, w)]) = ?E" using E' fresh by auto
    then show ?thesis
      using None col cinv' rel pe by (auto simp: emplace_def queue_inv_def queue_rel_chunks)
  next
    case (Some a)
    then obtain v where a: "expectedAnswer lastChunkOf pre (d, w) = Some (?s, v)"
      by (auto simp: expectedAnswer_def Let_def split: if_splits)
    have "unat ?s \<notin> {1..unat (currentSeq q)}" using fresh pe by (auto simp: prefixEnd_def)
    then have lt: "currentSeq q < ?s" using nz by (auto simp: word_less_nat_alt unat_gt_0 Suc_le_eq not_le)
    obtain bs' where bs': "emplaceValueInBlock N ?s v (blocks q) = Inr bs'"
      "queue_rel N (?E(unat ?s \<mapsto> v)) h (q\<lparr>blocks := bs'\<rparr>)"
      using queue_rel_insert [OF rel lt b fresh] by blast
    let ?q = "q\<lparr>chunks := nodes', blocks := bs'\<rparr>"
    have "?q = q\<lparr>blocks := bs'\<rparr>\<lparr>chunks := nodes'\<rparr>" by simp
    then have "queue_rel N (?E(unat ?s \<mapsto> v)) h ?q" using bs'(2) queue_rel_chunks by metis
    from shiftCurrentValue_correct [OF this, of headCas] obtain q' h' where
      "shiftCurrentValue N headCas ?q = Some (Inr q')" "queue_rel N (?E(unat ?s \<mapsto> v)) h' q'"
      "prefixEnd (?E(unat ?s \<mapsto> v)) (unat (currentSeq q'))" "chunks q' = nodes'" by auto
    moreover have "completedValues lastChunkOf (pre @ [(d, w)]) = ?E(unat ?s \<mapsto> v)" using E' a by simp
    ultimately show ?thesis
      using col a lt bs'(1) cinv' by (auto simp: emplace_def queue_inv_def Let_def)
  qed
qed

lemma run_emplace_inv:
  assumes "queue_inv N lastChunkOf pre q" "valid_chunks N lastChunkOf (pre @ evs)"
    "list_all (\<lambda>e. unat (sequenceNumber (fst e)) + N < 2 ^ 64) evs"
  shows "\<exists>q'. run_emplace N headCas q evs = Inr q' \<and> queue_inv N lastChunkOf (pre @ evs) q'"
  using assms
proof (induction evs arbitrary: pre q)
  case (Cons e evs)
  obtain d w where e: "e = (d, w)" by (cases e)
  have v: "valid_chunks N lastChunkOf ((pre @ [(d, w)]) @ evs)" using Cons.prems(2) e by simp
  obtain q1 where q1: "emplace N headCas q d w = Inr q1" "queue_inv N lastChunkOf (pre @ [(d, w)]) q1"
    using emplace_step [OF Cons.prems(1) valid_chunks_prefix [OF v]] Cons.prems(3) e by auto
  with Cons.IH [OF q1(2) v] Cons.prems(3) show ?case by (simp add: e)
qed simp

lemma queue_inv_empty: "0 < N \<Longrightarrow> N < 2 ^ 64 \<Longrightarrow> queue_inv N lastChunkOf [] (emptyQueue N)"
proof -
  have "completedValues lastChunkOf [] = (\<lambda>_. None)"
    by (simp add: fun_eq_iff completedValues_def seqEvents_def)
  then show "0 < N \<Longrightarrow> N < 2 ^ 64 \<Longrightarrow> queue_inv N lastChunkOf [] (emptyQueue N)"
    using queue_rel_empty [of N] collector_inv_init [of N lastChunkOf]
    by (auto simp: queue_inv_def emptyQueue_def prefixEnd_def)
qed

lemma shiftOnce_lag:
  assumes rel: "queue_rel N E h q" and lag: "h < unat (currentSeq q) div N"
    and once: "shiftOnce N headCas q = Inr (Some q')"
  shows "blocks q' = blocks q"
proof -
  obtain b rest k where "getTargetBlock (currentSeq q div of_nat N) (blocks q) = Inr (b # rest)"
    "h + k = unat (currentSeq q) div N" "length (blocks q) = k + 1 + length rest"
    using queue_rel_current_block [OF rel] by metis
  then show ?thesis
    using once lag by (auto simp: shiftOnce_def Let_def split: if_splits list.splits)
qed

lemma blocks_wf_first: "blocks_wf N h bs \<Longrightarrow> blocks_wf N h' bs \<Longrightarrow> bs \<noteq> [] \<Longrightarrow> h = h'"
  by (cases bs) auto

section \<open>Properties\<close>

text \<open>
  C6. After any valid stream of chunks, in any order and interleaving, and whether or not the
  exchanges of \<open>head\<close> succeed, every \<open>emplace\<close> has returned without a failed assertion, the current
  sequence number is the end of the longest gap-free prefix of completed sequences, and
  \<open>getCurrentValue\<close> is the maximum watermark over the chunks of exactly that sequence (0 while sequence 1
  is incomplete).
\<close>

theorem run_emplace_correct:
  assumes "0 < N" "N < 2 ^ 64" "valid_chunks N lastChunkOf evs"
    "list_all (\<lambda>e. unat (sequenceNumber (fst e)) + N < 2 ^ 64) evs"
  shows "\<exists>q. run_emplace N headCas (emptyQueue N) evs = Inr q
           \<and> prefixEnd (completedValues lastChunkOf evs) (unat (currentSeq q))
           \<and> getCurrentValue N q = Inr (if currentSeq q = 0 then 0
                                      else the (completedValues lastChunkOf evs (unat (currentSeq q))))"
  using run_emplace_inv [OF queue_inv_empty [OF assms(1,2)], of lastChunkOf evs] assms(3,4) getCurrentValue_rel
  by (fastforce simp: queue_inv_def)

theorem run_emplace_correct_witness:
  "\<exists>q. run_emplace 2 (\<lambda>_. True) (emptyQueue 2)
         [(SequenceData 2 1 True, 20), (SequenceData 4 1 True, 40), (SequenceData 1 1 True, 10)] = Inr q
     \<and> currentSeq q = 2 \<and> getCurrentValue 2 q = Inr 20"
proof -
  let ?e = "[(SequenceData 2 1 True, 20), (SequenceData 4 1 True, 40), (SequenceData 1 1 True, 10)]"
  let ?E = "completedValues (\<lambda>_. 1) ?e"
  have "valid_chunks 2 (\<lambda>_. 1) ?e" by (simp add: valid_chunks_def chunk_of_def)
  moreover have "list_all (\<lambda>e. unat (sequenceNumber (fst e)) + 2 < 2 ^ 64) ?e" by simp
  ultimately obtain q where q: "run_emplace 2 (\<lambda>_. True) (emptyQueue 2) ?e = Inr q"
    "prefixEnd ?E (unat (currentSeq q))"
    "getCurrentValue 2 q = Inr (if currentSeq q = 0 then 0 else the (?E (unat (currentSeq q))))"
    using run_emplace_correct [of 2 "\<lambda>_. 1" ?e "\<lambda>_. True"] by auto
  have E: "?E 1 = Some 10" "?E 2 = Some 20" "?E 3 = None"
    by (simp_all add: completedValues_def seqEvents_def)
  have "{1..2 :: nat} = {1, 2}" by auto
  then have "prefixEnd ?E 2" using E by (auto simp: prefixEnd_def)
  then have "unat (currentSeq q) = 2" by (rule prefixEnd_unique [OF q(2)])
  then have c: "currentSeq q = 2" by (simp add: word_unat_eq_iff)
  then show ?thesis using q E(2) by simp
qed

lemma documented_example:
  "andThen (run_emplace 2 (\<lambda>_. True) (emptyQueue 2)
         [(SequenceData 1 1 True, 10), (SequenceData 2 1 True, 20), (SequenceData 4 1 True, 40),
          (SequenceData 6 1 True, 60), (SequenceData 3 1 True, 30)])
     (getCurrentValue 2) = Inr 40"
  by code_simp

text \<open>
  C36. Once \<open>head\<close> lags behind the block of the current sequence number, shifting never moves it again:
  the exchange compares \<open>head\<close> with the block of the current sequence number, which it no longer is.
  The blocks before the current one are then kept for the lifetime of the queue.
\<close>

theorem head_lag_permanent:
  assumes "queue_rel N E h q" "h < unat (currentSeq q) div N"
  shows "\<exists>q'. shiftCurrentValue N headCas q = Some (Inr q') \<and> blocks q' = blocks q
            \<and> h < unat (currentSeq q') div N"
  using assms
proof (induction "card {n \<in> dom E. unat (currentSeq q) < n}" arbitrary: q rule: less_induct)
  case less
  note rel = less.prems(1)
  show ?case
  proof (cases "unat (currentSeq q) + 1 \<in> dom E")
    case True
    obtain q1 h1 where q1: "shiftOnce N headCas q = Inr (Some q1)" "queue_rel N E h1 q1"
      "currentSeq q1 = currentSeq q + 1"
      using shiftOnce_advance [OF rel True] by blast
    have same: "blocks q1 = blocks q" using shiftOnce_lag [OF less.prems q1(1)] .
    moreover have "blocks q \<noteq> []" using rel by (auto simp: queue_rel_def)
    ultimately have h1: "h1 = h"
      using q1(2) rel by (auto simp: queue_rel_def intro: blocks_wf_first)
    have c: "unat (currentSeq q1) = unat (currentSeq q) + 1"
      using queue_rel_bound(2) [OF rel] q1(3) by simp
    have "h < unat (currentSeq q1) div N"
      using less.prems(2) div_le_mono [of "unat (currentSeq q)" "unat (currentSeq q1)" N] c by linarith
    moreover have "card {n \<in> dom E. unat (currentSeq q1) < n} < card {n \<in> dom E. unat (currentSeq q) < n}"
      using True rel c by (intro psubset_card_mono) (auto simp: psubset_eq queue_rel_def)
    ultimately have "\<exists>q'. shiftCurrentValue N headCas q1 = Some (Inr q') \<and> blocks q' = blocks q1
            \<and> h < unat (currentSeq q') div N"
      using less.hyps q1(2) h1 by blast
    then show ?thesis
      using q1(1) same by (subst shiftCurrentValue.simps) simp
  next
    case False
    then show ?thesis
      using less.prems shiftOnce_stop [OF rel False] by (subst shiftCurrentValue.simps) simp
  qed
qed

theorem head_lag_permanent_witness:
  "\<exists>q'. shiftCurrentValue 1 (\<lambda>_. True)
           \<lparr>blocks = [newBlock 1 0, \<lparr>blockIndex = 1, log = [\<lparr>seq = 1, slotValue = 10\<rparr>]\<rparr>,
                      \<lparr>blockIndex = 2, log = [\<lparr>seq = 2, slotValue = 20\<rparr>]\<rparr>],
             currentSeq = 1, chunks = []\<rparr> = Some (Inr q') \<and> length (blocks q') = 3"
proof -
  let ?q = "\<lparr>blocks = [newBlock 1 0, \<lparr>blockIndex = 1, log = [\<lparr>seq = 1, slotValue = 10\<rparr>]\<rparr>,
                      \<lparr>blockIndex = 2, log = [\<lparr>seq = 2, slotValue = 20\<rparr>]\<rparr>],
             currentSeq = 1, chunks = []\<rparr>"
  have "queue_rel 1 [1 \<mapsto> 10, 2 \<mapsto> 20] 0 ?q"
    by (auto simp: queue_rel_def newBlock_def containerOf_def emptyContainer_def le_Suc_eq)
  from head_lag_permanent [OF this, of "\<lambda>_. True"] show ?thesis by auto
qed

end
