(* ===== verification/Watermark.thy ===== *)
theory Watermark
  imports SeqQueue
begin

text \<open>
  Watermarks (\<open>src/nes-physical-operators/src/Watermark/\<close>): the multi-origin watermark processor, which
  keeps one sequence queue per origin and reports the minimum of their current values; the event-time
  and ingestion-time watermark assigners and time functions; \<open>Timestamp\<close> and \<open>TimeUnit\<close>.

  The processor's code is parametric in the queue it calls. The locale \<open>value_queue\<close> is the contract
  it relies on; its lemmas give the processor's behaviour for any provider, and the interpretation
  \<open>seq_queue\<close> discharges the contract for the queue of theory SeqQueue with blocks of 8192 slots.
\<close>

section \<open>Timestamps and time units\<close>

definition Timestamp_INITIAL_VALUE :: u64 where "Timestamp_INITIAL_VALUE = 0"

definition Timestamp_plus :: "u64 \<Rightarrow> u64 \<Rightarrow> u64" where "Timestamp_plus value offset = value + offset"
definition Timestamp_minus :: "u64 \<Rightarrow> u64 \<Rightarrow> u64" where "Timestamp_minus value offset = value - offset"

text \<open>Compound assignment as the code has it: the object afterwards and the returned value.\<close>

definition Timestamp_plus_assign :: "u64 \<Rightarrow> u64 \<Rightarrow> u64 \<times> u64" where
  "Timestamp_plus_assign value offset = (value, value + offset)"

definition Timestamp_minus_assign :: "u64 \<Rightarrow> u64 \<Rightarrow> u64 \<times> u64" where
  "Timestamp_minus_assign value offset = (value, value - offset)"

record TimeUnit = multiplier :: u64

definition Milliseconds :: TimeUnit where "Milliseconds = \<lparr>multiplier = 1\<rparr>"
definition Seconds :: TimeUnit where "Seconds = \<lparr>multiplier = 1000\<rparr>"
definition Minutes :: TimeUnit where "Minutes = \<lparr>multiplier = 1000 * 60\<rparr>"
definition Hours :: TimeUnit where "Hours = \<lparr>multiplier = 1000 * 60 * 60\<rparr>"
definition Days :: TimeUnit where "Days = \<lparr>multiplier = 1000 * 60 * 60 * 24\<rparr>"

definition getMillisecondsConversionMultiplier :: "TimeUnit \<Rightarrow> u64" where
  "getMillisecondsConversionMultiplier u = multiplier u"

section \<open>Time functions and watermark assigners\<close>

record ExecutionContext =
  currentTs :: u64
  watermarkTs :: u64

text \<open>\<open>tsOf\<close> is the evaluated timestamp function of the plan, cast to an unsigned 64-bit integer.\<close>

definition eventTime_getTs ::
  "TimeUnit \<Rightarrow> ('r \<Rightarrow> u64) \<Rightarrow> ExecutionContext \<Rightarrow> 'r \<Rightarrow> ExecutionContext \<times> u64" where
  "eventTime_getTs unit tsOf ctx record =
     (let tsInMs = tsOf record * getMillisecondsConversionMultiplier unit
      in (ctx\<lparr>currentTs := tsInMs\<rparr>, tsInMs))"

definition ingestionTime_open :: "ExecutionContext \<Rightarrow> u64 \<Rightarrow> ExecutionContext" where
  "ingestionTime_open ctx creatingTs = ctx\<lparr>currentTs := creatingTs\<rparr>"

definition ingestionTime_getTs :: "ExecutionContext \<Rightarrow> u64" where
  "ingestionTime_getTs ctx = currentTs ctx"

definition eventTime_execute ::
  "TimeUnit \<Rightarrow> ('r \<Rightarrow> u64) \<Rightarrow> ExecutionContext \<times> u64 \<Rightarrow> 'r \<Rightarrow> ExecutionContext \<times> u64" where
  "eventTime_execute unit tsOf st record =
     (let (ctx, currentWatermark) = st; (ctx', tsField) = eventTime_getTs unit tsOf ctx record
      in (ctx', if tsField > currentWatermark then tsField else currentWatermark))"

text \<open>\<open>open\<close>, \<open>execute\<close> for every record of the buffer, \<open>close\<close>.\<close>

definition eventTimeWatermarkAssigner ::
  "TimeUnit \<Rightarrow> ('r \<Rightarrow> u64) \<Rightarrow> ExecutionContext \<Rightarrow> 'r list \<Rightarrow> ExecutionContext" where
  "eventTimeWatermarkAssigner unit tsOf ctx records =
     (let (ctx', currentWatermark) =
            foldl (eventTime_execute unit tsOf) (ctx, Timestamp_INITIAL_VALUE) records
      in ctx'\<lparr>watermarkTs := currentWatermark\<rparr>)"

definition ingestionTimeWatermarkAssigner_open :: "ExecutionContext \<Rightarrow> u64 \<Rightarrow> ExecutionContext" where
  "ingestionTimeWatermarkAssigner_open ctx creatingTs =
     (let ctx1 = ingestionTime_open ctx creatingTs; tsField = ingestionTime_getTs ctx1
      in if tsField > watermarkTs ctx1 then ctx1\<lparr>watermarkTs := tsField\<rparr> else ctx1)"

section \<open>The multi-origin watermark processor\<close>

record 'q MultiOriginWatermarkProcessor =
  origins :: "u64 list"
  watermarkProcessors :: "'q list"

definition createProcessor :: "'q \<Rightarrow> u64 list \<Rightarrow> 'q MultiOriginWatermarkProcessor" where
  "createProcessor emptyQ os = \<lparr>origins = os, watermarkProcessors = map (\<lambda>_. emptyQ) os\<rparr>"

fun currentWatermarkLoop :: "('q \<Rightarrow> u64 result) \<Rightarrow> u64 \<Rightarrow> 'q list \<Rightarrow> u64 result" where
  "currentWatermarkLoop valueOp minimalWatermark [] = Inr minimalWatermark"
| "currentWatermarkLoop valueOp minimalWatermark (wt # wts) =
     andThen (valueOp wt) (\<lambda>v. currentWatermarkLoop valueOp (min minimalWatermark v) wts)"

definition getCurrentWatermark ::
  "('q \<Rightarrow> u64 result) \<Rightarrow> 'q MultiOriginWatermarkProcessor \<Rightarrow> u64 result" where
  "getCurrentWatermark valueOp p = currentWatermarkLoop valueOp (- 1) (watermarkProcessors p)"

fun updateLoop ::
  "('q \<Rightarrow> SequenceData \<Rightarrow> u64 \<Rightarrow> 'q result) \<Rightarrow> u64 \<Rightarrow> SequenceData \<Rightarrow> u64 \<Rightarrow> u64 list \<Rightarrow> 'q list
     \<Rightarrow> ('q list \<times> bool) result" where
  "updateLoop emplaceOp ts d origin (oid # os) (q # qs) =
     (if oid = origin then
        andThen (emplaceOp q d ts) (\<lambda>q'.
        andThen (updateLoop emplaceOp ts d origin os qs) (\<lambda>(qs', _). Inr (q' # qs', True)))
      else
        andThen (updateLoop emplaceOp ts d origin os qs) (\<lambda>(qs', found). Inr (q # qs', found)))"
| "updateLoop emplaceOp ts d origin _ qs = Inr (qs, False)"

definition updateWatermark ::
  "('q \<Rightarrow> SequenceData \<Rightarrow> u64 \<Rightarrow> 'q result) \<Rightarrow> ('q \<Rightarrow> u64 result)
     \<Rightarrow> 'q MultiOriginWatermarkProcessor \<Rightarrow> u64 \<Rightarrow> SequenceData \<Rightarrow> u64
     \<Rightarrow> ('q MultiOriginWatermarkProcessor \<times> u64) result" where
  "updateWatermark emplaceOp valueOp p ts d origin =
     andThen (updateLoop emplaceOp ts d origin (origins p) (watermarkProcessors p)) (\<lambda>(qs, found).
     andThen (INVARIANT found) (\<lambda>_.
       let p' = p\<lparr>watermarkProcessors := qs\<rparr>
       in andThen (getCurrentWatermark valueOp p') (\<lambda>w. Inr (p', w))))"

type_synonym originEvent = "u64 \<times> chunkEvent"

fun run_updates ::
  "('q \<Rightarrow> SequenceData \<Rightarrow> u64 \<Rightarrow> 'q result) \<Rightarrow> ('q \<Rightarrow> u64 result)
     \<Rightarrow> 'q MultiOriginWatermarkProcessor \<Rightarrow> originEvent list
     \<Rightarrow> ('q MultiOriginWatermarkProcessor \<times> u64 list) result" where
  "run_updates emplaceOp valueOp p [] = Inr (p, [])"
| "run_updates emplaceOp valueOp p ((origin, d, ts) # evs) =
     andThen (updateWatermark emplaceOp valueOp p ts d origin) (\<lambda>(p', w).
     andThen (run_updates emplaceOp valueOp p' evs) (\<lambda>(p'', ws). Inr (p'', w # ws)))"

definition BlockSize :: nat where "BlockSize = 8192"

definition originEvents :: "u64 \<Rightarrow> originEvent list \<Rightarrow> chunkEvent list" where
  "originEvents oid evs = map snd (filter (\<lambda>e. fst e = oid) evs)"

lemma originEvents_append: "originEvents oid (a @ b) = originEvents oid a @ originEvents oid b"
  by (simp add: originEvents_def)

section \<open>The contract of a queue of values\<close>

locale value_queue =
  fixes emptyQ :: 'q
    and emplaceOp :: "'q \<Rightarrow> SequenceData \<Rightarrow> u64 \<Rightarrow> 'q result"
    and valueOp :: "'q \<Rightarrow> u64 result"
    and admissible :: "'l \<Rightarrow> chunkEvent list \<Rightarrow> bool"
    and holds :: "'l \<Rightarrow> chunkEvent list \<Rightarrow> 'q \<Rightarrow> bool"
    and valueAfter :: "'l \<Rightarrow> chunkEvent list \<Rightarrow> u64"
  assumes holds_empty: "holds l [] emptyQ"
    and emplace_holds: "holds l evs q \<Longrightarrow> admissible l (evs @ [(d, w)]) \<Longrightarrow>
          \<exists>q'. emplaceOp q d w = Inr q' \<and> holds l (evs @ [(d, w)]) q'"
    and value_holds: "holds l evs q \<Longrightarrow> valueOp q = Inr (valueAfter l evs)"
    and admissible_prefix: "admissible l (evs @ evs') \<Longrightarrow> admissible l evs"
begin

definition processor_inv ::
  "(u64 \<Rightarrow> 'l) \<Rightarrow> originEvent list \<Rightarrow> 'q MultiOriginWatermarkProcessor \<Rightarrow> bool" where
  "processor_inv l pre p \<longleftrightarrow>
     list_all2 (\<lambda>oid q. holds (l oid) (originEvents oid pre) q) (origins p) (watermarkProcessors p)"

lemma processor_inv_create: "processor_inv l [] (createProcessor emptyQ os)"
  by (simp add: processor_inv_def createProcessor_def originEvents_def list_all2_conv_all_nth holds_empty)

lemma currentWatermarkLoop_min:
  "list_all2 (\<lambda>oid q. holds (l oid) (originEvents oid pre) q) os qs \<Longrightarrow>
   currentWatermarkLoop valueOp m qs = Inr (fold min (map (\<lambda>oid. valueAfter (l oid) (originEvents oid pre)) os) m)"
  by (induction os qs arbitrary: m rule: list_all2_induct) (auto dest: value_holds simp: min.commute)

lemma updateLoop_holds:
  assumes "list_all2 (\<lambda>oid q. holds (l oid) (originEvents oid pre) q) os qs"
    and "\<forall>oid \<in> set os. admissible (l oid) (originEvents oid (pre @ [(origin, d, ts)]))"
  shows "\<exists>qs'. updateLoop emplaceOp ts d origin os qs = Inr (qs', origin \<in> set os)
     \<and> list_all2 (\<lambda>oid q. holds (l oid) (originEvents oid (pre @ [(origin, d, ts)])) q) os qs'"
  using assms
proof (induction os qs rule: list_all2_induct)
  case (Cons oid os q qs)
  then obtain qs' where qs': "updateLoop emplaceOp ts d origin os qs = Inr (qs', origin \<in> set os)"
    "list_all2 (\<lambda>oid q. holds (l oid) (originEvents oid (pre @ [(origin, d, ts)])) q) os qs'"
    by auto
  show ?case
  proof (cases "oid = origin")
    case True
    then have "originEvents oid (pre @ [(origin, d, ts)]) = originEvents oid pre @ [(d, ts)]"
      by (simp add: originEvents_def)
    moreover from this obtain q' where "emplaceOp q d ts = Inr q'" "holds (l oid) (originEvents oid pre @ [(d, ts)]) q'"
      using emplace_holds [OF Cons(1), of d ts] Cons.prems by auto
    ultimately show ?thesis using True qs' by auto
  next
    case False
    then have "originEvents oid (pre @ [(origin, d, ts)]) = originEvents oid pre"
      by (simp add: originEvents_def)
    then show ?thesis using False qs' Cons(1) by auto
  qed
qed simp

definition minOver :: "(u64 \<Rightarrow> 'l) \<Rightarrow> u64 list \<Rightarrow> originEvent list \<Rightarrow> u64" where
  "minOver l os evs = fold min (map (\<lambda>oid. valueAfter (l oid) (originEvents oid evs)) os) (- 1)"

lemma updateWatermark_min:
  assumes "processor_inv l pre p" "origin \<in> set (origins p)"
    and "\<forall>oid \<in> set (origins p). admissible (l oid) (originEvents oid (pre @ [(origin, d, ts)]))"
  shows "\<exists>p'. updateWatermark emplaceOp valueOp p ts d origin = Inr (p', minOver l (origins p) (pre @ [(origin, d, ts)]))
     \<and> processor_inv l (pre @ [(origin, d, ts)]) p' \<and> origins p' = origins p"
proof -
  obtain qs where qs: "updateLoop emplaceOp ts d origin (origins p) (watermarkProcessors p) = Inr (qs, True)"
    "list_all2 (\<lambda>oid q. holds (l oid) (originEvents oid (pre @ [(origin, d, ts)])) q) (origins p) qs"
    using updateLoop_holds [of l pre "origins p" "watermarkProcessors p" origin d ts] assms
    by (auto simp: processor_inv_def)
  then show ?thesis
    using currentWatermarkLoop_min [OF qs(2)]
    by (simp add: updateWatermark_def getCurrentWatermark_def processor_inv_def minOver_def)
qed

lemma admissible_first:
  assumes "\<forall>oid \<in> set os. admissible (l oid) (originEvents oid (pre @ e # evs))"
  shows "\<forall>oid \<in> set os. admissible (l oid) (originEvents oid (pre @ [e]))"
proof
  fix oid assume "oid \<in> set os"
  then have "admissible (l oid) (originEvents oid (pre @ [e]) @ originEvents oid evs)"
    using bspec [OF assms] originEvents_append [of oid "pre @ [e]" evs] by fastforce
  then show "admissible (l oid) (originEvents oid (pre @ [e]))" by (rule admissible_prefix)
qed

lemma run_updates_min:
  assumes "processor_inv l pre p"
    and "\<forall>oid \<in> set (origins p). admissible (l oid) (originEvents oid (pre @ evs))"
    and "\<forall>e \<in> set evs. fst e \<in> set (origins p)"
  shows "\<exists>p' ws. run_updates emplaceOp valueOp p evs = Inr (p', ws) \<and> length ws = length evs
     \<and> (\<forall>k < length evs. ws ! k = minOver l (origins p) (pre @ take (Suc k) evs))"
  using assms
proof (induction evs arbitrary: pre p)
  case (Cons e evs)
  obtain origin d ts where e: "e = (origin, d, ts)" by (cases e) auto
  obtain p1 where p1: "updateWatermark emplaceOp valueOp p ts d origin = Inr (p1, minOver l (origins p) (pre @ [e]))"
    "processor_inv l (pre @ [e]) p1" "origins p1 = origins p"
    using updateWatermark_min [OF Cons.prems(1), of origin d ts] admissible_first [OF Cons.prems(2)] Cons.prems(3)
    by (auto simp: e)
  from Cons.IH [OF p1(2)] Cons.prems(2,3) p1(3) obtain p' ws where
    "run_updates emplaceOp valueOp p1 evs = Inr (p', ws)" "length ws = length evs"
    "\<forall>k < length evs. ws ! k = minOver l (origins p) (pre @ e # take (Suc k) evs)"
    by auto
  then show ?case using p1(1) by (auto simp: e nth_Cons split: nat.split)
qed simp

end

section \<open>The sequence queue provides the contract\<close>

definition admissibleChunks :: "(u64 \<Rightarrow> u64) \<Rightarrow> chunkEvent list \<Rightarrow> bool" where
  "admissibleChunks lastChunkOf evs \<longleftrightarrow> valid_chunks BlockSize lastChunkOf evs
     \<and> list_all (\<lambda>e. unat (sequenceNumber (fst e)) + BlockSize < 2 ^ 64) evs"

text \<open>The last sequence of the gap-free prefix of completed sequences, and its value.\<close>

definition currentEnd :: "(u64 \<Rightarrow> u64) \<Rightarrow> chunkEvent list \<Rightarrow> nat" where
  "currentEnd lastChunkOf evs =
     length (takeWhile (\<lambda>n. completedValues lastChunkOf evs n \<noteq> None) [1..<length evs + 1])"

definition currentValueOf :: "(u64 \<Rightarrow> u64) \<Rightarrow> chunkEvent list \<Rightarrow> u64" where
  "currentValueOf lastChunkOf evs =
     (let m = currentEnd lastChunkOf evs
      in if m = 0 then 0 else the (completedValues lastChunkOf evs m))"

lemma completedValues_dom_card: "card (dom (completedValues lastChunkOf evs)) \<le> length evs"
proof -
  have "dom (completedValues lastChunkOf evs) \<subseteq> (\<lambda>e. unat (sequenceNumber (fst e))) ` set evs"
  proof
    fix n assume "n \<in> dom (completedValues lastChunkOf evs)"
    then have "n < 2 ^ 64" "seqEvents (of_nat n) evs \<noteq> []"
      by (auto simp: completedValues_def Let_def split: if_splits)
    then obtain e where "e \<in> set evs" "sequenceNumber (fst e) = of_nat n"
      by (auto simp: seqEvents_def filter_empty_conv)
    with \<open>n < 2 ^ 64\<close> unat_of_nat_u64 [of n] show "n \<in> (\<lambda>e. unat (sequenceNumber (fst e))) ` set evs"
      by (metis image_eqI)
  qed
  then have "card (dom (completedValues lastChunkOf evs)) \<le> card ((\<lambda>e. unat (sequenceNumber (fst e))) ` set evs)"
    by (intro card_mono) auto
  also have "\<dots> \<le> card (set evs)" by (rule card_image_le) simp
  also have "\<dots> \<le> length evs" by (rule card_length)
  finally show ?thesis .
qed

lemma finite_dom_completedValues: "finite (dom (completedValues lastChunkOf evs))"
  by (rule finite_subset [of _ "{..<2 ^ 64}"]) (auto simp: completedValues_def Let_def split: if_splits)

lemma takeWhile_upt_prefix:
  assumes "m = length (takeWhile P [1..<k + 1])"
  shows "m \<le> k" "\<forall>n \<in> {1..m}. P n" "m < k \<Longrightarrow> \<not> P (m + 1)"
proof -
  show le: "m \<le> k" using assms length_takeWhile_le [of P "[1..<k + 1]"] by (simp del: upt_Suc)
  show "\<forall>n \<in> {1..m}. P n"
  proof
    fix n assume n: "n \<in> {1..m}"
    then have "takeWhile P [1..<k + 1] ! (n - 1) = [1..<k + 1] ! (n - 1)" "n - 1 < m"
      using assms by (auto simp: takeWhile_nth simp del: upt_Suc)
    moreover have "[1..<k + 1] ! (n - 1) = n" using n le by (subst nth_upt) auto
    ultimately show "P n" using assms nth_mem set_takeWhileD by (metis (no_types, lifting))
  qed
  show "\<not> P (m + 1)" if "m < k"
    using nth_length_takeWhile [of P "[1..<k + 1]"] that assms by (simp add: nth_upt del: upt_Suc)
qed

lemma prefixEnd_currentEnd: "prefixEnd (completedValues lastChunkOf evs) (currentEnd lastChunkOf evs)"
proof -
  let ?E = "completedValues lastChunkOf evs" let ?m = "currentEnd lastChunkOf evs"
  note tw = takeWhile_upt_prefix [OF currentEnd_def [of lastChunkOf evs]]
  have sub: "{1..?m} \<subseteq> dom ?E" using tw(2) by auto
  have "?m + 1 \<notin> dom ?E"
  proof
    assume "?m + 1 \<in> dom ?E"
    then have full: "?m = length evs" using tw(1,3) by (cases "?m < length evs") auto
    have "{1..?m + 1} \<subseteq> dom ?E" using sub \<open>?m + 1 \<in> dom ?E\<close> by (auto simp: atLeastAtMostSuc_conv)
    then have "card {1..?m + 1} \<le> card (dom ?E)" by (intro card_mono finite_dom_completedValues)
    then show False using completedValues_dom_card [of lastChunkOf evs] full by simp
  qed
  with sub show ?thesis by (simp add: prefixEnd_def)
qed

interpretation seq_queue: value_queue "emptyQueue BlockSize" "emplace BlockSize headCas" "getCurrentValue BlockSize"
  admissibleChunks "queue_inv BlockSize" currentValueOf for headCas
proof
  fix l :: "u64 \<Rightarrow> u64" and evs evs' q d w
  show "queue_inv BlockSize l [] (emptyQueue BlockSize)"
    by (rule queue_inv_empty) (simp_all add: BlockSize_def)
  show "\<exists>q'. emplace BlockSize headCas q d w = Inr q' \<and> queue_inv BlockSize l (evs @ [(d, w)]) q'"
    if "queue_inv BlockSize l evs q" "admissibleChunks l (evs @ [(d, w)])"
    using emplace_step [OF that(1)] that(2) by (auto simp: admissibleChunks_def)
  show "getCurrentValue BlockSize q = Inr (currentValueOf l evs)" if inv: "queue_inv BlockSize l evs q"
  proof -
    obtain h where rel: "queue_rel BlockSize (completedValues l evs) h q"
      and pe: "prefixEnd (completedValues l evs) (unat (currentSeq q))"
      using inv by (auto simp: queue_inv_def)
    have "unat (currentSeq q) = currentEnd l evs" by (rule prefixEnd_unique [OF pe prefixEnd_currentEnd])
    then show ?thesis
      using getCurrentValue_rel [OF rel] by (auto simp: currentValueOf_def Let_def unat_eq_zero)
  qed
  show "admissibleChunks l evs" if "admissibleChunks l (evs @ evs')"
    using that by (auto simp: admissibleChunks_def intro: valid_chunks_prefix)
qed

section \<open>Monotonicity\<close>

definition values_ordered :: "(u64 \<Rightarrow> u64) \<Rightarrow> chunkEvent list \<Rightarrow> bool" where
  "values_ordered lastChunkOf evs \<longleftrightarrow>
     (\<forall>n m v w. n \<le> m \<longrightarrow> completedValues lastChunkOf evs n = Some v \<longrightarrow>
        completedValues lastChunkOf evs m = Some w \<longrightarrow> v \<le> w)"

lemma completedValues_extend:
  assumes "valid_chunks N lastChunkOf (evs @ evs')" "completedValues lastChunkOf evs n = Some v"
  shows "completedValues lastChunkOf (evs @ evs') n = Some v"
proof -
  let ?q = "of_nat n :: u64"
  have app: "seqEvents ?q (evs @ evs') = seqEvents ?q evs @ seqEvents ?q evs'" by (simp add: seqEvents_def)
  have "length (seqEvents ?q evs) = unat (lastChunkOf ?q)"
    using assms(2) by (auto simp: completedValues_def Let_def split: if_splits)
  then have "seqEvents ?q evs' = []"
    using one_sequence_length(1) [OF valid_chunks_one_sequence [OF assms(1)], of ?q] by (simp add: app)
  then show ?thesis using assms(2) by (simp add: completedValues_def app)
qed

lemma currentEnd_extend:
  assumes "valid_chunks N lastChunkOf (evs @ evs')"
  shows "currentEnd lastChunkOf evs \<le> currentEnd lastChunkOf (evs @ evs')"
proof (rule ccontr)
  let ?m = "currentEnd lastChunkOf evs" let ?m' = "currentEnd lastChunkOf (evs @ evs')"
  assume "\<not> ?m \<le> ?m'"
  then have "?m' + 1 \<in> {1..?m}" by simp
  then have "?m' + 1 \<in> dom (completedValues lastChunkOf evs)"
    using prefixEnd_currentEnd [of lastChunkOf evs] unfolding prefixEnd_def by blast
  then have "?m' + 1 \<in> dom (completedValues lastChunkOf (evs @ evs'))"
    using completedValues_extend [OF assms] by blast
  then show False using prefixEnd_currentEnd [of lastChunkOf "evs @ evs'"] unfolding prefixEnd_def by blast
qed

lemma currentValueOf_Some:
  "currentEnd lastChunkOf evs \<noteq> 0 \<Longrightarrow>
   completedValues lastChunkOf evs (currentEnd lastChunkOf evs) = Some (currentValueOf lastChunkOf evs)"
  using prefixEnd_currentEnd [of lastChunkOf evs]
  by (auto simp: prefixEnd_def currentValueOf_def Let_def subset_iff Suc_le_eq dom_def)

lemma currentValueOf_mono:
  assumes "valid_chunks N lastChunkOf (evs @ evs')" "values_ordered lastChunkOf (evs @ evs')"
  shows "currentValueOf lastChunkOf evs \<le> currentValueOf lastChunkOf (evs @ evs')"
proof (cases "currentEnd lastChunkOf evs = 0")
  case False
  note le = currentEnd_extend [OF assms(1)]
  show ?thesis
    using assms(2) le completedValues_extend [OF assms(1) currentValueOf_Some [OF False]]
      currentValueOf_Some [of lastChunkOf "evs @ evs'"] False
    unfolding values_ordered_def by auto
qed (simp add: currentValueOf_def)

lemma values_ordered_prefix:
  "valid_chunks N lastChunkOf (evs @ evs') \<Longrightarrow> values_ordered lastChunkOf (evs @ evs') \<Longrightarrow> values_ordered lastChunkOf evs"
  unfolding values_ordered_def using completedValues_extend by blast

section \<open>Properties\<close>

definition multiOriginWatermark :: "(u64 \<Rightarrow> u64 \<Rightarrow> u64) \<Rightarrow> u64 list \<Rightarrow> originEvent list \<Rightarrow> u64" where
  "multiOriginWatermark lastChunkOf os evs =
     Min (insert (- 1) (set (map (\<lambda>oid. currentValueOf (lastChunkOf oid) (originEvents oid evs)) os)))"

lemma fold_min_eq_Min: "fold min xs (a :: u64) = Min (insert a (set xs))"
  using Min.set_eq_fold [of a xs] by simp

lemma minOver_multiOrigin: "seq_queue.minOver lastChunkOf os evs = multiOriginWatermark lastChunkOf os evs"
  by (simp add: multiOriginWatermark_def seq_queue.minOver_def fold_min_eq_Min)

lemma processor_watermarks:
  assumes "\<forall>oid \<in> set os. admissibleChunks (lastChunkOf oid) (originEvents oid evs)"
    and "\<forall>e \<in> set evs. fst e \<in> set os"
  shows "\<exists>p' ws. run_updates (emplace BlockSize headCas) (getCurrentValue BlockSize)
             (createProcessor (emptyQueue BlockSize) os) evs = Inr (p', ws)
       \<and> length ws = length evs
       \<and> (\<forall>k < length evs. ws ! k = multiOriginWatermark lastChunkOf os (take (Suc k) evs))"
  using seq_queue.run_updates_min [OF seq_queue.processor_inv_create, of os lastChunkOf evs] assms
  by (simp add: minOver_multiOrigin createProcessor_def)

text \<open>
  C4. For any interleaving of the chunk streams of the origins, each in any order, every update
  succeeds and returns the minimum over the origins of the value of their last sequence in the gap-free
  prefix of completed sequences: the watermark never passes data an origin has not completely delivered.
\<close>

theorem run_updates_watermark:
  assumes "\<forall>oid \<in> set os. admissibleChunks (lastChunkOf oid) (originEvents oid evs)"
    and "\<forall>e \<in> set evs. fst e \<in> set os"
  shows "\<exists>p' ws. run_updates (emplace BlockSize headCas) (getCurrentValue BlockSize)
             (createProcessor (emptyQueue BlockSize) os) evs = Inr (p', ws)
       \<and> length ws = length evs
       \<and> (\<forall>k < length evs. ws ! k = multiOriginWatermark lastChunkOf os (take (Suc k) evs))"
  using assms by (rule processor_watermarks)

theorem run_updates_watermark_witness:
  "\<exists>p' ws. run_updates (emplace BlockSize (\<lambda>_. True)) (getCurrentValue BlockSize)
             (createProcessor (emptyQueue BlockSize) [4, 9])
             [(4, SequenceData 1 1 True, 30), (9, SequenceData 2 1 True, 99), (9, SequenceData 1 1 True, 20)] = Inr (p', ws)
       \<and> ws ! 1 = 0 \<and> ws ! 2 = 30"
proof -
  let ?e = "[(4, SequenceData 1 1 True, 30), (9, SequenceData 2 1 True, 99), (9, SequenceData 1 1 True, 20)] :: originEvent list"
  have "\<forall>oid \<in> set [4, 9]. admissibleChunks (\<lambda>_. 1) (originEvents oid ?e)"
    by (simp add: admissibleChunks_def valid_chunks_def chunk_of_def originEvents_def BlockSize_def)
  moreover have "multiOriginWatermark (\<lambda>_ _. 1) [4, 9] (take 2 ?e) = 0"
    "multiOriginWatermark (\<lambda>_ _. 1) [4, 9] (take 3 ?e) = 30"
    by (simp_all add: multiOriginWatermark_def currentValueOf_def currentEnd_def completedValues_def
        originEvents_def seqEvents_def upt_conv_Cons)
  ultimately show ?thesis
    using run_updates_watermark [of "[4, 9]" "\<lambda>_ _. 1" ?e "\<lambda>_. True"]
    by (auto simp: numeral_eq_Suc)
qed

lemma Min_image_mono:
  fixes f g :: "'a \<Rightarrow> 'b::linorder"
  assumes "finite A" "\<And>x. x \<in> A \<Longrightarrow> f x \<le> g x"
  shows "Min (insert a (f ` A)) \<le> Min (insert a (g ` A))"
proof -
  have "Min (insert a (f ` A)) \<le> g x" if "x \<in> A" for x
    using assms that by (intro order_trans [OF Min_le [of _ "f x"]]) auto
  then show ?thesis using assms(1) by (subst Min_ge_iff) auto
qed

lemma multiOriginWatermark_mono:
  assumes "\<forall>oid \<in> set os. admissibleChunks (lastChunkOf oid) (originEvents oid evs)
                          \<and> values_ordered (lastChunkOf oid) (originEvents oid evs)"
    and "j \<le> k"
  shows "multiOriginWatermark lastChunkOf os (take j evs) \<le> multiOriginWatermark lastChunkOf os (take k evs)"
proof -
  have "currentValueOf (lastChunkOf oid) (originEvents oid (take j evs))
        \<le> currentValueOf (lastChunkOf oid) (originEvents oid (take k evs))" if "oid \<in> set os" for oid
  proof -
    have k: "originEvents oid evs = originEvents oid (take k evs) @ originEvents oid (drop k evs)"
      using originEvents_append [of oid "take k evs" "drop k evs"] by simp
    have v: "valid_chunks BlockSize (lastChunkOf oid) (originEvents oid (take k evs))"
      "values_ordered (lastChunkOf oid) (originEvents oid (take k evs))"
      using assms(1) that valid_chunks_prefix [of BlockSize "lastChunkOf oid" "originEvents oid (take k evs)"]
        values_ordered_prefix [of BlockSize "lastChunkOf oid" "originEvents oid (take k evs)"]
      by (auto simp: admissibleChunks_def k)
    have "take k evs = take j evs @ take (k - j) (drop j evs)"
      using take_add [of j "k - j" evs] assms(2) by simp
    then have "originEvents oid (take k evs) = originEvents oid (take j evs) @ originEvents oid (take (k - j) (drop j evs))"
      by (metis originEvents_append)
    with v currentValueOf_mono show ?thesis by metis
  qed
  then show ?thesis
    unfolding multiOriginWatermark_def set_map by (intro Min_image_mono) auto
qed

text \<open>
  C12. If in every origin later sequence numbers carry watermarks that are not smaller, the watermarks
  reported over time never decrease, whatever the arrival order and the interleaving of the origins.
\<close>

theorem watermark_monotone:
  assumes "\<forall>oid \<in> set os. admissibleChunks (lastChunkOf oid) (originEvents oid evs)
                          \<and> values_ordered (lastChunkOf oid) (originEvents oid evs)"
    and "\<forall>e \<in> set evs. fst e \<in> set os"
  shows "\<exists>p' ws. run_updates (emplace BlockSize headCas) (getCurrentValue BlockSize)
             (createProcessor (emptyQueue BlockSize) os) evs = Inr (p', ws)
       \<and> length ws = length evs \<and> sorted ws"
proof -
  obtain p' ws where "run_updates (emplace BlockSize headCas) (getCurrentValue BlockSize)
      (createProcessor (emptyQueue BlockSize) os) evs = Inr (p', ws)" "length ws = length evs"
    "\<forall>k < length evs. ws ! k = multiOriginWatermark lastChunkOf os (take (Suc k) evs)"
    using processor_watermarks [of os lastChunkOf evs headCas] assms by blast
  then show ?thesis
    using multiOriginWatermark_mono [OF assms(1)] by (auto simp: sorted_iff_nth_mono)
qed

theorem watermark_monotone_witness:
  "\<exists>p' ws. run_updates (emplace BlockSize (\<lambda>_. True)) (getCurrentValue BlockSize)
             (createProcessor (emptyQueue BlockSize) [4])
             [(4, SequenceData 2 1 True, 30), (4, SequenceData 1 1 True, 20)] = Inr (p', ws)
       \<and> length ws = 2 \<and> sorted ws"
proof -
  let ?e = "[(4, SequenceData 2 1 True, 30), (4, SequenceData 1 1 True, 20)] :: originEvent list"
  have "admissibleChunks (\<lambda>_. 1) (originEvents 4 ?e)"
    by (simp add: admissibleChunks_def valid_chunks_def chunk_of_def originEvents_def BlockSize_def)
  moreover have "values_ordered (\<lambda>_. 1) (originEvents 4 ?e)"
  proof -
    have vals: "n = 1 \<and> v = 20 \<or> n = 2 \<and> v = 30" if "completedValues (\<lambda>_. 1) (originEvents 4 ?e) n = Some v" for n v
    proof -
      have "n < 2 ^ 64" "(of_nat n :: u64) = 1 \<and> v = 20 \<or> (of_nat n :: u64) = 2 \<and> v = 30"
        using that by (auto simp: completedValues_def originEvents_def seqEvents_def Let_def split: if_splits)
      then show ?thesis using unat_of_nat_u64 [of n] by auto
    qed
    have "v \<le> w" if "n \<le> m" "completedValues (\<lambda>_. 1) (originEvents 4 ?e) n = Some v"
      "completedValues (\<lambda>_. 1) (originEvents 4 ?e) m = Some w" for n m v w
      using vals [OF that(2)] vals [OF that(3)] that(1) by (elim disjE) simp_all
    then show ?thesis unfolding values_ordered_def by blast
  qed
  ultimately show ?thesis
    using watermark_monotone [of "[4]" "\<lambda>_ _. 1" ?e "\<lambda>_. True"] by (simp add: numeral_2_eq_2)
qed

lemma foldl_eventTime:
  "foldl (eventTime_execute unit tsOf) (ctx, w) records =
     (if records = [] then ctx else ctx\<lparr>currentTs := tsOf (last records) * multiplier unit\<rparr>,
      fold max (map (\<lambda>r. tsOf r * multiplier unit) records) w)"
  by (induction records arbitrary: ctx w)
    (auto simp: eventTime_execute_def eventTime_getTs_def getMillisecondsConversionMultiplier_def max_def
      Let_def)

text \<open>
  C35. The event-time watermark assigner sets the watermark of a buffer to the largest event time of its
  records in milliseconds (modulo the 64-bit range), and to the initial value for an empty buffer.
\<close>

theorem eventTimeWatermark_is_max:
  "watermarkTs (eventTimeWatermarkAssigner unit tsOf ctx records) =
     (if records = [] then Timestamp_INITIAL_VALUE
      else Max ((\<lambda>r. tsOf r * getMillisecondsConversionMultiplier unit) ` set records))"
  using fold_max_eq_Max [of "map (\<lambda>r. tsOf r * multiplier unit) records"]
  by (simp add: eventTimeWatermarkAssigner_def foldl_eventTime Timestamp_INITIAL_VALUE_def
      getMillisecondsConversionMultiplier_def)

lemma compound_assignment_keeps_object:
  "fst (Timestamp_plus_assign value offset) = value \<and> fst (Timestamp_minus_assign value offset) = value"
  by (simp add: Timestamp_plus_assign_def Timestamp_minus_assign_def)

lemma ingestionTimeWatermark:
  "watermarkTs (ingestionTimeWatermarkAssigner_open ctx ts) = max (watermarkTs ctx) ts"
  by (auto simp: ingestionTimeWatermarkAssigner_open_def ingestionTime_open_def ingestionTime_getTs_def max_def
      Let_def)

end
