(* ===== verification/SliceAssigner.thy ===== *)
theory SliceAssigner
  imports Prelude
begin

text \<open>
  The slice assigner (\<open>src/nes-physical-operators/include/SliceStore/SliceAssigner.hpp\<close>) with
  \<open>WindowInfo\<close> and \<open>Slice\<close> (\<open>Slice.hpp\<close>): the slice of a timestamp and the windows of a slice, for
  sliding windows given by a size and a slide.

  The lemmas show that slices are the cells of the partition of time at the window starts and ends,
  and that \<open>getAllWindowsForSlice\<close> returns exactly the windows that contain the slice, in order.
  The arithmetic is on 64-bit words; the results hold while \<open>timestamp + size + slide\<close> fits.
\<close>

section \<open>Windows and slices\<close>

datatype WindowInfo = WindowInfo (windowStart: u64) (windowEnd: u64)

text \<open>The constructor replaces a start that lies behind the end.\<close>

definition makeWindowInfo :: "u64 \<Rightarrow> u64 \<Rightarrow> WindowInfo" where
  "makeWindowInfo s e = WindowInfo (if e < s then 0 else s) e"

definition WindowInfo_less :: "WindowInfo \<Rightarrow> WindowInfo \<Rightarrow> bool" where
  "WindowInfo_less a b \<longleftrightarrow> windowEnd a < windowEnd b"

record SliceAssigner =
  windowSize :: u64
  windowSlide :: u64

section \<open>Operations\<close>

definition getSliceStartTs :: "SliceAssigner \<Rightarrow> u64 \<Rightarrow> u64" where
  "getSliceStartTs a timestampRaw =
     (let prevSlideStart = timestampRaw - timestampRaw mod windowSlide a;
          prevWindowStart = (if timestampRaw < windowSize a then prevSlideStart
                             else timestampRaw - (timestampRaw - windowSize a) mod windowSlide a)
      in max prevSlideStart prevWindowStart)"

definition getSliceEndTs :: "SliceAssigner \<Rightarrow> u64 \<Rightarrow> u64" where
  "getSliceEndTs a timestampRaw =
     (let nextSlideEnd = timestampRaw + windowSlide a - timestampRaw mod windowSlide a;
          nextWindowEnd = (if timestampRaw < windowSize a then windowSize a
                           else timestampRaw + windowSlide a - (timestampRaw - windowSize a) mod windowSlide a)
      in min nextSlideEnd nextWindowEnd)"

partial_function (option) windowsLoop ::
  "SliceAssigner \<Rightarrow> u64 \<Rightarrow> u64 \<Rightarrow> WindowInfo list \<Rightarrow> WindowInfo list option" where
  "windowsLoop a curWindowEnd lastWindowEnd allWindows =
     (if curWindowEnd \<le> lastWindowEnd
      then windowsLoop a (curWindowEnd + windowSlide a) lastWindowEnd
             (allWindows @ [makeWindowInfo (curWindowEnd - windowSize a) curWindowEnd])
      else Some allWindows)"

declare windowsLoop.simps [code]

definition getAllWindowsForSlice :: "SliceAssigner \<Rightarrow> u64 \<Rightarrow> u64 \<Rightarrow> WindowInfo list option" where
  "getAllWindowsForSlice a sliceStart sliceEnd =
     (let firstWindowEnd = max sliceEnd (windowSize a);
          lastWindowEnd = sliceStart + windowSize a
      in if (firstWindowEnd - windowSize a) mod windowSlide a \<noteq> 0
         then windowsLoop a (sliceStart + windowSlide a) (firstWindowEnd + windowSize a - windowSlide a) []
         else windowsLoop a firstWindowEnd lastWindowEnd [])"

section \<open>The mathematics of slices\<close>

text \<open>The last window start and window end up to \<open>t\<close>, and the next ones.\<close>

definition prevStart :: "nat \<Rightarrow> nat \<Rightarrow> nat" where "prevStart D t = t div D * D"

definition sliceStartN :: "nat \<Rightarrow> nat \<Rightarrow> nat \<Rightarrow> nat" where
  "sliceStartN W D t = (if t < W then prevStart D t else max (prevStart D t) (W + prevStart D (t - W)))"

definition nextEnd :: "nat \<Rightarrow> nat \<Rightarrow> nat \<Rightarrow> nat" where
  "nextEnd W D t = (if t < W then W else W + prevStart D (t - W) + D)"

definition sliceEndN :: "nat \<Rightarrow> nat \<Rightarrow> nat \<Rightarrow> nat" where
  "sliceEndN W D t = min (prevStart D t + D) (nextEnd W D t)"

lemma prevStart_mod: "prevStart D t = t - t mod D"
  by (simp add: prevStart_def minus_mod_eq_div_mult)

lemma prevStart_le [simp]: "prevStart D t \<le> t"
  by (simp add: prevStart_def)

lemma prevStart_upper: "0 < D \<Longrightarrow> t < prevStart D t + D"
  using dividend_less_div_times [of D t] by (simp add: prevStart_def)

lemma prevStart_eqI: "prevStart D t \<le> u \<Longrightarrow> u < prevStart D t + D \<Longrightarrow> prevStart D u = prevStart D t"
proof -
  assume "prevStart D t \<le> u" "u < prevStart D t + D"
  then have "u div D = t div D" by (intro div_nat_eqI) (simp_all add: prevStart_def mult.commute)
  then show ?thesis by (simp add: prevStart_def)
qed

lemma prevEnd_le: "\<not> t < W \<Longrightarrow> W + prevStart D (t - W) \<le> t"
  using prevStart_le [of D "t - W"] by linarith

lemma multiple_le_prevStart: "k * D \<le> t \<longleftrightarrow> k * D \<le> prevStart D t"
proof (cases "D = 0")
  case False
  then have "k * D \<le> t \<longleftrightarrow> k \<le> t div D" by (simp add: less_eq_div_iff_mult_less_eq)
  with False show ?thesis by (simp add: prevStart_def)
qed (simp add: prevStart_def)

lemma sliceN_bounds:
  "0 < D \<Longrightarrow> sliceStartN W D t \<le> t"
  "0 < D \<Longrightarrow> t < sliceEndN W D t"
  using prevStart_upper [of D t] prevStart_upper [of D "t - W"] prevEnd_le [of t W D]
  by (auto simp: sliceStartN_def sliceEndN_def nextEnd_def)

lemma sliceN_partition:
  assumes "0 < D" "sliceStartN W D t \<le> u" "u < sliceEndN W D t"
  shows "sliceStartN W D u = sliceStartN W D t" "sliceEndN W D u = sliceEndN W D t"
proof -
  have p: "prevStart D u = prevStart D t"
    using assms by (intro prevStart_eqI) (auto simp: sliceStartN_def sliceEndN_def split: if_splits)
  have w: "u < W \<longleftrightarrow> t < W"
    using assms by (auto simp: sliceStartN_def sliceEndN_def nextEnd_def split: if_splits)
  have q: "prevStart D (u - W) = prevStart D (t - W)" if "\<not> t < W"
    using assms that w by (intro prevStart_eqI) (auto simp: sliceStartN_def sliceEndN_def nextEnd_def)
  show "sliceStartN W D u = sliceStartN W D t" "sliceEndN W D u = sliceEndN W D t"
    using p w q by (auto simp: sliceStartN_def sliceEndN_def nextEnd_def)
qed

text \<open>Window ends beyond \<open>t\<close> are the window ends from \<open>nextEnd\<close> on.\<close>

lemma window_end_iff:
  assumes "0 < D"
  shows "t < W + k * D \<longleftrightarrow> nextEnd W D t \<le> W + k * D"
proof (cases "t < W")
  case False
  have "t < W + k * D \<longleftrightarrow> \<not> k * D \<le> t - W" using False by auto
  also have "\<dots> \<longleftrightarrow> \<not> k * D \<le> prevStart D (t - W)"
    using multiple_le_prevStart [of k D "t - W"] by blast
  also have "\<dots> \<longleftrightarrow> prevStart D (t - W) + D \<le> k * D"
    using assms mult_le_cancel2 [of k D "(t - W) div D"] mult_le_cancel2 [of "Suc ((t - W) div D)" D k]
    by (auto simp: prevStart_def add.commute)
  finally show ?thesis using False by (simp add: nextEnd_def)
qed (simp add: nextEnd_def)

section \<open>The operations compute these slices\<close>

definition assigner_ok :: "SliceAssigner \<Rightarrow> u64 \<Rightarrow> bool" where
  "assigner_ok a ts \<longleftrightarrow> 0 < windowSlide a \<and> 0 < windowSize a
     \<and> unat ts + unat (windowSize a) + unat (windowSlide a) < 2 ^ 64"

lemma unat_sub_mod: "unat ((x :: u64) - x mod y) = prevStart (unat y) (unat x)"
  by (simp add: prevStart_mod unat_sub unat_mod_distrib word_le_nat_alt)

lemma unat_add_sub_mod:
  assumes "z \<le> (x :: u64)" "unat x + unat y < 2 ^ 64"
  shows "unat (x + y - z mod y) = unat x + unat y - unat z mod unat y"
proof -
  have "z mod y \<le> x + y"
    using assms unat_add_u64 [of x y]
    by (simp add: word_le_nat_alt unat_mod_distrib le_trans [OF mod_less_eq_dividend] trans_le_add1)
  then show ?thesis
    using assms unat_add_u64 [of x y] by (simp add: unat_sub unat_mod_distrib)
qed

lemma unat_getSliceStartTs:
  assumes "0 < windowSlide a"
  shows "unat (getSliceStartTs a ts) = sliceStartN (unat (windowSize a)) (unat (windowSlide a)) (unat ts)"
proof (cases "ts < windowSize a")
  case True
  then show ?thesis
    by (simp add: getSliceStartTs_def Let_def sliceStartN_def unat_sub_mod word_less_nat_alt)
next
  case False
  let ?d = "ts - windowSize a"
  have w: "unat ?d = unat ts - unat (windowSize a)" using False by (simp add: unat_sub not_less)
  have "unat ts = unat (windowSize a) + unat ?d" using False w by (simp add: word_less_nat_alt not_less)
  moreover have "?d mod windowSlide a \<le> ts"
    using w by (simp add: word_le_nat_alt unat_mod_distrib le_trans [OF mod_less_eq_dividend])
  ultimately have "unat (ts - ?d mod windowSlide a) = unat (windowSize a) + prevStart (unat (windowSlide a)) (unat ?d)"
    by (simp add: unat_sub unat_mod_distrib prevStart_mod)
  with False show ?thesis
    by (simp add: getSliceStartTs_def Let_def sliceStartN_def unat_sub_mod word_less_nat_alt max_def
        word_le_nat_alt w [symmetric])
qed

lemma unat_getSliceEndTs:
  assumes "assigner_ok a ts"
  shows "unat (getSliceEndTs a ts) = sliceEndN (unat (windowSize a)) (unat (windowSlide a)) (unat ts)"
proof -
  let ?W = "windowSize a" let ?D = "windowSlide a"
  have b: "unat ts + unat ?D < 2 ^ 64" "0 < unat ?D"
    using assms by (auto simp: assigner_ok_def word_less_nat_alt)
  have e1: "unat (ts + ?D - ts mod ?D) = prevStart (unat ?D) (unat ts) + unat ?D"
    using unat_add_sub_mod [OF _ b(1), of ts] by (simp add: prevStart_mod)
  show ?thesis
  proof (cases "ts < ?W")
    case True
    then show ?thesis
      using e1 by (simp add: getSliceEndTs_def Let_def sliceEndN_def nextEnd_def min_def word_le_nat_alt word_less_nat_alt)
  next
    case False
    have w: "unat (ts - ?W) = unat ts - unat ?W" using False by (simp add: unat_sub not_less)
    have "unat (ts + ?D - (ts - ?W) mod ?D) = unat ts + unat ?D - (unat ts - unat ?W) mod unat ?D"
      using unat_add_sub_mod [OF _ b(1), of "ts - ?W"] w False
      by (simp add: word_le_nat_alt)
    also have "\<dots> = unat ?W + prevStart (unat ?D) (unat ts - unat ?W) + unat ?D"
      using False mod_less_eq_dividend [of "unat ts - unat ?W" "unat ?D"]
      unfolding prevStart_mod word_less_nat_alt by linarith
    finally show ?thesis
      using e1 False by (simp add: getSliceEndTs_def Let_def sliceEndN_def nextEnd_def min_def word_le_nat_alt word_less_nat_alt)
  qed
qed

section \<open>The windows of a slice\<close>

lemma progression_step:
  "(\<exists>i. n = c + i * d) \<longleftrightarrow> n = c \<or> (\<exists>i. n = c + d + i * d)" for n c d :: nat
proof
  assume "\<exists>i. n = c + i * d"
  then obtain i where "n = c + i * d" ..
  then show "n = c \<or> (\<exists>i. n = c + d + i * d)" by (cases i) auto
next
  assume "n = c \<or> (\<exists>i. n = c + d + i * d)"
  then show "\<exists>i. n = c + i * d"
  proof
    assume "\<exists>i. n = c + d + i * d"
    then obtain i where "n = c + d + i * d" ..
    then have "n = c + Suc i * d" by simp
    then show ?thesis ..
  qed (auto intro: exI [of _ 0])
qed

lemma windowsLoop_correct:
  assumes D: "0 < windowSlide a" and W: "windowSize a \<le> cur"
    and b: "unat lst + unat (windowSlide a) < 2 ^ 64"
  shows "\<exists>ws. windowsLoop a cur lst acc = Some (acc @ ws) \<and> sorted_wrt (<) (map windowEnd ws)
     \<and> (\<forall>w. w \<in> set ws \<longleftrightarrow> windowStart w = windowEnd w - windowSize a
              \<and> (\<exists>i. unat (windowEnd w) = unat cur + i * unat (windowSlide a)) \<and> windowEnd w \<le> lst)"
  using W
proof (induction "unat lst + 1 - unat cur" arbitrary: cur acc rule: less_induct)
  case less
  let ?D = "windowSlide a"
  show ?case
  proof (cases "cur \<le> lst")
    case True
    have ub: "unat cur + unat ?D < 2 ^ 64" using True b by (simp add: word_le_nat_alt)
    then have u: "unat (cur + ?D) = unat cur + unat ?D" by (rule unat_add_u64)
    have Dp: "0 < unat ?D" using D by (simp add: word_less_nat_alt)
    have "windowSize a \<le> cur + ?D" using less.prems u by (simp add: word_le_nat_alt)
    moreover have "unat lst + 1 - unat (cur + ?D) < unat lst + 1 - unat cur"
      using True u Dp by (simp add: word_le_nat_alt)
    ultimately obtain ws where ws:
      "windowsLoop a (cur + ?D) lst (acc @ [makeWindowInfo (cur - windowSize a) cur])
         = Some (acc @ [makeWindowInfo (cur - windowSize a) cur] @ ws)"
      "sorted_wrt (<) (map windowEnd ws)"
      "\<And>w. w \<in> set ws \<longleftrightarrow> windowStart w = windowEnd w - windowSize a
              \<and> (\<exists>i. unat (windowEnd w) = unat (cur + ?D) + i * unat ?D) \<and> windowEnd w \<le> lst"
      using less.hyps [of "cur + ?D" "acc @ [makeWindowInfo (cur - windowSize a) cur]"] by auto
    have mk: "makeWindowInfo (cur - windowSize a) cur = WindowInfo (cur - windowSize a) cur"
    proof -
      have "\<not> cur < cur - windowSize a" using less.prems by (simp add: word_less_nat_alt unat_sub)
      then show ?thesis by (simp add: makeWindowInfo_def)
    qed
    have "cur < windowEnd w" if "w \<in> set ws" for w
      using that ws(3) u Dp by (auto simp: word_less_nat_alt)
    then have "sorted_wrt (<) (map windowEnd (WindowInfo (cur - windowSize a) cur # ws))"
      using ws(2) by auto
    moreover have "w \<in> set (WindowInfo (cur - windowSize a) cur # ws) \<longleftrightarrow>
        windowStart w = windowEnd w - windowSize a
        \<and> (\<exists>i. unat (windowEnd w) = unat cur + i * unat ?D) \<and> windowEnd w \<le> lst" for w
    proof -
      have "(\<exists>i. unat (windowEnd w) = unat cur + i * unat ?D) \<longleftrightarrow>
          windowEnd w = cur \<or> (\<exists>i. unat (windowEnd w) = unat (cur + ?D) + i * unat ?D)"
        using progression_step [of "unat (windowEnd w)" "unat cur" "unat ?D"] by (simp add: u word_unat_eq_iff)
      then show ?thesis using True ws(3) [of w] by (cases w) auto
    qed
    ultimately show ?thesis
      using ws(1) mk True
      by (subst windowsLoop.simps) (auto intro!: exI [of _ "WindowInfo (cur - windowSize a) cur # ws"])
  next
    case False
    then have "\<not> (\<exists>i. unat e = unat cur + i * unat ?D) \<or> \<not> e \<le> lst" for e
      by (auto simp: word_le_nat_alt)
    with False show ?thesis by (subst windowsLoop.simps) auto
  qed
qed

text \<open>A window of the assigner starts at a multiple of the slide and has the window size.\<close>

definition isWindow :: "SliceAssigner \<Rightarrow> WindowInfo \<Rightarrow> bool" where
  "isWindow a w \<longleftrightarrow> unat (windowStart w) mod unat (windowSlide a) = 0
     \<and> unat (windowEnd w) = unat (windowStart w) + unat (windowSize a)"

lemma nextEnd_form: "\<exists>j. nextEnd W D t = W + j * D"
proof (cases "t < W")
  case False
  then have "nextEnd W D t = W + ((t - W) div D + 1) * D" by (simp add: nextEnd_def prevStart_def)
  then show ?thesis ..
qed (auto simp: nextEnd_def intro: exI [of _ 0])

lemma windowsLoop_windows:
  assumes ok: "assigner_ok a ts"
    and first: "unat first = nextEnd (unat (windowSize a)) (unat (windowSlide a)) (unat ts)"
    and lst: "unat lst = L + unat (windowSize a)" "L \<le> unat ts" "prevStart (unat (windowSlide a)) (unat ts) \<le> L"
  shows "\<exists>ws. windowsLoop a first lst [] = Some ws \<and> sorted_wrt (<) (map windowEnd ws)
     \<and> (\<forall>w. w \<in> set ws \<longleftrightarrow> isWindow a w \<and> windowStart w \<le> ts \<and> ts < windowEnd w)"
proof -
  let ?W = "unat (windowSize a)" let ?D = "unat (windowSlide a)"
  have D: "0 < windowSlide a" "0 < ?D" and b: "unat lst + ?D < 2 ^ 64"
    using ok lst by (auto simp: assigner_ok_def word_less_nat_alt)
  obtain j where j: "unat first = ?W + j * ?D" using nextEnd_form first by metis
  have W: "windowSize a \<le> first" using j by (simp add: word_le_nat_alt)
  obtain ws where ws: "windowsLoop a first lst [] = Some ws" "sorted_wrt (<) (map windowEnd ws)"
    "\<And>w. w \<in> set ws \<longleftrightarrow> windowStart w = windowEnd w - windowSize a
        \<and> (\<exists>i. unat (windowEnd w) = unat first + i * ?D) \<and> windowEnd w \<le> lst"
    using windowsLoop_correct [OF D(1) W b, of "[]"] by auto
  have L: "k * ?D \<le> L \<longleftrightarrow> k * ?D \<le> unat ts" for k
    using multiple_le_prevStart [of k ?D "unat ts"] lst(2,3) by linarith
  have ends: "(\<exists>i. n = unat first + i * ?D) \<longleftrightarrow> (\<exists>k. n = ?W + k * ?D \<and> unat ts < n)" for n
  proof
    assume "\<exists>i. n = unat first + i * ?D"
    then obtain i where i: "n = ?W + (j + i) * ?D" using j by (auto simp: algebra_simps)
    moreover have "nextEnd ?W ?D (unat ts) \<le> n" using i j first by (simp add: algebra_simps)
    ultimately show "\<exists>k. n = ?W + k * ?D \<and> unat ts < n" using window_end_iff [OF D(2)] by blast
  next
    assume "\<exists>k. n = ?W + k * ?D \<and> unat ts < n"
    then obtain k where k: "n = ?W + k * ?D" "unat ts < n" by blast
    then have "?W + j * ?D \<le> ?W + k * ?D" using window_end_iff [OF D(2), of "unat ts" ?W k] first j by simp
    then have "j \<le> k" using D(2) by simp
    then have "n = unat first + (k - j) * ?D" using k(1) j by (simp add: diff_mult_distrib)
    then show "\<exists>i. n = unat first + i * ?D" ..
  qed
  have "w \<in> set ws \<longleftrightarrow> isWindow a w \<and> windowStart w \<le> ts \<and> ts < windowEnd w" for w
  proof
    assume "w \<in> set ws"
    then obtain k where k: "windowStart w = windowEnd w - windowSize a" "unat (windowEnd w) = ?W + k * ?D"
      "unat ts < unat (windowEnd w)" "windowEnd w \<le> lst" using ws(3) ends by auto
    then have "unat (windowStart w) = k * ?D" by (simp add: unat_sub word_le_nat_alt)
    with k L [of k] lst(1) show "isWindow a w \<and> windowStart w \<le> ts \<and> ts < windowEnd w"
      by (simp add: isWindow_def word_le_nat_alt word_less_nat_alt)
  next
    assume w: "isWindow a w \<and> windowStart w \<le> ts \<and> ts < windowEnd w"
    then obtain k where k: "unat (windowStart w) = k * ?D" "unat (windowEnd w) = ?W + k * ?D"
      by (auto simp: isWindow_def mod_eq_0_iff_dvd dvd_def mult.commute add.commute)
    have "windowStart w = windowEnd w - windowSize a"
      using k by (intro u64_eqI) (simp add: unat_sub word_le_nat_alt)
    moreover have "windowEnd w \<le> lst" using w k L [of k] lst(1) by (simp add: word_le_nat_alt)
    moreover have "\<exists>i. unat (windowEnd w) = unat first + i * ?D"
      using ends [of "unat (windowEnd w)"] k(2) w by (auto simp: word_less_nat_alt)
    ultimately show "w \<in> set ws" using ws(3) by blast
  qed
  with ws(1,2) show ?thesis by blast
qed

lemma getAllWindowsForSlice_windows:
  assumes ok: "assigner_ok a ts"
  shows "\<exists>ws. getAllWindowsForSlice a (getSliceStartTs a ts) (getSliceEndTs a ts) = Some ws
     \<and> sorted_wrt (<) (map windowEnd ws)
     \<and> (\<forall>w. w \<in> set ws \<longleftrightarrow> isWindow a w \<and> windowStart w \<le> ts \<and> ts < windowEnd w)"
proof -
  let ?W = "unat (windowSize a)" let ?D = "unat (windowSlide a)" let ?t = "unat ts"
  let ?s = "getSliceStartTs a ts" let ?e = "getSliceEndTs a ts"
  let ?f = "max ?e (windowSize a)"
  have D: "0 < windowSlide a" "0 < ?D" and b: "?t + ?W + ?D < 2 ^ 64"
    using ok by (auto simp: assigner_ok_def word_less_nat_alt)
  have s: "unat ?s = sliceStartN ?W ?D ?t" by (rule unat_getSliceStartTs [OF D(1)])
  have e: "unat ?e = sliceEndN ?W ?D ?t" by (rule unat_getSliceEndTs [OF ok])
  have f: "unat ?f = max (sliceEndN ?W ?D ?t) ?W" by (simp add: max_def word_le_nat_alt e)
  have fm: "unat (?f - windowSize a) = unat ?f - ?W" by (simp add: unat_sub)
  note bounds = sliceN_bounds [OF D(2), where W = ?W and t = ?t]
  have ps: "prevStart ?D ?t \<le> sliceStartN ?W ?D ?t" by (simp add: sliceStartN_def)
  show ?thesis
  proof (cases "(?f - windowSize a) mod windowSlide a = 0")
    case True
    then have "(unat ?f - ?W) mod ?D = 0" by (metis fm unat_0 unat_mod_distrib)
    then obtain k where "unat ?f - ?W = ?D * k" by (meson dvdE mod_eq_0_iff_dvd)
    moreover have "?W \<le> unat ?f" by (simp add: f)
    ultimately have k: "unat ?f = ?W + k * ?D" by (simp add: mult.commute)
    have "?t < ?W + k * ?D" using k f bounds(2) by (simp add: max_def split: if_splits)
    then have "nextEnd ?W ?D ?t \<le> unat ?f" using window_end_iff [OF D(2), of ?t ?W k] k by simp
    moreover have "unat ?f \<le> nextEnd ?W ?D ?t" by (simp add: f sliceEndN_def nextEnd_def)
    ultimately have first: "unat ?f = nextEnd ?W ?D ?t" by simp
    have "unat (?s + windowSize a) = sliceStartN ?W ?D ?t + ?W"
      using s bounds(1) b by (subst unat_add_u64) auto
    from windowsLoop_windows [OF ok first this bounds(1) ps] show ?thesis
      using True by (simp add: getAllWindowsForSlice_def Let_def)
  next
    case False
    then have m: "(unat ?f - ?W) mod ?D \<noteq> 0" by (metis fm unat_eq_zero unat_mod_distrib)
    have ne: "sliceEndN ?W ?D ?t \<noteq> nextEnd ?W ?D ?t"
    proof
      assume "sliceEndN ?W ?D ?t = nextEnd ?W ?D ?t"
      moreover obtain j where "nextEnd ?W ?D ?t = ?W + j * ?D" using nextEnd_form by blast
      ultimately show False using m f by simp
    qed
    have gtW: "?W < sliceEndN ?W ?D ?t" using m f by (auto simp: max_def split: if_splits)
    have t: "\<not> ?t < ?W" using gtW by (auto simp: sliceEndN_def nextEnd_def)
    have en: "sliceEndN ?W ?D ?t = prevStart ?D ?t + ?D" and
      lt: "prevStart ?D ?t < ?W + prevStart ?D (?t - ?W)"
      using ne t by (auto simp: sliceEndN_def nextEnd_def min_def split: if_splits)
    have s': "sliceStartN ?W ?D ?t = ?W + prevStart ?D (?t - ?W)" using lt t by (simp add: sliceStartN_def)
    have "unat (?s + windowSlide a) = unat ?s + ?D"
      using s bounds(1) b by (intro unat_add_u64) auto
    then have first: "unat (?s + windowSlide a) = nextEnd ?W ?D ?t" using t s s' by (simp add: nextEnd_def)
    have fe: "unat ?f = prevStart ?D ?t + ?D" using f gtW en by simp
    moreover have "prevStart ?D ?t + ?D + ?W < 2 ^ 64" using b prevStart_le [of ?D ?t] by linarith
    ultimately have "unat (?f + windowSize a) = prevStart ?D ?t + ?D + ?W"
      by (subst unat_add_u64) simp_all
    then have lst: "unat (?f + windowSize a - windowSlide a) = prevStart ?D ?t + ?W"
      by (simp add: unat_sub word_le_nat_alt)
    from windowsLoop_windows [OF ok first lst prevStart_le order_refl] show ?thesis
      using False by (simp add: getAllWindowsForSlice_def Let_def)
  qed
qed

lemma window_contains_slice:
  assumes ok: "assigner_ok a ts" and w: "isWindow a w"
  shows "windowStart w \<le> ts \<and> ts < windowEnd w \<longleftrightarrow>
         windowStart w \<le> getSliceStartTs a ts \<and> getSliceEndTs a ts \<le> windowEnd w"
proof -
  let ?W = "unat (windowSize a)" let ?D = "unat (windowSlide a)" let ?t = "unat ts"
  have D: "0 < windowSlide a" "0 < ?D" using ok by (auto simp: assigner_ok_def word_less_nat_alt)
  obtain k where k: "unat (windowStart w) = k * ?D" "unat (windowEnd w) = ?W + k * ?D"
    using w by (auto simp: isWindow_def mod_eq_0_iff_dvd dvd_def mult.commute add.commute)
  note bounds = sliceN_bounds [OF D(2), where W = ?W and t = ?t]
  have "prevStart ?D ?t \<le> sliceStartN ?W ?D ?t" by (simp add: sliceStartN_def)
  then have "k * ?D \<le> ?t \<longleftrightarrow> k * ?D \<le> sliceStartN ?W ?D ?t"
    using multiple_le_prevStart [of k ?D ?t] bounds(1) by linarith
  moreover have "sliceEndN ?W ?D ?t \<le> nextEnd ?W ?D ?t" by (simp add: sliceEndN_def)
  then have "?t < ?W + k * ?D \<longleftrightarrow> sliceEndN ?W ?D ?t \<le> ?W + k * ?D"
    using window_end_iff [OF D(2), of ?t ?W k] bounds(2) by linarith
  ultimately show ?thesis
    by (simp add: word_le_nat_alt word_less_nat_alt k unat_getSliceStartTs [OF D(1)] unat_getSliceEndTs [OF ok])
qed

section \<open>Properties\<close>

text \<open>
  C13. \<open>getAllWindowsForSlice\<close> terminates and returns exactly the windows that contain the slice of a
  timestamp, each once and in ascending order: a window is in the result if and only if it starts at a
  multiple of the slide, has the window size, and covers the whole slice. Sizes that are no multiple of
  the slide and slides larger than the size (gaps) are included.
\<close>

theorem getAllWindowsForSlice_exact:
  assumes "assigner_ok a ts"
  shows "\<exists>ws. getAllWindowsForSlice a (getSliceStartTs a ts) (getSliceEndTs a ts) = Some ws
     \<and> sorted_wrt (<) (map windowEnd ws)
     \<and> (\<forall>w. w \<in> set ws \<longleftrightarrow> isWindow a w \<and> windowStart w \<le> getSliceStartTs a ts
                            \<and> getSliceEndTs a ts \<le> windowEnd w)"
proof -
  obtain ws where "getAllWindowsForSlice a (getSliceStartTs a ts) (getSliceEndTs a ts) = Some ws"
    "sorted_wrt (<) (map windowEnd ws)"
    "\<And>w. w \<in> set ws \<longleftrightarrow> isWindow a w \<and> windowStart w \<le> ts \<and> ts < windowEnd w"
    using getAllWindowsForSlice_windows [OF assms] by blast
  then show ?thesis using window_contains_slice [OF assms] by blast
qed

theorem getAllWindowsForSlice_exact_witness:
  "\<exists>ws. getAllWindowsForSlice \<lparr>windowSize = 10, windowSlide = 3\<rparr>
           (getSliceStartTs \<lparr>windowSize = 10, windowSlide = 3\<rparr> 14) (getSliceEndTs \<lparr>windowSize = 10, windowSlide = 3\<rparr> 14) = Some ws
     \<and> WindowInfo 6 16 \<in> set ws \<and> WindowInfo 3 13 \<notin> set ws"
proof -
  let ?a = "\<lparr>windowSize = 10, windowSlide = 3\<rparr> :: SliceAssigner"
  have "assigner_ok ?a 14" by (simp add: assigner_ok_def)
  moreover have "getSliceStartTs ?a 14 = 13" "getSliceEndTs ?a 14 = 15" by code_simp+
  ultimately show ?thesis
    using getAllWindowsForSlice_exact [of ?a 14] by (auto simp: isWindow_def)
qed

text \<open>
  C25. Every timestamp lies in its slice, and slices partition time: any other timestamp inside the
  slice is assigned the same slice.
\<close>

theorem slices_partition:
  assumes "assigner_ok a ts"
  shows "getSliceStartTs a ts \<le> ts \<and> ts < getSliceEndTs a ts
     \<and> (\<forall>u. assigner_ok a u \<and> getSliceStartTs a ts \<le> u \<and> u < getSliceEndTs a ts \<longrightarrow>
            getSliceStartTs a u = getSliceStartTs a ts \<and> getSliceEndTs a u = getSliceEndTs a ts)"
proof -
  have D: "0 < windowSlide a" "0 < unat (windowSlide a)"
    using assms by (auto simp: assigner_ok_def word_less_nat_alt)
  let ?s = "sliceStartN (unat (windowSize a)) (unat (windowSlide a))"
  let ?e = "sliceEndN (unat (windowSize a)) (unat (windowSlide a))"
  note st = unat_getSliceStartTs [OF D(1)] and en = unat_getSliceEndTs
  have "getSliceStartTs a u = getSliceStartTs a ts \<and> getSliceEndTs a u = getSliceEndTs a ts"
    if u: "assigner_ok a u" "getSliceStartTs a ts \<le> u" "u < getSliceEndTs a ts" for u
  proof -
    have "?s (unat ts) \<le> unat u" "unat u < ?e (unat ts)"
      using u by (simp_all add: word_le_nat_alt word_less_nat_alt st en [OF assms])
    then have "?s (unat u) = ?s (unat ts)" "?e (unat u) = ?e (unat ts)"
      using sliceN_partition [OF D(2)] by blast+
    then show ?thesis by (intro conjI u64_eqI) (simp_all only: st en [OF assms] en [OF u(1)])
  qed
  moreover have "getSliceStartTs a ts \<le> ts" "ts < getSliceEndTs a ts"
    using sliceN_bounds [OF D(2)] by (simp_all add: word_le_nat_alt word_less_nat_alt st en [OF assms])
  ultimately show ?thesis by blast
qed

theorem slices_partition_witness:
  "getSliceStartTs \<lparr>windowSize = 10, windowSlide = 3\<rparr> 13 = getSliceStartTs \<lparr>windowSize = 10, windowSlide = 3\<rparr> 14"
proof -
  let ?a = "\<lparr>windowSize = 10, windowSlide = 3\<rparr> :: SliceAssigner"
  have ok: "assigner_ok ?a 14" "assigner_ok ?a 13" by (simp_all add: assigner_ok_def)
  have "getSliceStartTs ?a 14 \<le> 13 \<and> 13 < getSliceEndTs ?a 14" by code_simp
  with ok(2) slices_partition [OF ok(1), THEN conjunct2, THEN conjunct2, THEN spec, of 13]
  show ?thesis by blast
qed

end
