(* ===== verification/SliceStore.thy ===== *)
theory SliceStore
  imports SliceAssigner
begin

text \<open>
  The time-based slice store (\<open>src/nes-physical-operators/src/SliceStore/DefaultTimeBasedSliceStore.cpp\<close>):
  slices by their end, windows by their end with their slices and trigger state.

  A \<open>std::map\<close> is an ordered association list; \<open>WindowInfo\<close> compares by its end, so windows are keyed by
  it. Whether \<open>tryWLock\<close> succeeds is an argument of the operation. Each operation holds its locks
  throughout, so threads interleave at operation granularity: a trace is any list of operations.
  \<open>createNewSlice\<close> is a callback and therefore a parameter. \<open>store_inv\<close> relates the store to the
  timestamps it was asked for and the windows it has emitted.
\<close>

section \<open>State\<close>

datatype WindowInfoState = WINDOW_FILLING | WAITING_ON_TERMINATION | EMITTED_TO_PROBE

record 'p Slice =
  sliceStart :: u64
  sliceEnd :: u64
  slicePayload :: 'p

record 'p SlicesAndState =
  windowSlices :: "'p Slice list"
  windowState :: WindowInfoState

type_synonym 'p windowMap = "(u64 \<times> WindowInfo \<times> 'p SlicesAndState) list"

record 'p SliceStore =
  sliceAssigner :: SliceAssigner
  windows :: "'p windowMap"
  slices :: "(u64 \<times> 'p Slice) list"
  sequenceNumberCounter :: u64
  numberOfActiveOrigins :: u64

type_synonym 'p emission = "WindowInfo \<times> u64 \<times> 'p Slice list"

definition newSliceStore :: "u64 \<Rightarrow> u64 \<Rightarrow> 8 word \<Rightarrow> 'p SliceStore" where
  "newSliceStore wSize wSlide numberOfInputOrigins =
     \<lparr>sliceAssigner = \<lparr>windowSize = wSize, windowSlide = wSlide\<rparr>, windows = [], slices = [],
      sequenceNumberCounter = 1, numberOfActiveOrigins = ucast numberOfInputOrigins\<rparr>"

section \<open>Operations\<close>

fun addSliceToWindows :: "'p Slice \<Rightarrow> WindowInfo list \<Rightarrow> 'p windowMap \<Rightarrow> 'p windowMap result" where
  "addSliceToWindows newSlice [] ws = Inr ws"
| "addSliceToWindows newSlice (windowInfo # rest) ws =
     (let (key, entry) = (case omap_find (windowEnd windowInfo) ws of
                            Some e \<Rightarrow> e
                          | None \<Rightarrow> (windowInfo, \<lparr>windowSlices = [], windowState = WINDOW_FILLING\<rparr>))
      in andThen (INVARIANT (windowState entry \<noteq> EMITTED_TO_PROBE)) (\<lambda>_.
           addSliceToWindows newSlice rest
             (omap_set (windowEnd windowInfo)
                (key, entry\<lparr>windowState := WINDOW_FILLING, windowSlices := windowSlices entry @ [newSlice]\<rparr>) ws)))"

text \<open>The part of \<open>getSlicesOrCreate\<close> under both write locks.\<close>

definition insertSliceLocked ::
  "'p SliceStore \<Rightarrow> u64 \<Rightarrow> 'p Slice \<Rightarrow> ('p SliceStore \<times> 'p Slice list) result" where
  "insertSliceLocked st endTs newSlice =
     (case omap_find endTs (slices st) of
        Some s \<Rightarrow> Inr (st, [s])
      | None \<Rightarrow>
          (case getAllWindowsForSlice (sliceAssigner st) (sliceStart newSlice) (sliceEnd newSlice) of
             None \<Rightarrow> Inl NonTermination
           | Some infos \<Rightarrow>
               andThen (addSliceToWindows newSlice infos (windows st)) (\<lambda>ws.
                 Inr (st\<lparr>slices := omap_emplace endTs newSlice (slices st), windows := ws\<rparr>, [newSlice]))))"

definition getSlicesOrCreate ::
  "(u64 \<Rightarrow> u64 \<Rightarrow> 'p Slice list) \<Rightarrow> 'p SliceStore \<Rightarrow> u64 \<Rightarrow> ('p SliceStore \<times> 'p Slice list) result" where
  "getSlicesOrCreate createNewSlice st timestamp =
     (let startTs = getSliceStartTs (sliceAssigner st) timestamp;
          endTs = getSliceEndTs (sliceAssigner st) timestamp
      in case omap_find endTs (slices st) of
           Some existingSlice \<Rightarrow> Inr (st, [existingSlice])
         | None \<Rightarrow>
             let newSlices = createNewSlice startTs endTs
             in andThen (INVARIANT (length newSlices = 1)) (\<lambda>_. insertSliceLocked st endTs (newSlices ! 0)))"

text \<open>An emission without slices would not appear in the returned map.\<close>

definition emissionOf :: "WindowInfo \<Rightarrow> u64 \<Rightarrow> 'p Slice list \<Rightarrow> 'p emission list" where
  "emissionOf windowInfo n ss = (if ss = [] then [] else [(windowInfo, n, ss)])"

fun triggerLoop :: "u64 \<Rightarrow> u64 \<Rightarrow> 'p windowMap \<Rightarrow> 'p windowMap \<times> u64 \<times> 'p emission list" where
  "triggerLoop globalWatermark n [] = ([], n, [])"
| "triggerLoop globalWatermark n ((k, windowInfo, entry) # ws) =
     (if windowEnd windowInfo \<ge> globalWatermark then ((k, windowInfo, entry) # ws, n, [])
      else if windowState entry = EMITTED_TO_PROBE then
        (let (ws', n', out) = triggerLoop globalWatermark n ws in ((k, windowInfo, entry) # ws', n', out))
      else
        (let (ws', n', out) = triggerLoop globalWatermark (n + 1) ws
         in ((k, windowInfo, entry\<lparr>windowState := EMITTED_TO_PROBE\<rparr>) # ws', n',
             emissionOf windowInfo n (windowSlices entry) @ out)))"

definition getTriggerableWindowSlices :: "bool \<Rightarrow> 'p SliceStore \<Rightarrow> u64 \<Rightarrow> 'p SliceStore \<times> 'p emission list" where
  "getTriggerableWindowSlices lockAcquired st globalWatermark =
     (if \<not> lockAcquired then (st, [])
      else let (ws, n, out) = triggerLoop globalWatermark (sequenceNumberCounter st) (windows st)
           in (st\<lparr>windows := ws, sequenceNumberCounter := n\<rparr>, out))"

definition getSliceBySliceEnd :: "'p SliceStore \<Rightarrow> u64 \<Rightarrow> 'p Slice option" where
  "getSliceBySliceEnd st endTs = omap_find endTs (slices st)"

fun nonTriggeredLoop :: "u64 \<Rightarrow> u64 \<Rightarrow> 'p windowMap \<Rightarrow> 'p windowMap \<times> u64 \<times> 'p emission list" where
  "nonTriggeredLoop active n [] = ([], n, [])"
| "nonTriggeredLoop active n ((k, windowInfo, entry) # ws) =
     (let emit = (let (ws', n', out) = nonTriggeredLoop active (n + 1) ws
                  in ((k, windowInfo, entry\<lparr>windowState := EMITTED_TO_PROBE\<rparr>) # ws', n',
                      emissionOf windowInfo n (windowSlices entry) @ out));
          keep = (\<lambda>entry'. let (ws', n', out) = nonTriggeredLoop active n ws in ((k, windowInfo, entry') # ws', n', out))
      in case windowState entry of
           EMITTED_TO_PROBE \<Rightarrow> keep entry
         | WINDOW_FILLING \<Rightarrow>
             if active > 0 then keep (entry\<lparr>windowState := WAITING_ON_TERMINATION\<rparr>) else emit
         | WAITING_ON_TERMINATION \<Rightarrow> if active > 0 then keep entry else emit)"

definition getAllNonTriggeredSlices :: "'p SliceStore \<Rightarrow> ('p SliceStore \<times> 'p emission list) result" where
  "getAllNonTriggeredSlices st =
     andThen (INVARIANT (numberOfActiveOrigins st > 0)) (\<lambda>_.
       let active = numberOfActiveOrigins st - 1;
           (ws, n, out) = nonTriggeredLoop active (sequenceNumberCounter st) (windows st)
       in Inr (st\<lparr>numberOfActiveOrigins := active, windows := ws, sequenceNumberCounter := n\<rparr>, out))"

fun collectWindows :: "u64 \<Rightarrow> 'p windowMap \<Rightarrow> 'p windowMap" where
  "collectWindows wm [] = []"
| "collectWindows wm ((k, windowInfo, entry) # ws) =
     (if windowEnd windowInfo < wm \<and> windowState entry = EMITTED_TO_PROBE then collectWindows wm ws
      else if windowEnd windowInfo > wm then (k, windowInfo, entry) # ws
      else (k, windowInfo, entry) # collectWindows wm ws)"

fun collectSlices :: "u64 \<Rightarrow> u64 \<Rightarrow> (u64 \<times> 'p Slice) list \<Rightarrow> (u64 \<times> 'p Slice) list" where
  "collectSlices wSize wm [] = []"
| "collectSlices wSize wm ((k, s) # ss) = (if k + wSize < wm then collectSlices wSize wm ss else (k, s) # ss)"

definition garbageCollectSlicesAndWindows :: "bool \<Rightarrow> bool \<Rightarrow> 'p SliceStore \<Rightarrow> u64 \<Rightarrow> 'p SliceStore" where
  "garbageCollectSlicesAndWindows windowsLock slicesLock st newGlobalWaterMark =
     (let st1 = (if windowsLock then st\<lparr>windows := collectWindows newGlobalWaterMark (windows st)\<rparr> else st)
      in if slicesLock
         then st1\<lparr>slices := collectSlices (windowSize (sliceAssigner st)) newGlobalWaterMark (slices st1)\<rparr>
         else st1)"

definition deleteState :: "'p SliceStore \<Rightarrow> 'p SliceStore" where
  "deleteState st = st\<lparr>slices := [], windows := []\<rparr>"

definition getWindowSize :: "'p SliceStore \<Rightarrow> u64" where
  "getWindowSize st = windowSize (sliceAssigner st)"

section \<open>Traces\<close>

datatype storeOp =
    GetOrCreate u64
  | Trigger bool u64
  | Terminate
  | GarbageCollect bool bool u64

fun runOp ::
  "(u64 \<Rightarrow> u64 \<Rightarrow> 'p Slice list) \<Rightarrow> 'p SliceStore \<Rightarrow> storeOp \<Rightarrow> ('p SliceStore \<times> 'p emission list) result" where
  "runOp mk st (GetOrCreate ts) = andThen (getSlicesOrCreate mk st ts) (\<lambda>(st', _). Inr (st', []))"
| "runOp mk st (Trigger lock wm) = Inr (getTriggerableWindowSlices lock st wm)"
| "runOp mk st Terminate = getAllNonTriggeredSlices st"
| "runOp mk st (GarbageCollect lw ls wm) = Inr (garbageCollectSlicesAndWindows lw ls st wm, [])"

fun runOps ::
  "(u64 \<Rightarrow> u64 \<Rightarrow> 'p Slice list) \<Rightarrow> 'p SliceStore \<Rightarrow> storeOp list \<Rightarrow> ('p SliceStore \<times> 'p emission list) result" where
  "runOps mk st [] = Inr (st, [])"
| "runOps mk st (p # ps) =
     andThen (runOp mk st p) (\<lambda>(st', out).
     andThen (runOps mk st' ps) (\<lambda>(st'', out'). Inr (st'', out @ out')))"

section \<open>The loops over the windows\<close>

type_synonym 'p windowEntry = "u64 \<times> WindowInfo \<times> 'p SlicesAndState"

definition markEmitted :: "('p windowEntry \<Rightarrow> bool) \<Rightarrow> 'p windowMap \<Rightarrow> 'p windowMap" where
  "markEmitted P ws =
     map (\<lambda>e. if P e then (fst e, fst (snd e), (snd (snd e))\<lparr>windowState := EMITTED_TO_PROBE\<rparr>) else e) ws"

fun numbered :: "u64 \<Rightarrow> 'p windowMap \<Rightarrow> 'p emission list" where
  "numbered n [] = []"
| "numbered n ((k, w, en) # ws) = (w, n, windowSlices en) # numbered (n + 1) ws"

definition triggerable :: "u64 \<Rightarrow> 'p windowEntry \<Rightarrow> bool" where
  "triggerable wm e \<longleftrightarrow> windowEnd (fst (snd e)) < wm \<and> windowState (snd (snd e)) \<noteq> EMITTED_TO_PROBE"

definition notEmitted :: "'p windowEntry \<Rightarrow> bool" where
  "notEmitted e \<longleftrightarrow> windowState (snd (snd e)) \<noteq> EMITTED_TO_PROBE"

definition entry_wf :: "'p windowEntry \<Rightarrow> bool" where
  "entry_wf e \<longleftrightarrow> fst e = windowEnd (fst (snd e)) \<and> windowSlices (snd (snd e)) \<noteq> []"

lemma triggerLoop_spec:
  assumes "omap_wf ws" "list_all entry_wf ws"
  shows "triggerLoop wm n ws =
     (markEmitted (triggerable wm) ws, n + of_nat (length (filter (triggerable wm) ws)),
      numbered n (filter (triggerable wm) ws))"
  using assms
proof (induction wm n ws rule: triggerLoop.induct)
  case (2 wm n k w en ws)
  show ?case
  proof (cases "wm \<le> windowEnd w")
    case True
    have "\<not> triggerable wm e" if "e \<in> set ws" for e
    proof -
      have "k < fst e" using that "2.prems"(1) by auto
      then show ?thesis
        using True "2.prems"(2) that by (auto simp: triggerable_def entry_wf_def list_all_iff)
    qed
    moreover have "\<not> triggerable wm (k, w, en)" using True by (auto simp: triggerable_def)
    ultimately show ?thesis
      using True by (auto simp: markEmitted_def filter_empty_conv intro!: map_idI [symmetric])
  next
    case False
    have wf: "omap_wf ws" "list_all entry_wf ws" "windowSlices en \<noteq> []"
      using "2.prems" by (auto simp: entry_wf_def list_all_iff)
    show ?thesis
    proof (cases "windowState en = EMITTED_TO_PROBE")
      case True
      with False "2.IH"(1) [OF _ True wf(1,2)] show ?thesis
        by (simp add: markEmitted_def triggerable_def)
    next
      case st: False
      with False "2.IH"(2) [OF _ st wf(1,2)] wf(3) show ?thesis
        by (simp add: markEmitted_def triggerable_def emissionOf_def add_ac)
    qed
  qed
qed (simp add: markEmitted_def)

lemma nonTriggeredLoop_last:
  "list_all entry_wf ws \<Longrightarrow>
   nonTriggeredLoop 0 n ws = (markEmitted notEmitted ws, n + of_nat (length (filter notEmitted ws)),
      numbered n (filter notEmitted ws))"
  by (induction "0 :: u64" n ws rule: nonTriggeredLoop.induct)
    (auto simp: markEmitted_def notEmitted_def entry_wf_def emissionOf_def Let_def add_ac
      split: WindowInfoState.split)

definition waitEntry :: "'p windowEntry \<Rightarrow> 'p windowEntry" where
  "waitEntry e = (fst e, fst (snd e),
     (if windowState (snd (snd e)) = WINDOW_FILLING
      then (snd (snd e))\<lparr>windowState := WAITING_ON_TERMINATION\<rparr> else snd (snd e)))"

lemma nonTriggeredLoop_waiting:
  "0 < active \<Longrightarrow> nonTriggeredLoop active n ws = (map waitEntry ws, n, [])"
  by (induction active n ws rule: nonTriggeredLoop.induct)
    (auto simp: waitEntry_def Let_def split: WindowInfoState.split)

lemma collectWindows_filter:
  assumes "omap_wf ws" "list_all entry_wf ws"
  shows "collectWindows wm ws =
     filter (\<lambda>e. \<not> (windowEnd (fst (snd e)) < wm \<and> windowState (snd (snd e)) = EMITTED_TO_PROBE)) ws"
  using assms
proof (induction wm ws rule: collectWindows.induct)
  case (2 wm k w en ws)
  have "filter (\<lambda>e. \<not> (windowEnd (fst (snd e)) < wm \<and> windowState (snd (snd e)) = EMITTED_TO_PROBE)) ws = ws"
    if "wm < windowEnd w"
    using that "2.prems" by (force simp: filter_id_conv entry_wf_def list_all_iff)
  with 2 show ?case by auto
qed simp

lemma collectSlices_subset: "set (collectSlices wSize wm ss) \<subseteq> set ss"
  by (induction wSize wm ss rule: collectSlices.induct) auto

lemma omap_wf_collectSlices: "omap_wf ss \<Longrightarrow> omap_wf (collectSlices wSize wm ss)"
  by (induction wSize wm ss rule: collectSlices.induct) auto

lemma numbered_fst: "map fst (numbered n ws) = map (\<lambda>e. fst (snd e)) ws"
  by (induction n ws rule: numbered.induct) auto

lemma numbered_length [simp]: "length (numbered n ws) = length ws"
  by (induction n ws rule: numbered.induct) auto

lemma numbered_numbers: "map (\<lambda>e. fst (snd e)) (numbered n ws) = map (\<lambda>i. n + of_nat i) [0..<length ws]"
proof (induction n ws rule: numbered.induct)
  case (2 n k w en ws)
  have "map (\<lambda>i. n + of_nat i) [0..<Suc (length ws)] = n # map (\<lambda>i. n + of_nat (Suc i)) [0..<length ws]"
    by (simp only: upt_conv_Cons map_Suc_upt [symmetric] list.map zero_less_Suc map_map comp_def) simp
  with 2 show ?case by (simp add: add_ac)
qed simp

lemma numbered_in: "(k, w, en) \<in> set ws \<Longrightarrow> \<exists>m. (w, m, windowSlices en) \<in> set (numbered n ws)"
  by (induction n ws rule: numbered.induct) auto

lemma numbered_mem: "e \<in> set (numbered n ws) \<Longrightarrow> \<exists>k en. (k, fst e, en) \<in> set ws"
  by (induction n ws rule: numbered.induct) (auto, blast)

section \<open>The store invariant\<close>

definition sliceOf :: "SliceAssigner \<Rightarrow> u64 \<Rightarrow> 'p Slice \<Rightarrow> bool" where
  "sliceOf a ts s \<longleftrightarrow> sliceStart s = getSliceStartTs a ts \<and> sliceEnd s = getSliceEndTs a ts"

definition windowOf :: "SliceAssigner \<Rightarrow> u64 \<Rightarrow> WindowInfo \<Rightarrow> bool" where
  "windowOf a ts w \<longleftrightarrow> isWindow a w \<and> windowStart w \<le> ts \<and> ts < windowEnd w"

text \<open>The slice of \<open>ts\<close> is emitted with the window \<open>w\<close>, or it is stored for \<open>w\<close>.\<close>

definition emittedWith :: "SliceAssigner \<Rightarrow> u64 \<Rightarrow> 'p emission list \<Rightarrow> WindowInfo \<Rightarrow> bool" where
  "emittedWith a ts E w \<longleftrightarrow> (\<exists>n ss. (w, n, ss) \<in> set E \<and> (\<exists>s \<in> set ss. sliceOf a ts s))"

definition storedFor :: "SliceAssigner \<Rightarrow> u64 \<Rightarrow> 'p windowMap \<Rightarrow> WindowInfo \<Rightarrow> bool" where
  "storedFor a ts ws w \<longleftrightarrow>
     (\<exists>en. (windowEnd w, w, en) \<in> set ws \<and> (\<exists>s \<in> set (windowSlices en). sliceOf a ts s))"

definition entry_inv :: "SliceAssigner \<Rightarrow> u64 \<Rightarrow> 'p emission list \<Rightarrow> 'p windowEntry \<Rightarrow> bool" where
  "entry_inv a done E e \<longleftrightarrow> entry_wf e \<and> isWindow a (fst (snd e))
     \<and> (if windowState (snd (snd e)) = EMITTED_TO_PROBE
        then \<exists>n. (fst (snd e), n, windowSlices (snd (snd e))) \<in> set E
        else fst (snd e) \<notin> fst ` set E \<and> done \<le> windowEnd (fst (snd e)))"

text \<open>
  \<open>W\<close> is the largest watermark a trigger was attempted with, \<open>done\<close> the largest one whose trigger got
  the lock, \<open>H\<close> the timestamps the store was asked for, \<open>E\<close> the emissions so far.
\<close>

definition store_inv ::
  "'p SliceStore \<Rightarrow> u64 \<Rightarrow> u64 \<Rightarrow> u64 set \<Rightarrow> 'p emission list \<Rightarrow> bool" where
  "store_inv st W done H E \<longleftrightarrow>
     (let a = sliceAssigner st; active = numberOfActiveOrigins st
      in omap_wf (windows st) \<and> (\<forall>e \<in> set (windows st). entry_inv a done E e)
         \<and> (active = 0 \<longrightarrow> (\<forall>e \<in> set (windows st). \<not> notEmitted e))
         \<and> done \<le> W \<and> (active > 0 \<longrightarrow> (\<forall>e \<in> set E. windowEnd (fst e) < W))
         \<and> omap_wf (slices st) \<and> (\<forall>(k, s) \<in> set (slices st). k = sliceEnd s \<and> (\<exists>ts \<in> H. sliceOf a ts s))
         \<and> (\<forall>ts \<in> H. assigner_ok a ts
                \<and> (\<forall>w. windowOf a ts w \<longrightarrow> storedFor a ts (windows st) w \<or> emittedWith a ts E w))
         \<and> distinct (map fst E) \<and> map (\<lambda>e. fst (snd e)) E = map (\<lambda>i. of_nat (i + 1)) [0..<length E]
         \<and> sequenceNumberCounter st = of_nat (length E + 1))"

lemma store_inv_init: "store_inv (newSliceStore wSize wSlide origins) 0 0 {} []"
  by (simp add: store_inv_def newSliceStore_def)

lemma entry_inv_wf: "\<forall>e \<in> set ws. entry_inv a done E e \<Longrightarrow> list_all entry_wf ws"
  by (auto simp: list_all_iff entry_inv_def)

lemma markEmitted_keys: "map fst (markEmitted P ws) = map fst ws"
  by (auto simp: markEmitted_def)

lemma windows_unique:
  assumes "omap_wf ws" "\<forall>e \<in> set ws. entry_inv a done E e" "(k, w, en) \<in> set ws" "(k', w, en') \<in> set ws"
  shows "(k, w, en) = (k', w, en')"
proof -
  have "k = k'"
    using bspec [OF assms(2,3)] bspec [OF assms(2,4)] by (simp add: entry_inv_def entry_wf_def)
  then show ?thesis using omap_find_iff [OF assms(1)] assms(3,4) by (metis option.inject)
qed

lemma emittedWith_append: "emittedWith a ts E w \<Longrightarrow> emittedWith a ts (E @ E') w"
  unfolding emittedWith_def set_append by blast

text \<open>Emitting the entries selected by \<open>P\<close> keeps the invariant.\<close>

lemma store_inv_emit:
  assumes inv: "store_inv st W done H E"
    and P: "\<And>e. P e \<Longrightarrow> notEmitted e"
    and fired: "F = filter P (windows st)"
    and done': "done' \<le> W'" "\<And>e. e \<in> set (windows st) \<Longrightarrow> \<not> P e \<Longrightarrow> notEmitted e \<Longrightarrow> done' \<le> windowEnd (fst (snd e))"
    and W': "active' > 0 \<Longrightarrow> numberOfActiveOrigins st > 0 \<and> W \<le> W' \<and> (\<forall>e \<in> set F. windowEnd (fst (snd e)) < W')"
    and act: "active' = 0 \<Longrightarrow> \<forall>e \<in> set (windows st). notEmitted e \<longrightarrow> P e"
    and st': "st' = st\<lparr>numberOfActiveOrigins := active', windows := markEmitted P (windows st),
       sequenceNumberCounter := sequenceNumberCounter st + of_nat (length F)\<rparr>"
  shows "store_inv st' W' done' H (E @ numbered (sequenceNumberCounter st) F)"
proof -
  let ?a = "sliceAssigner st" let ?E' = "E @ numbered (sequenceNumberCounter st) F"
  have wf: "omap_wf (windows st)" and ent: "\<forall>e \<in> set (windows st). entry_inv ?a done E e"
    using inv by (auto simp: store_inv_def Let_def)
  have fstF: "fst ` set (numbered (sequenceNumberCounter st) F) = (\<lambda>e. fst (snd e)) ` set F"
    using arg_cong [OF numbered_fst [of "sequenceNumberCounter st" F], of set] by simp
  have uniq: "e = e'" if "e \<in> set (windows st)" "e' \<in> set (windows st)" "fst (snd e) = fst (snd e')" for e e'
    using windows_unique [OF wf ent, of "fst e" "fst (snd e)" "snd (snd e)" "fst e'" "snd (snd e')"] that
    by (metis prod.collapse)
  have ent': "entry_inv ?a done' ?E' e'" if "e' \<in> set (markEmitted P (windows st))" for e'
  proof -
    obtain e where e: "e \<in> set (windows st)"
      "e' = (if P e then (fst e, fst (snd e), (snd (snd e))\<lparr>windowState := EMITTED_TO_PROBE\<rparr>) else e)"
      using \<open>e' \<in> _\<close> unfolding markEmitted_def set_map by blast
    have ei: "entry_inv ?a done E e" using ent e(1) by blast
    show ?thesis
    proof (cases "P e")
      case True
      then have "e \<in> set F" using e(1) fired by simp
      then obtain m where "(fst (snd e), m, windowSlices (snd (snd e))) \<in> set (numbered (sequenceNumberCounter st) F)"
        using numbered_in by (metis prod.collapse)
      with True e ei show ?thesis by (auto simp: entry_inv_def entry_wf_def)
    next
      case False
      have "fst (snd e) \<notin> (\<lambda>e. fst (snd e)) ` set F"
      proof
        assume "fst (snd e) \<in> (\<lambda>e. fst (snd e)) ` set F"
        then obtain f where f: "f \<in> set F" "fst (snd e) = fst (snd f)" by blast
        then have "f \<in> set (windows st)" "P f" by (simp_all add: fired)
        with uniq [OF e(1) _ f(2)] False show False by simp
      qed
      with False e ei done'(2) [OF e(1) False] show ?thesis
        by (auto simp: entry_inv_def notEmitted_def fstF image_Un)
    qed
  qed
  have stored: "storedFor ?a ts (markEmitted P (windows st)) w" if "storedFor ?a ts (windows st) w" for ts w
  proof -
    obtain en where en: "(windowEnd w, w, en) \<in> set (windows st)" "\<exists>s \<in> set (windowSlices en). sliceOf ?a ts s"
      using \<open>storedFor _ _ _ _\<close> by (auto simp: storedFor_def)
    let ?en = "if P (windowEnd w, w, en) then en\<lparr>windowState := EMITTED_TO_PROBE\<rparr> else en"
    have "(windowEnd w, w, ?en) \<in> set (markEmitted P (windows st))"
      using en(1) by (force simp: markEmitted_def)
    moreover have "windowSlices ?en = windowSlices en" by simp
    ultimately show ?thesis using en(2) unfolding storedFor_def by metis
  qed
  have memF: "f \<in> set (windows st)" "notEmitted f" if "f \<in> set F" for f
    using that P by (simp_all add: fired)
  have "fst (snd f) \<notin> fst ` set E" if "f \<in> set F" for f
    using bspec [OF ent memF(1) [OF that]] memF(2) [OF that] by (simp add: entry_inv_def notEmitted_def)
  then have newF: "(\<lambda>e. fst (snd e)) ` set F \<inter> fst ` set E = {}" by blast
  have "inj_on (\<lambda>e. fst (snd e)) (set F)" using uniq memF(1) by (intro inj_onI) blast
  moreover have "distinct F" using omap_wf_distinct [OF wf] by (simp add: fired distinct_map)
  ultimately have distF: "distinct (map (\<lambda>e. fst (snd e)) F)" by (simp add: distinct_map)
  have nums: "map (\<lambda>e. fst (snd e)) ?E' = map (\<lambda>i. of_nat (i + 1)) [0..<length ?E']"
  proof -
    have "map (\<lambda>e. fst (snd e)) E = map (\<lambda>i. of_nat (i + 1)) [0..<length E]"
      "sequenceNumberCounter st = of_nat (length E + 1)" using inv by (auto simp: store_inv_def Let_def)
    then show ?thesis
      by (simp only: map_append numbered_numbers length_append numbered_length map_upt_add)
        (simp add: add_ac)
  qed
  have act': "\<forall>e \<in> set (markEmitted P (windows st)). \<not> notEmitted e" if "active' = 0"
    using act [OF that] by (auto simp: markEmitted_def notEmitted_def)
  have emitW: "\<forall>e \<in> set ?E'. windowEnd (fst e) < W'" if "active' > 0"
  proof
    fix e assume "e \<in> set ?E'"
    then consider "e \<in> set E" | "fst e \<in> (\<lambda>e. fst (snd e)) ` set F" using fstF by auto
    then show "windowEnd (fst e) < W'"
    proof cases
      case 1
      then have "windowEnd (fst e) < W" using inv W' [OF that] by (simp add: store_inv_def Let_def)
      then show ?thesis using W' [OF that] by (meson less_le_trans)
    qed (use W' [OF that] in auto)
  qed
  have keep: "storedFor ?a ts (markEmitted P (windows st)) w \<or> emittedWith ?a ts ?E' w"
    if "ts \<in> H" "windowOf ?a ts w" for ts w
  proof -
    have "storedFor ?a ts (windows st) w \<or> emittedWith ?a ts E w"
      using inv that by (simp add: store_inv_def Let_def)
    then show ?thesis using stored emittedWith_append by blast
  qed
  have sel: "windows st' = markEmitted P (windows st)" "sliceAssigner st' = ?a" "slices st' = slices st"
    "numberOfActiveOrigins st' = active'"
    "sequenceNumberCounter st' = sequenceNumberCounter st + of_nat (length F)"
    by (simp_all add: st')
  show ?thesis
    unfolding store_inv_def Let_def sel
  proof (intro conjI)
    show "omap_wf (markEmitted P (windows st))" using wf by (simp add: omap_wf_def markEmitted_keys)
    show "\<forall>e \<in> set (markEmitted P (windows st)). entry_inv ?a done' ?E' e" using ent' by blast
    show "distinct (map fst ?E')"
      using inv newF distF by (simp add: store_inv_def Let_def numbered_fst fstF Int_commute)
    show "sequenceNumberCounter st + of_nat (length F) = of_nat (length ?E' + 1)"
      using inv by (simp add: store_inv_def Let_def)
    show "\<forall>ts \<in> H. assigner_ok ?a ts \<and> (\<forall>w. windowOf ?a ts w \<longrightarrow>
        storedFor ?a ts (markEmitted P (windows st)) w \<or> emittedWith ?a ts ?E' w)"
      using inv keep by (simp add: store_inv_def Let_def)
    show "omap_wf (slices st)" "\<forall>(k, s) \<in> set (slices st). k = sliceEnd s \<and> (\<exists>ts \<in> H. sliceOf ?a ts s)"
      using inv by (simp_all add: store_inv_def Let_def)
  qed (use act' emitW nums done'(1) in blast)+
qed

section \<open>Adding a slice\<close>

lemma isWindow_end_inj: "isWindow a w \<Longrightarrow> isWindow a w' \<Longrightarrow> windowEnd w = windowEnd w' \<Longrightarrow> w = w'"
proof -
  assume "isWindow a w" "isWindow a w'" and e: "windowEnd w = windowEnd w'"
  then have "unat (windowStart w) = unat (windowStart w')" by (simp add: isWindow_def)
  with e show ?thesis by (cases w; cases w') (simp add: word_unat_eq_iff)
qed

definition freshWindow :: "SliceAssigner \<Rightarrow> u64 \<Rightarrow> 'p emission list \<Rightarrow> WindowInfo \<Rightarrow> bool" where
  "freshWindow a done E w \<longleftrightarrow> isWindow a w \<and> w \<notin> fst ` set E \<and> done \<le> windowEnd w"

text \<open>Every old entry survives with at least its slices, and the new slice is stored for every window.\<close>

definition extends_windows :: "'p windowMap \<Rightarrow> 'p windowMap \<Rightarrow> bool" where
  "extends_windows ws ws' \<longleftrightarrow>
     (\<forall>k w en. (k, w, en) \<in> set ws \<longrightarrow> (\<exists>en'. (k, w, en') \<in> set ws' \<and> set (windowSlices en) \<subseteq> set (windowSlices en')))"

lemma extends_windows_trans: "extends_windows a b \<Longrightarrow> extends_windows b c \<Longrightarrow> extends_windows a c"
  unfolding extends_windows_def by (meson subset_trans)

lemma storedFor_extends: "extends_windows ws ws' \<Longrightarrow> storedFor a ts ws w \<Longrightarrow> storedFor a ts ws' w"
  unfolding extends_windows_def storedFor_def by (meson subsetD)

lemma set_window_entry:
  assumes wf: "omap_wf ws" and ent: "\<forall>e \<in> set ws. entry_inv a done E e" and w: "freshWindow a done E w"
    and look: "(case omap_find (windowEnd w) ws of Some e \<Rightarrow> e
               | None \<Rightarrow> (w, \<lparr>windowSlices = [], windowState = WINDOW_FILLING\<rparr>)) = (key, entry)"
    and ws1: "ws1 = omap_set (windowEnd w)
           (key, entry\<lparr>windowState := WINDOW_FILLING, windowSlices := windowSlices entry @ [s]\<rparr>) ws"
  shows "key = w" "windowState entry \<noteq> EMITTED_TO_PROBE" "omap_wf ws1" "\<forall>e \<in> set ws1. entry_inv a done E e"
    "extends_windows ws ws1" "\<exists>en. (windowEnd w, w, en) \<in> set ws1 \<and> s \<in> set (windowSlices en)"
proof -
  have found: "key = w \<and> windowState entry \<noteq> EMITTED_TO_PROBE"
    and old: "\<And>w' en. (windowEnd w, w', en) \<in> set ws \<Longrightarrow> (w', en) = (key, entry)"
  proof -
    show "key = w \<and> windowState entry \<noteq> EMITTED_TO_PROBE"
    proof (cases "omap_find (windowEnd w) ws")
      case (Some e)
      then have "(windowEnd w, key, entry) \<in> set ws" using look by (auto dest: omap_find_in)
      then have "entry_inv a done E (windowEnd w, key, entry)" using ent by blast
      then show ?thesis
        using w isWindow_end_inj [of a key w]
        by (force simp: entry_inv_def entry_wf_def freshWindow_def)
    qed (use look in auto)
    show "(w', en) = (key, entry)" if "(windowEnd w, w', en) \<in> set ws" for w' en
    proof -
      have "omap_find (windowEnd w) ws = Some (w', en)" using omap_find_iff [OF wf] that by blast
      then show ?thesis using look by simp
    qed
  qed
  show "key = w" "windowState entry \<noteq> EMITTED_TO_PROBE" using found by auto
  show "omap_wf ws1" using wf ws1 by auto
  have mem: "(k, w', en) \<in> set ws1 \<longleftrightarrow>
      k = windowEnd w \<and> w' = w \<and> en = entry\<lparr>windowState := WINDOW_FILLING, windowSlices := windowSlices entry @ [s]\<rparr>
      \<or> k \<noteq> windowEnd w \<and> (k, w', en) \<in> set ws" for k w' en
    using omap_set_in [OF wf, of k "(w', en)"] found by (simp add: ws1)
  then show "\<exists>en. (windowEnd w, w, en) \<in> set ws1 \<and> s \<in> set (windowSlices en)" by force
  show "extends_windows ws ws1"
    unfolding extends_windows_def mem
  proof (intro allI impI)
    fix k w' en assume m: "(k, w', en) \<in> set ws"
    show "\<exists>en'. (k = windowEnd w \<and> w' = w \<and> en' = entry\<lparr>windowState := WINDOW_FILLING, windowSlices := windowSlices entry @ [s]\<rparr>
        \<or> k \<noteq> windowEnd w \<and> (k, w', en') \<in> set ws) \<and> set (windowSlices en) \<subseteq> set (windowSlices en')"
    proof (cases "k = windowEnd w")
      case True
      then have "w' = w" "en = entry" using old m found by auto
      with True show ?thesis by auto
    qed (use m in blast)
  qed
  show "\<forall>e \<in> set ws1. entry_inv a done E e"
  proof
    fix e assume e: "e \<in> set ws1"
    obtain k w' en where eq: "e = (k, w', en)" by (metis prod.collapse)
    have "entry_inv a done E (k, w', en)"
    proof (cases "k = windowEnd w")
      case True
      then show ?thesis
        using e w unfolding eq mem by (simp add: entry_inv_def entry_wf_def freshWindow_def)
    qed (use e ent in \<open>unfold eq mem, blast\<close>)
    then show "entry_inv a done E e" by (simp add: eq)
  qed
qed

lemma addSliceToWindows_correct:
  assumes "omap_wf ws" "\<forall>e \<in> set ws. entry_inv a done E e" "list_all (freshWindow a done E) infos"
  shows "\<exists>ws'. addSliceToWindows s infos ws = Inr ws' \<and> omap_wf ws' \<and> (\<forall>e \<in> set ws'. entry_inv a done E e)
     \<and> extends_windows ws ws'
     \<and> (\<forall>w \<in> set infos. \<exists>en. (windowEnd w, w, en) \<in> set ws' \<and> s \<in> set (windowSlices en))"
  using assms
proof (induction s infos ws rule: addSliceToWindows.induct)
  case (1 s ws)
  then show ?case by (simp add: extends_windows_def) blast
next
  case (2 s w rest ws)
  obtain key entry where look: "(case omap_find (windowEnd w) ws of Some e \<Rightarrow> e
      | None \<Rightarrow> (w, \<lparr>windowSlices = [], windowState = WINDOW_FILLING\<rparr>)) = (key, entry)" by (metis prod.collapse)
  let ?ws1 = "omap_set (windowEnd w)
           (key, entry\<lparr>windowState := WINDOW_FILLING, windowSlices := windowSlices entry @ [s]\<rparr>) ws"
  have fw: "freshWindow a done E w" "list_all (freshWindow a done E) rest" using "2.prems"(3) by auto
  note st = set_window_entry [OF "2.prems"(1,2) fw(1) look refl [of ?ws1]]
  from "2.IH" [OF look [symmetric] refl st(3,4) fw(2)] obtain ws' where
    ws': "addSliceToWindows s rest ?ws1 = Inr ws'" "omap_wf ws'" "\<forall>e \<in> set ws'. entry_inv a done E e"
    "extends_windows ?ws1 ws'" "\<forall>w \<in> set rest. \<exists>en. (windowEnd w, w, en) \<in> set ws' \<and> s \<in> set (windowSlices en)"
    by auto
  have "\<exists>en. (windowEnd w, w, en) \<in> set ws' \<and> s \<in> set (windowSlices en)"
    using st(6) ws'(4) unfolding extends_windows_def by (meson subsetD)
  then show ?case
    using ws' st(2,5) look extends_windows_trans by (auto simp: Let_def)
qed

text \<open>Replacing windows and slices while emissions and counter stay.\<close>

lemma store_inv_update:
  assumes inv: "store_inv st W done H E"
    and sel: "sliceAssigner st' = sliceAssigner st" "sequenceNumberCounter st' = sequenceNumberCounter st"
    and ws: "omap_wf (windows st')" "\<And>e. e \<in> set (windows st') \<Longrightarrow> entry_inv (sliceAssigner st) done E e"
    and act: "numberOfActiveOrigins st' = 0 \<Longrightarrow> numberOfActiveOrigins st = 0"
      "\<And>e. numberOfActiveOrigins st = 0 \<Longrightarrow> e \<in> set (windows st') \<Longrightarrow> e \<in> set (windows st)"
      "numberOfActiveOrigins st' > 0 \<Longrightarrow> numberOfActiveOrigins st > 0"
    and ss: "omap_wf (slices st')"
      "\<And>k s. (k, s) \<in> set (slices st') \<Longrightarrow> k = sliceEnd s \<and> (\<exists>ts \<in> H'. sliceOf (sliceAssigner st) ts s)"
    and H': "\<And>ts. ts \<in> H' \<Longrightarrow> assigner_ok (sliceAssigner st) ts"
      "\<And>ts w. ts \<in> H' \<Longrightarrow> windowOf (sliceAssigner st) ts w \<Longrightarrow>
         storedFor (sliceAssigner st) ts (windows st') w \<or> emittedWith (sliceAssigner st) ts E w"
  shows "store_inv st' W done H' E"
  unfolding store_inv_def Let_def sel
proof (intro conjI)
  let ?a = "sliceAssigner st"
  show "omap_wf (windows st')" "\<forall>e \<in> set (windows st'). entry_inv ?a done E e" using ws by auto
  show "numberOfActiveOrigins st' = 0 \<longrightarrow> (\<forall>e \<in> set (windows st'). \<not> notEmitted e)"
    using act inv by (simp add: store_inv_def Let_def)
  show "0 < numberOfActiveOrigins st' \<longrightarrow> (\<forall>e \<in> set E. windowEnd (fst e) < W)"
    using act(3) inv by (simp add: store_inv_def Let_def)
  show "\<forall>(k, s) \<in> set (slices st'). k = sliceEnd s \<and> (\<exists>ts \<in> H'. sliceOf ?a ts s)" using ss(2) by blast
  show "\<forall>ts \<in> H'. assigner_ok ?a ts \<and> (\<forall>w. windowOf ?a ts w \<longrightarrow>
      storedFor ?a ts (windows st') w \<or> emittedWith ?a ts E w)" using H' by blast
  show "omap_wf (slices st')" by (rule ss(1))
qed (use inv in \<open>simp_all add: store_inv_def Let_def\<close>)

lemmas store_invD = store_inv_def [unfolded Let_def, THEN iffD1]

lemma store_inv_facts:
  assumes "store_inv st W done H E"
  shows "omap_wf (windows st)" "list_all entry_wf (windows st)"
    "e \<in> set (windows st) \<Longrightarrow> entry_inv (sliceAssigner st) done E e"
    "omap_wf (slices st)" "(k, s) \<in> set (slices st) \<Longrightarrow> k = sliceEnd s \<and> (\<exists>ts \<in> H. sliceOf (sliceAssigner st) ts s)"
    "ts \<in> H \<Longrightarrow> assigner_ok (sliceAssigner st) ts"
    "ts \<in> H \<Longrightarrow> windowOf (sliceAssigner st) ts w \<Longrightarrow>
       storedFor (sliceAssigner st) ts (windows st) w \<or> emittedWith (sliceAssigner st) ts E w"
    "done \<le> W" "numberOfActiveOrigins st > 0 \<Longrightarrow> x \<in> set E \<Longrightarrow> windowEnd (fst x) < W"
    "numberOfActiveOrigins st = 0 \<Longrightarrow> e \<in> set (windows st) \<Longrightarrow> \<not> notEmitted e"
  using store_invD [OF assms] by (auto intro: entry_inv_wf)

section \<open>Every operation keeps the invariant\<close>

lemma slice_end_start:
  assumes "assigner_ok a t" "assigner_ok a u" "getSliceEndTs a t = getSliceEndTs a u"
  shows "getSliceStartTs a t = getSliceStartTs a u"
proof -
  have D: "0 < unat (windowSlide a)" using assms(1) by (simp add: assigner_ok_def word_less_nat_alt)
  have D': "0 < windowSlide a" using assms(1) by (simp add: assigner_ok_def)
  let ?s = "sliceStartN (unat (windowSize a)) (unat (windowSlide a))"
  let ?e = "sliceEndN (unat (windowSize a)) (unat (windowSlide a))"
  have e: "?e (unat t) = ?e (unat u)"
    using assms unat_getSliceEndTs by metis
  have aux: "?s y = ?s x" if "x \<le> y" "?e x = ?e y" for x y
    using sliceN_partition(1) [OF D, of _ x y] sliceN_bounds [OF D, where W = "unat (windowSize a)"] that
    by (metis order_trans)
  have "?s (unat t) = ?s (unat u)"
    using aux [of "unat t" "unat u"] aux [of "unat u" "unat t"] e by (metis nat_le_linear)
  then show ?thesis by (intro u64_eqI) (simp add: unat_getSliceStartTs [OF D'])
qed

lemma store_inv_trigger:
  assumes inv: "store_inv st W done H E"
    and trig: "getTriggerableWindowSlices lock st wm = (st', out)"
  shows "store_inv st' (max W wm) (if lock then max done wm else done) H (E @ out)"
proof (cases lock)
  case False
  then have "st' = st" "out = []" using trig by (auto simp: getTriggerableWindowSlices_def)
  moreover have "W \<le> max W wm" by simp
  ultimately show ?thesis
    using inv False by (auto simp: store_inv_def Let_def less_max_iff_disj le_max_iff_disj)
next
  case True
  have wf: "omap_wf (windows st)" "list_all entry_wf (windows st)"
    using inv by (auto simp: store_inv_def Let_def intro: entry_inv_wf)
  let ?F = "filter (triggerable wm) (windows st)"
  have st': "st' = st\<lparr>numberOfActiveOrigins := numberOfActiveOrigins st,
      windows := markEmitted (triggerable wm) (windows st),
      sequenceNumberCounter := sequenceNumberCounter st + of_nat (length ?F)\<rparr>"
    and out: "out = numbered (sequenceNumberCounter st) ?F"
    using trig True by (auto simp: getTriggerableWindowSlices_def triggerLoop_spec [OF wf])
  have "store_inv st' (max W wm) (max done wm) H (E @ numbered (sequenceNumberCounter st) ?F)"
  proof (rule store_inv_emit [OF inv _ refl _ _ _ _ st'])
    show "notEmitted e" if "triggerable wm e" for e
      using that by (simp add: triggerable_def notEmitted_def)
    show "max done wm \<le> max W wm" using inv by (auto simp: store_inv_def Let_def max_def)
    show "max done wm \<le> windowEnd (fst (snd e))"
      if "e \<in> set (windows st)" "\<not> triggerable wm e" "notEmitted e" for e
    proof -
      have "entry_inv (sliceAssigner st) done E e" using inv that(1) by (auto simp: store_inv_def Let_def)
      then show ?thesis using that(2,3) by (auto simp: entry_inv_def triggerable_def notEmitted_def)
    qed
  qed (use inv in \<open>auto simp: store_inv_def Let_def triggerable_def less_max_iff_disj\<close>)
  then show ?thesis using True out by simp
qed

lemma store_inv_terminate:
  assumes inv: "store_inv st W done H E" and act: "numberOfActiveOrigins st > 0"
  shows "\<exists>st' out. getAllNonTriggeredSlices st = Inr (st', out) \<and> store_inv st' W done H (E @ out)
     \<and> numberOfActiveOrigins st' = numberOfActiveOrigins st - 1 \<and> sliceAssigner st' = sliceAssigner st"
proof -
  let ?act = "numberOfActiveOrigins st - 1"
  have wf: "omap_wf (windows st)" "list_all entry_wf (windows st)"
    using inv by (auto simp: store_inv_def Let_def intro: entry_inv_wf)
  show ?thesis
  proof (cases "?act = 0")
    case True
    let ?F = "filter notEmitted (windows st)"
    define st' where "st' = st\<lparr>numberOfActiveOrigins := 0, windows := markEmitted notEmitted (windows st),
      sequenceNumberCounter := sequenceNumberCounter st + of_nat (length ?F)\<rparr>"
    have "getAllNonTriggeredSlices st = Inr (st', numbered (sequenceNumberCounter st) ?F)"
      using act True nonTriggeredLoop_last [OF wf(2)] by (simp add: getAllNonTriggeredSlices_def st'_def)
    moreover have "store_inv st' W done H (E @ numbered (sequenceNumberCounter st) ?F)"
      by (rule store_inv_emit [OF inv _ refl _ _ _ _ st'_def])
        (use inv in \<open>auto simp: store_inv_def Let_def\<close>)
    ultimately show ?thesis using True by (auto simp: st'_def)
  next
    case False
    then have pos: "0 < ?act" by (simp add: word_greater_zero_iff)
    define st' where "st' = st\<lparr>numberOfActiveOrigins := ?act, windows := map waitEntry (windows st)\<rparr>"
    have "getAllNonTriggeredSlices st = Inr (st', [])"
      using act by (simp add: getAllNonTriggeredSlices_def st'_def Let_def nonTriggeredLoop_waiting [OF pos])
    moreover have "store_inv st' W done H E"
    proof (rule store_inv_update [OF inv])
      have "map fst (windows st') = map fst (windows st)" by (simp add: waitEntry_def st'_def)
      then show "omap_wf (windows st')" using wf(1) by (simp only: omap_wf_def)
      show "entry_inv (sliceAssigner st) done E e" if "e \<in> set (windows st')" for e
      proof -
        obtain e0 where e0: "e0 \<in> set (windows st)" "e = waitEntry e0"
          using \<open>e \<in> _\<close> by (force simp: st'_def)
        from store_inv_facts(3) [OF inv e0(1)] show ?thesis
          by (auto simp: e0(2) entry_inv_def entry_wf_def waitEntry_def)
      qed
      show "storedFor (sliceAssigner st) ts (windows st') w \<or> emittedWith (sliceAssigner st) ts E w"
        if "ts \<in> H" "windowOf (sliceAssigner st) ts w" for ts w
      proof -
        have "storedFor (sliceAssigner st) ts (map waitEntry (windows st)) w" if "storedFor (sliceAssigner st) ts (windows st) w"
          using that by (force simp: storedFor_def waitEntry_def)
        then show ?thesis using store_inv_facts(7) [OF inv that] by (auto simp: st'_def)
      qed
    qed (use store_inv_facts [OF inv] act pos in \<open>auto simp: st'_def\<close>)
    ultimately show ?thesis by (auto simp: st'_def)
  qed
qed

lemma store_inv_collect:
  assumes inv: "store_inv st W done H E"
  shows "store_inv (garbageCollectSlicesAndWindows lw ls st wm) W done H E"
proof -
  let ?a = "sliceAssigner st"
  define st1 where "st1 = (if lw then st\<lparr>windows := collectWindows wm (windows st)\<rparr> else st)"
  have wf: "omap_wf (windows st)" "list_all entry_wf (windows st)"
    using inv by (auto simp: store_inv_def Let_def intro: entry_inv_wf)
  have stored: "storedFor ?a ts (collectWindows wm (windows st)) w \<or> emittedWith ?a ts E w"
    if "storedFor ?a ts (windows st) w" for ts w
  proof -
    obtain en where en: "(windowEnd w, w, en) \<in> set (windows st)" "\<exists>s \<in> set (windowSlices en). sliceOf ?a ts s"
      using \<open>storedFor _ _ _ _\<close> by (auto simp: storedFor_def)
    show ?thesis
    proof (cases "(windowEnd w, w, en) \<in> set (collectWindows wm (windows st))")
      case True
      then show ?thesis using en(2) by (auto simp: storedFor_def)
    next
      case False
      then have "windowState en = EMITTED_TO_PROBE"
        using en(1) by (auto simp: collectWindows_filter [OF wf])
      moreover have "entry_inv ?a done E (windowEnd w, w, en)" using inv en(1) by (auto simp: store_inv_def Let_def)
      ultimately show ?thesis using en(2) by (auto simp: entry_inv_def emittedWith_def)
    qed
  qed
  have sub: "set (collectWindows wm (windows st)) \<subseteq> set (windows st)" "omap_wf (collectWindows wm (windows st))"
    using omap_wf_filter [OF wf(1)] by (auto simp: collectWindows_filter [OF wf])
  have "store_inv (st\<lparr>windows := collectWindows wm (windows st)\<rparr>) W done H E"
    by (rule store_inv_update [OF inv]) (use store_inv_facts [OF inv] sub stored in \<open>simp_all\<close>, (blast+)?)
  then have inv1: "store_inv st1 W done H E" using inv by (simp add: st1_def)
  have "store_inv (st1\<lparr>slices := collectSlices n wm (slices st1)\<rparr>) W done H E" for n
    by (rule store_inv_update [OF inv1])
      (use store_inv_facts [OF inv1] collectSlices_subset [of n wm "slices st1"] omap_wf_collectSlices [of "slices st1" n wm]
        in \<open>simp_all\<close>, (blast+)?)
  then show ?thesis
    using inv1 by (simp add: garbageCollectSlicesAndWindows_def st1_def [symmetric] Let_def)
qed

text \<open>The callback creates one slice with the requested boundaries.\<close>

definition creates_slice :: "(u64 \<Rightarrow> u64 \<Rightarrow> 'p Slice list) \<Rightarrow> bool" where
  "creates_slice mk \<longleftrightarrow> (\<forall>b e. \<exists>s. mk b e = [s] \<and> sliceStart s = b \<and> sliceEnd s = e)"

lemma store_inv_getOrCreate:
  assumes inv: "store_inv st W done H E" and mk: "creates_slice mk"
    and ts: "assigner_ok (sliceAssigner st) ts" "W \<le> ts" and act: "numberOfActiveOrigins st > 0"
  shows "\<exists>st' s. getSlicesOrCreate mk st ts = Inr (st', [s]) \<and> sliceOf (sliceAssigner st) ts s
     \<and> store_inv st' W done (insert ts H) E
     \<and> numberOfActiveOrigins st' = numberOfActiveOrigins st \<and> sliceAssigner st' = sliceAssigner st"
proof -
  let ?a = "sliceAssigner st" let ?b = "getSliceStartTs ?a ts" let ?e = "getSliceEndTs ?a ts"
  obtain infos where infos: "getAllWindowsForSlice ?a ?b ?e = Some infos"
    "\<And>w. w \<in> set infos \<longleftrightarrow> windowOf ?a ts w"
    using getAllWindowsForSlice_windows [OF ts(1)] by (auto simp: windowOf_def)
  have slicesOK: "k = sliceEnd s \<and> (\<exists>ts \<in> H. sliceOf ?a ts s)" if "(k, s) \<in> set (slices st)" for k s
    using inv that by (auto simp: store_inv_def Let_def)
  show ?thesis
  proof (cases "omap_find ?e (slices st)")
    case (Some s)
    from omap_find_in [OF this] slicesOK obtain t where t: "t \<in> H" "sliceOf ?a t s" "sliceEnd s = ?e" by metis
    have okt: "assigner_ok ?a t" using inv t(1) by (simp add: store_inv_def Let_def)
    have "getSliceEndTs ?a t = ?e" using t by (simp add: sliceOf_def)
    then have same: "getSliceStartTs ?a t = ?b" by (rule slice_end_start [OF okt ts(1)])
    have sl: "sliceOf ?a ts = (sliceOf ?a t :: 'a Slice \<Rightarrow> bool)"
      using same \<open>getSliceEndTs ?a t = ?e\<close> by (simp add: fun_eq_iff sliceOf_def)
    have "windowOf ?a ts w = windowOf ?a t w" for w
      using window_contains_slice [OF ts(1)] window_contains_slice [OF okt] same \<open>getSliceEndTs ?a t = ?e\<close>
      by (auto simp: windowOf_def)
    then have "\<forall>w. windowOf ?a ts w \<longrightarrow> storedFor ?a ts (windows st) w \<or> emittedWith ?a ts E w"
      using inv t(1) by (simp add: store_inv_def Let_def storedFor_def emittedWith_def sl)
    then have "store_inv st W done (insert ts H) E"
      using inv ts(1) by (auto simp: store_inv_def Let_def)
    with Some t sl show ?thesis by (simp add: getSlicesOrCreate_def Let_def)
  next
    case None
    obtain s where s: "mk ?b ?e = [s]" "sliceStart s = ?b" "sliceEnd s = ?e"
      using mk unfolding creates_slice_def by blast
    have wf: "omap_wf (windows st)" "\<forall>e \<in> set (windows st). entry_inv ?a done E e" "done \<le> W"
      and EW: "\<forall>e \<in> set E. windowEnd (fst e) < W"
      using inv act by (auto simp: store_inv_def Let_def)
    have "freshWindow ?a done E w" if "w \<in> set infos" for w
    proof -
      have w: "isWindow ?a w" "ts < windowEnd w" using that infos(2) by (auto simp: windowOf_def)
      then have "W < windowEnd w" using ts(2) by simp
      then show ?thesis using w(1) EW wf(3) by (auto simp: freshWindow_def)
    qed
    then have fresh: "list_all (freshWindow ?a done E) infos" by (simp add: list_all_iff)
    obtain ws' where ws': "addSliceToWindows s infos (windows st) = Inr ws'" "omap_wf ws'"
      "\<forall>e \<in> set ws'. entry_inv ?a done E e" "extends_windows (windows st) ws'"
      "\<forall>w \<in> set infos. \<exists>en. (windowEnd w, w, en) \<in> set ws' \<and> s \<in> set (windowSlices en)"
      using addSliceToWindows_correct [OF wf(1,2) fresh, of s] by blast
    define st' where "st' = st\<lparr>slices := omap_emplace ?e s (slices st), windows := ws'\<rparr>"
    have sls: "sliceOf ?a ts s" using s by (simp add: sliceOf_def)
    have new: "storedFor ?a ts ws' w" if "windowOf ?a ts w" for w
      using that ws'(5) infos(2) sls unfolding storedFor_def by blast
    have old: "storedFor ?a t ws' w" if "storedFor ?a t (windows st) w" for t w
      using storedFor_extends [OF ws'(4) that] .
    have wfs: "omap_wf (slices st)" using inv by (simp add: store_inv_def Let_def)
    have sl': "k = sliceEnd s' \<and> (\<exists>t \<in> insert ts H. sliceOf ?a t s')" if "(k, s') \<in> set (omap_emplace ?e s (slices st))" for k s'
      using that slicesOK [of k s'] s(3) sls None
      by (auto simp: omap_emplace_def omap_set_in [OF wfs])
    have cover: "storedFor ?a t ws' w \<or> emittedWith ?a t E w" if "t \<in> insert ts H" "windowOf ?a t w" for t w
    proof (cases "t = ts")
      case False
      then have "storedFor ?a t (windows st) w \<or> emittedWith ?a t E w"
        using inv that by (simp add: store_inv_def Let_def)
      then show ?thesis using old by blast
    qed (use that new in blast)
    have "store_inv st' W done (insert ts H) E"
    proof (rule store_inv_update [OF inv])
      show "omap_wf (slices st')" using wfs by (simp add: st'_def omap_wf_emplace)
      show "k = sliceEnd s' \<and> (\<exists>t \<in> insert ts H. sliceOf ?a t s')" if "(k, s') \<in> set (slices st')" for k s'
        using that sl' by (simp add: st'_def)
      show "storedFor ?a t (windows st') w \<or> emittedWith ?a t E w" if "t \<in> insert ts H" "windowOf ?a t w" for t w
        using cover [OF that] by (simp add: st'_def)
      show "assigner_ok ?a t" if "t \<in> insert ts H" for t
        using that ts(1) store_inv_facts(6) [OF inv] by blast
    qed (use act ws'(2,3) in \<open>simp_all add: st'_def\<close>)
    moreover have "getSlicesOrCreate mk st ts = Inr (st', [s])"
      using None s infos(1) ws'(1) by (simp add: getSlicesOrCreate_def insertSliceLocked_def Let_def st'_def)
    ultimately show ?thesis using sls by (auto simp: st'_def)
  qed
qed

section \<open>Properties\<close>

text \<open>
  A trace is admissible when a timestamp is only asked for while an origin is active and it is not late,
  that is, not behind a watermark some trigger was attempted with.
\<close>

fun admissibleTrace :: "SliceAssigner \<Rightarrow> u64 \<Rightarrow> u64 \<Rightarrow> storeOp list \<Rightarrow> bool" where
  "admissibleTrace a W active [] \<longleftrightarrow> True"
| "admissibleTrace a W active (GetOrCreate ts # ps) \<longleftrightarrow>
     assigner_ok a ts \<and> W \<le> ts \<and> active > 0 \<and> admissibleTrace a W active ps"
| "admissibleTrace a W active (Trigger lock wm # ps) \<longleftrightarrow> admissibleTrace a (max W wm) active ps"
| "admissibleTrace a W active (Terminate # ps) \<longleftrightarrow> active > 0 \<and> admissibleTrace a W (active - 1) ps"
| "admissibleTrace a W active (GarbageCollect lw ls wm # ps) \<longleftrightarrow> admissibleTrace a W active ps"

definition requested :: "storeOp list \<Rightarrow> u64 set" where
  "requested ps = {ts. GetOrCreate ts \<in> set ps}"

fun triggeredUpTo :: "u64 \<Rightarrow> storeOp list \<Rightarrow> u64" where
  "triggeredUpTo d [] = d"
| "triggeredUpTo d (Trigger lock wm # ps) = triggeredUpTo (if lock then max d wm else d) ps"
| "triggeredUpTo d (_ # ps) = triggeredUpTo d ps"

lemma getTriggerable_fields:
  "getTriggerableWindowSlices lock st wm = (st', out) \<Longrightarrow>
   numberOfActiveOrigins st' = numberOfActiveOrigins st \<and> sliceAssigner st' = sliceAssigner st"
  by (auto simp: getTriggerableWindowSlices_def split: if_splits prod.splits)

lemma collect_fields:
  "numberOfActiveOrigins (garbageCollectSlicesAndWindows lw ls st wm) = numberOfActiveOrigins st"
  "sliceAssigner (garbageCollectSlicesAndWindows lw ls st wm) = sliceAssigner st"
  by (simp_all add: garbageCollectSlicesAndWindows_def Let_def)

lemma runOps_inv:
  assumes "store_inv st W done H E" "creates_slice mk"
    "admissibleTrace (sliceAssigner st) W (numberOfActiveOrigins st) ps"
  shows "\<exists>st' W' out. runOps mk st ps = Inr (st', out) \<and> sliceAssigner st' = sliceAssigner st
     \<and> store_inv st' W' (triggeredUpTo done ps) (H \<union> requested ps) (E @ out)"
  using assms
proof (induction ps arbitrary: st W "done" H E)
  case (Cons p ps)
  have step: ?case
    if "runOp mk st p = Inr (st1, out1)" "sliceAssigner st1 = sliceAssigner st"
      "store_inv st1 W1 done1 H1 (E @ out1)" "admissibleTrace (sliceAssigner st1) W1 (numberOfActiveOrigins st1) ps"
      "triggeredUpTo done1 ps = triggeredUpTo done (p # ps)" "H1 \<union> requested ps = H \<union> requested (p # ps)"
    for st1 out1 W1 done1 H1
    using Cons.IH [OF that(3) Cons.prems(2) that(4)] that by auto
  show ?case
  proof (cases p)
    case (GetOrCreate ts)
    then obtain st1 s where "getSlicesOrCreate mk st ts = Inr (st1, [s])" "store_inv st1 W done (insert ts H) E"
      "numberOfActiveOrigins st1 = numberOfActiveOrigins st" "sliceAssigner st1 = sliceAssigner st"
      using store_inv_getOrCreate [OF Cons.prems(1,2), of ts] Cons.prems(3) by auto
    then show ?thesis
      using step [of st1 "[]" W "done" "insert ts H"] GetOrCreate Cons.prems(3)
      by (auto simp: requested_def)
  next
    case (Trigger lock wm)
    obtain st1 out1 where t: "getTriggerableWindowSlices lock st wm = (st1, out1)" by fastforce
    show ?thesis
      using step [of st1 out1, OF _ _ store_inv_trigger [OF Cons.prems(1) t]] getTriggerable_fields [OF t]
        Trigger t Cons.prems(3) by (auto simp: requested_def)
  next
    case Terminate
    then obtain st1 out1 where "getAllNonTriggeredSlices st = Inr (st1, out1)" "store_inv st1 W done H (E @ out1)"
      "numberOfActiveOrigins st1 = numberOfActiveOrigins st - 1" "sliceAssigner st1 = sliceAssigner st"
      using store_inv_terminate [OF Cons.prems(1)] Cons.prems(3) by auto
    then show ?thesis using step [of st1 out1] Terminate Cons.prems(3) by (auto simp: requested_def)
  next
    case (GarbageCollect lw ls wm)
    show ?thesis
      using step [of "garbageCollectSlicesAndWindows lw ls st wm" "[]", OF _ _ _ _] GarbageCollect
        store_inv_collect [OF Cons.prems(1), of lw ls wm] Cons.prems(3)
      by (auto simp: requested_def collect_fields)
  qed
qed (auto simp: requested_def)

lemma store_inv_complete:
  assumes inv: "store_inv st W done H E" and ts: "ts \<in> H" "windowOf (sliceAssigner st) ts w"
    and due: "windowEnd w < done \<or> numberOfActiveOrigins st = 0"
  shows "emittedWith (sliceAssigner st) ts E w"
proof -
  consider "emittedWith (sliceAssigner st) ts E w" | en where "(windowEnd w, w, en) \<in> set (windows st)"
    "\<exists>s \<in> set (windowSlices en). sliceOf (sliceAssigner st) ts s"
    using store_inv_facts(7) [OF inv ts] by (auto simp: storedFor_def)
  then show ?thesis
  proof cases
    case (2 en)
    have "entry_inv (sliceAssigner st) done E (windowEnd w, w, en)" using store_inv_facts(3) [OF inv 2(1)] .
    moreover have "windowState en = EMITTED_TO_PROBE"
      using calculation due store_inv_facts(10) [OF inv _ 2(1)]
      by (auto simp: entry_inv_def notEmitted_def split: if_splits)
    ultimately show ?thesis using 2(2) by (auto simp: entry_inv_def emittedWith_def)
  qed
qed

text \<open>
  C1. For any interleaving of lookups, triggers (whether or not they get the lock), terminations of
  origins and garbage collections without late timestamps, no assertion of the store fails, every
  window is emitted at most once, the emissions carry the consecutive sequence numbers 1, 2, 3, ..., and
  nothing is lost: for every requested timestamp and every window that contains it, once the window
  lies behind a successful trigger's watermark or all origins have terminated, the window has been
  emitted together with the slice of the timestamp.
\<close>

theorem store_trace_correct:
  assumes "creates_slice mk"
    and "admissibleTrace \<lparr>windowSize = wSize, windowSlide = wSlide\<rparr> 0 (ucast origins) ps"
  shows "\<exists>st E. runOps mk (newSliceStore wSize wSlide origins) ps = Inr (st, E)
     \<and> distinct (map fst E) \<and> map (\<lambda>e. fst (snd e)) E = map (\<lambda>i. of_nat (i + 1)) [0..<length E]
     \<and> (\<forall>ts \<in> requested ps. \<forall>w. windowOf \<lparr>windowSize = wSize, windowSlide = wSlide\<rparr> ts w
          \<and> (windowEnd w < triggeredUpTo 0 ps \<or> numberOfActiveOrigins st = 0)
          \<longrightarrow> emittedWith \<lparr>windowSize = wSize, windowSlide = wSlide\<rparr> ts E w)"
proof -
  let ?a = "\<lparr>windowSize = wSize, windowSlide = wSlide\<rparr>"
  have a: "sliceAssigner (newSliceStore wSize wSlide origins) = ?a"
    "numberOfActiveOrigins (newSliceStore wSize wSlide origins) = ucast origins" by (simp_all add: newSliceStore_def)
  obtain st W E where run: "runOps mk (newSliceStore wSize wSlide origins) ps = Inr (st, E)"
    "sliceAssigner st = ?a" and inv: "store_inv st W (triggeredUpTo 0 ps) (requested ps) E"
    using runOps_inv [OF store_inv_init assms(1), of wSize wSlide origins ps] assms(2) unfolding a by auto
  have "distinct (map fst E)" "map (\<lambda>e. fst (snd e)) E = map (\<lambda>i. of_nat (i + 1)) [0..<length E]"
    using store_invD [OF inv] by blast+
  with run store_inv_complete [OF inv] show ?thesis by auto
qed

theorem store_trace_correct_witness:
  "\<exists>st E. runOps (\<lambda>b e. [\<lparr>sliceStart = b, sliceEnd = e, slicePayload = ()\<rparr>]) (newSliceStore 10 5 1)
       [GetOrCreate 3, GetOrCreate 12, Trigger True 11, GarbageCollect True True 11, Terminate] = Inr (st, E)
     \<and> distinct (map fst E) \<and> emittedWith \<lparr>windowSize = 10, windowSlide = 5\<rparr> 3 E (WindowInfo 0 10)"
proof -
  let ?mk = "\<lambda>b e. [\<lparr>sliceStart = b, sliceEnd = e, slicePayload = ()\<rparr>]"
  let ?ps = "[GetOrCreate 3, GetOrCreate 12, Trigger True 11, GarbageCollect True True 11, Terminate]"
  let ?a = "\<lparr>windowSize = 10, windowSlide = 5\<rparr> :: SliceAssigner"
  have "creates_slice ?mk" by (simp add: creates_slice_def)
  moreover have "admissibleTrace ?a 0 (ucast (1 :: 8 word)) ?ps" by (simp add: assigner_ok_def)
  moreover have "3 \<in> requested ?ps" by (simp add: requested_def)
  moreover have "windowOf ?a 3 (WindowInfo 0 10)" "windowEnd (WindowInfo 0 10) < triggeredUpTo 0 ?ps"
    by (simp_all add: windowOf_def isWindow_def)
  ultimately show ?thesis
    using store_trace_correct [of ?mk 10 5 1 ?ps] by metis
qed

lemma addSliceToWindows_emitted:
  assumes "omap_wf ws" "sorted_wrt (<) (map windowEnd infos)" "w \<in> set infos"
    "omap_find (windowEnd w) ws = Some (w', en)" "windowState en = EMITTED_TO_PROBE"
  shows "addSliceToWindows s infos ws = Inl InvariantViolated"
  using assms
proof (induction s infos ws rule: addSliceToWindows.induct)
  case (2 s v rest ws)
  show ?case
  proof (cases "v = w")
    case True
    with "2.prems" show ?thesis by simp
  next
    case False
    then have w: "w \<in> set rest" "windowEnd v \<noteq> windowEnd w" using "2.prems"(2,3) by auto
    have rest: "sorted_wrt (<) (map windowEnd rest)" using "2.prems"(2) by simp
    obtain key entry where look: "(case omap_find (windowEnd v) ws of Some e \<Rightarrow> e
      | None \<Rightarrow> (v, \<lparr>windowSlices = [], windowState = WINDOW_FILLING\<rparr>)) = (key, entry)" by (metis prod.collapse)
    show ?thesis
      using "2.IH" [OF look [symmetric] refl _ rest w(1) _ "2.prems"(5)] "2.prems"(1,4) w(2) look
      by (cases "windowState entry = EMITTED_TO_PROBE") (simp_all add: omap_wf_set)
  qed
qed simp


definition triggeredExample :: "unit SliceStore" where
  "triggeredExample = (newSliceStore 10 5 1)\<lparr>windows :=
     [(10, WindowInfo 0 10, \<lparr>windowSlices = [\<lparr>sliceStart = 0, sliceEnd = 5, slicePayload = ()\<rparr>],
        windowState = EMITTED_TO_PROBE\<rparr>)]\<rparr>"


text \<open>After garbage collection a late timestamp re-creates its window, which is then emitted again.\<close>

lemma late_window_emitted_twice:
  "(case runOps (\<lambda>b e. [\<lparr>sliceStart = b, sliceEnd = e, slicePayload = ()\<rparr>]) (newSliceStore 10 10 1)
      [GetOrCreate 3, Trigger True 11, GarbageCollect True True 21, GetOrCreate 4, Trigger True 22] of
      Inl _ \<Rightarrow> [] | Inr (_, E) \<Rightarrow> map (\<lambda>e. (windowEnd (fst e), fst (snd e))) E) = [(10, 1), (10, 2)]"
  by code_simp

end
