(* ===== verification/WindowHandler.thy ===== *)
theory WindowHandler
  imports Watermark SliceStore
begin

text \<open>
  The window-based operator handler (\<open>src/nes-physical-operators/src/WindowBasedOperatorHandler.cpp\<close>) with
  the trigger proxies of \<open>WindowBuildPhysicalOperator.cpp\<close> and \<open>WindowProbePhysicalOperator.cpp\<close>, and what the
  join and aggregation handlers emit for triggered windows
  (\<open>Join/StreamJoinOperatorHandler.cpp\<close>, \<open>Join/NestedLoopJoin/NLJOperatorHandler.cpp\<close>,
  \<open>Aggregation/AggregationOperatorHandler.cpp\<close>).

  The handler calls a watermark processor and a slice store; both are parameters of its operations.
  The locale \<open>window_store\<close> is the contract of the store, \<open>window_handler\<close> joins it with the contract of
  the queues behind the watermark processor, and the interpretations discharge both for the code.
  \<open>triggerSlices\<close> is virtual: the base handler returns the windows it would pass to it.
\<close>

section \<open>The handler\<close>

record BufferMetaData =
  bufferWatermarkTs :: u64
  bufferSeqNumber :: SequenceData
  bufferOriginId :: u64

record ('s, 'q) WindowBasedOperatorHandler =
  sliceAndWindowStore :: 's
  watermarkProcessorBuild :: "'q MultiOriginWatermarkProcessor option"
  watermarkProcessorProbe :: "'q MultiOriginWatermarkProcessor option"
  numberOfWorkerThreads :: u64
  sequentialProcessing :: bool
  outputOriginId :: u64
  inputOrigins :: "u64 list"

definition newHandler :: "u64 list \<Rightarrow> u64 \<Rightarrow> 's \<Rightarrow> bool \<Rightarrow> ('s, 'q) WindowBasedOperatorHandler" where
  "newHandler inputs outputOrigin store sequential =
     \<lparr>sliceAndWindowStore = store, watermarkProcessorBuild = None, watermarkProcessorProbe = None,
      numberOfWorkerThreads = 0, sequentialProcessing = sequential, outputOriginId = outputOrigin,
      inputOrigins = inputs\<rparr>"

definition setWorkerThreads ::
  "('s, 'q) WindowBasedOperatorHandler \<Rightarrow> u64 \<Rightarrow> ('s, 'q) WindowBasedOperatorHandler" where
  "setWorkerThreads h n = h\<lparr>numberOfWorkerThreads := n\<rparr>"

definition start :: "'q \<Rightarrow> ('s, 'q) WindowBasedOperatorHandler \<Rightarrow> u64 \<Rightarrow> ('s, 'q) WindowBasedOperatorHandler" where
  "start emptyQ h workerThreads =
     h\<lparr>numberOfWorkerThreads := workerThreads,
       watermarkProcessorBuild := Some (createProcessor emptyQ (inputOrigins h)),
       watermarkProcessorProbe := Some (createProcessor emptyQ [outputOriginId h])\<rparr>"

definition checkAndTriggerWindows ::
  "('q \<Rightarrow> SequenceData \<Rightarrow> u64 \<Rightarrow> 'q result) \<Rightarrow> ('q \<Rightarrow> u64 result)
     \<Rightarrow> ('s \<Rightarrow> u64 \<Rightarrow> 's \<times> 'p emission list)
     \<Rightarrow> ('s, 'q) WindowBasedOperatorHandler \<Rightarrow> BufferMetaData
     \<Rightarrow> (('s, 'q) WindowBasedOperatorHandler \<times> 'p emission list) result" where
  "checkAndTriggerWindows emplaceOp valueOp trigger h bufferMetaData =
     (case watermarkProcessorBuild h of
        None \<Rightarrow> Inl UndefinedBehaviour
      | Some p \<Rightarrow>
          andThen (updateWatermark emplaceOp valueOp p (bufferWatermarkTs bufferMetaData)
                     (bufferSeqNumber bufferMetaData) (bufferOriginId bufferMetaData))
            (\<lambda>(p', newGlobalWatermark).
               let (store', slicesAndWindowInfo) = trigger (sliceAndWindowStore h) newGlobalWatermark
               in Inr (h\<lparr>watermarkProcessorBuild := Some p', sliceAndWindowStore := store'\<rparr>, slicesAndWindowInfo)))"

definition handlerGarbageCollect ::
  "('q \<Rightarrow> SequenceData \<Rightarrow> u64 \<Rightarrow> 'q result) \<Rightarrow> ('q \<Rightarrow> u64 result) \<Rightarrow> ('s \<Rightarrow> u64 \<Rightarrow> 's)
     \<Rightarrow> ('s, 'q) WindowBasedOperatorHandler \<Rightarrow> BufferMetaData \<Rightarrow> ('s, 'q) WindowBasedOperatorHandler result" where
  "handlerGarbageCollect emplaceOp valueOp collectStore h bufferMetaData =
     (case watermarkProcessorProbe h of
        None \<Rightarrow> Inl UndefinedBehaviour
      | Some p \<Rightarrow>
          andThen (updateWatermark emplaceOp valueOp p (bufferWatermarkTs bufferMetaData)
                     (bufferSeqNumber bufferMetaData) (bufferOriginId bufferMetaData))
            (\<lambda>(p', newGlobalWaterMarkProbe).
               Inr (h\<lparr>watermarkProcessorProbe := Some p',
                      sliceAndWindowStore := collectStore (sliceAndWindowStore h) newGlobalWaterMarkProbe\<rparr>)))"

definition triggerAllWindows ::
  "('s \<Rightarrow> ('s \<times> 'p emission list) result)
     \<Rightarrow> ('s, 'q) WindowBasedOperatorHandler \<Rightarrow> (('s, 'q) WindowBasedOperatorHandler \<times> 'p emission list) result" where
  "triggerAllWindows nonTriggered h =
     andThen (nonTriggered (sliceAndWindowStore h)) (\<lambda>(store', slicesAndWindowInfo).
       Inr (h\<lparr>sliceAndWindowStore := store'\<rparr>, slicesAndWindowInfo))"

text \<open>
  The proxies the generated code of the build and probe operators calls. A null handler is \<open>None\<close>;
  \<open>ctx\<close> says whether the pipeline context is set. The build operator calls the first two when it is
  closed and terminated, the probe operator the others when it is set up and closed.
\<close>

definition checkWindowsTriggerProxy ::
  "('q \<Rightarrow> SequenceData \<Rightarrow> u64 \<Rightarrow> 'q result) \<Rightarrow> ('q \<Rightarrow> u64 result) \<Rightarrow> ('s \<Rightarrow> u64 \<Rightarrow> 's \<times> 'p emission list)
     \<Rightarrow> ('s, 'q) WindowBasedOperatorHandler option \<Rightarrow> bool \<Rightarrow> u64 \<Rightarrow> u64 \<Rightarrow> u64 \<Rightarrow> bool \<Rightarrow> u64
     \<Rightarrow> (('s, 'q) WindowBasedOperatorHandler \<times> 'p emission list) result" where
  "checkWindowsTriggerProxy emplaceOp valueOp trigger ptrOpHandler ctx wmTs seqNo chunkNo isLast originId =
     andThen (PRECONDITION (ptrOpHandler \<noteq> None)) (\<lambda>_.
     andThen (PRECONDITION ctx) (\<lambda>_.
       checkAndTriggerWindows emplaceOp valueOp trigger (the ptrOpHandler)
         \<lparr>bufferWatermarkTs = wmTs, bufferSeqNumber = SequenceData seqNo chunkNo isLast, bufferOriginId = originId\<rparr>))"

definition triggerAllWindowsProxy ::
  "('s \<Rightarrow> ('s \<times> 'p emission list) result) \<Rightarrow> ('s, 'q) WindowBasedOperatorHandler option \<Rightarrow> bool
     \<Rightarrow> (('s, 'q) WindowBasedOperatorHandler \<times> 'p emission list) result" where
  "triggerAllWindowsProxy nonTriggered ptrOpHandler ctx =
     andThen (PRECONDITION (ptrOpHandler \<noteq> None)) (\<lambda>_.
     andThen (PRECONDITION ctx) (\<lambda>_. triggerAllWindows nonTriggered (the ptrOpHandler)))"

definition garbageCollectSlicesProxy ::
  "('q \<Rightarrow> SequenceData \<Rightarrow> u64 \<Rightarrow> 'q result) \<Rightarrow> ('q \<Rightarrow> u64 result) \<Rightarrow> ('s \<Rightarrow> u64 \<Rightarrow> 's)
     \<Rightarrow> ('s, 'q) WindowBasedOperatorHandler option \<Rightarrow> u64 \<Rightarrow> u64 \<Rightarrow> u64 \<Rightarrow> bool \<Rightarrow> u64
     \<Rightarrow> ('s, 'q) WindowBasedOperatorHandler result" where
  "garbageCollectSlicesProxy emplaceOp valueOp collectStore ptrOpHandler wmTs seqNo chunkNo isLast originId =
     andThen (PRECONDITION (ptrOpHandler \<noteq> None)) (\<lambda>_.
       handlerGarbageCollect emplaceOp valueOp collectStore (the ptrOpHandler)
         \<lparr>bufferWatermarkTs = wmTs, bufferSeqNumber = SequenceData seqNo chunkNo isLast, bufferOriginId = originId\<rparr>)"

definition setupProxy ::
  "'q \<Rightarrow> ('s, 'q) WindowBasedOperatorHandler option \<Rightarrow> u64 option \<Rightarrow> ('s, 'q) WindowBasedOperatorHandler result" where
  "setupProxy emptyQ ptrOpHandler workerThreadsOfCtx =
     andThen (PRECONDITION (ptrOpHandler \<noteq> None)) (\<lambda>_.
     andThen (PRECONDITION (workerThreadsOfCtx \<noteq> None)) (\<lambda>_.
       let n = the workerThreadsOfCtx in Inr (setWorkerThreads (start emptyQ (the ptrOpHandler) n) n)))"

text \<open>A sequence of closed build buffers, each with the outcome of the lock attempt.\<close>

fun run_checks ::
  "('q \<Rightarrow> SequenceData \<Rightarrow> u64 \<Rightarrow> 'q result) \<Rightarrow> ('q \<Rightarrow> u64 result)
     \<Rightarrow> (bool \<Rightarrow> 's \<Rightarrow> u64 \<Rightarrow> 's \<times> 'p emission list)
     \<Rightarrow> ('s, 'q) WindowBasedOperatorHandler \<Rightarrow> (bool \<times> BufferMetaData) list
     \<Rightarrow> (('s, 'q) WindowBasedOperatorHandler \<times> 'p emission list list) result" where
  "run_checks emplaceOp valueOp trigger h [] = Inr (h, [])"
| "run_checks emplaceOp valueOp trigger h ((lock, md) # mds) =
     andThen (checkAndTriggerWindows emplaceOp valueOp (trigger lock) h md) (\<lambda>(h', out).
     andThen (run_checks emplaceOp valueOp trigger h' mds) (\<lambda>(h'', outs). Inr (h'', out # outs)))"

section \<open>The contract of the store\<close>

text \<open>
  \<open>pending\<close> are the windows the store still has to emit. A trigger emits only windows that end before
  the watermark, leaves no such window pending if it gets the lock, and never makes a window pending.
\<close>

locale window_store =
  fixes trigger :: "bool \<Rightarrow> 's \<Rightarrow> u64 \<Rightarrow> 's \<times> 'p emission list"
    and wf :: "'s \<Rightarrow> bool"
    and pending :: "'s \<Rightarrow> WindowInfo set"
  assumes trigger_wf: "wf st \<Longrightarrow> trigger lock st wm = (st', out) \<Longrightarrow> wf st'"
    and trigger_before: "wf st \<Longrightarrow> trigger lock st wm = (st', out) \<Longrightarrow> e \<in> set out \<Longrightarrow> windowEnd (fst e) < wm"
    and trigger_all: "wf st \<Longrightarrow> trigger True st wm = (st', out) \<Longrightarrow> w \<in> pending st' \<Longrightarrow> wm \<le> windowEnd w"
    and trigger_pending: "wf st \<Longrightarrow> trigger lock st wm = (st', out) \<Longrightarrow> pending st' \<subseteq> pending st"

locale window_handler = value_queue emptyQ emplaceOp valueOp admissible holds valueAfter + window_store trigger wf pending
  for emptyQ :: 'q and emplaceOp valueOp admissible holds valueAfter
    and trigger :: "bool \<Rightarrow> 's \<Rightarrow> u64 \<Rightarrow> 's \<times> 'p emission list" and wf pending
begin

definition eventOf :: "bool \<times> BufferMetaData \<Rightarrow> originEvent" where
  "eventOf c = (bufferOriginId (snd c), bufferSeqNumber (snd c), bufferWatermarkTs (snd c))"

lemma checkAndTriggerWindows_min:
  assumes "watermarkProcessorBuild h = Some p" "processor_inv l pre p" "wf (sliceAndWindowStore h)"
    and "bufferOriginId md \<in> set (origins p)"
    and "\<forall>oid \<in> set (origins p). admissible (l oid) (originEvents oid (pre @ [eventOf (lock, md)]))"
  obtains h' p' st' out where "checkAndTriggerWindows emplaceOp valueOp (trigger lock) h md = Inr (h', out)"
    "watermarkProcessorBuild h' = Some p'" "processor_inv l (pre @ [eventOf (lock, md)]) p'" "origins p' = origins p"
    "sliceAndWindowStore h' = st'"
    "trigger lock (sliceAndWindowStore h) (minOver l (origins p) (pre @ [eventOf (lock, md)])) = (st', out)"
proof -
  obtain p' where p': "updateWatermark emplaceOp valueOp p (bufferWatermarkTs md) (bufferSeqNumber md) (bufferOriginId md)
       = Inr (p', minOver l (origins p) (pre @ [eventOf (lock, md)]))"
    "processor_inv l (pre @ [eventOf (lock, md)]) p'" "origins p' = origins p"
    using updateWatermark_min [OF assms(2,4), of "bufferSeqNumber md" "bufferWatermarkTs md"] assms(5)
    by (auto simp: eventOf_def)
  obtain st' out where t: "trigger lock (sliceAndWindowStore h) (minOver l (origins p) (pre @ [eventOf (lock, md)])) = (st', out)"
    by fastforce
  show thesis
    by (rule that [OF _ _ p'(2,3) _ t, of "h\<lparr>watermarkProcessorBuild := Some p', sliceAndWindowStore := st'\<rparr>"])
      (simp_all add: checkAndTriggerWindows_def assms(1) p'(1) t)
qed

lemma run_checks_min:
  assumes "watermarkProcessorBuild h = Some p" "processor_inv l pre p" "wf (sliceAndWindowStore h)"
    and "\<forall>c \<in> set cs. bufferOriginId (snd c) \<in> set (origins p)"
    and "\<forall>oid \<in> set (origins p). admissible (l oid) (originEvents oid (pre @ map eventOf cs))"
  shows "\<exists>h' outs. run_checks emplaceOp valueOp trigger h cs = Inr (h', outs) \<and> length outs = length cs
     \<and> pending (sliceAndWindowStore h') \<subseteq> pending (sliceAndWindowStore h)
     \<and> (\<forall>k < length cs.
          (\<forall>e \<in> set (outs ! k). windowEnd (fst e) < minOver l (origins p) (pre @ map eventOf (take (Suc k) cs)))
        \<and> (fst (cs ! k) \<longrightarrow> (\<forall>w \<in> pending (sliceAndWindowStore h').
              minOver l (origins p) (pre @ map eventOf (take (Suc k) cs)) \<le> windowEnd w)))"
  using assms
proof (induction cs arbitrary: h p pre)
  case (Cons c cs)
  obtain lock md where c: "c = (lock, md)" by (cases c)
  have adm: "\<forall>oid \<in> set (origins p). admissible (l oid) (originEvents oid (pre @ [eventOf (lock, md)]))"
    using Cons.prems(5) admissible_first [of "origins p" l pre "eventOf (lock, md)" "map eventOf cs"] by (simp add: c)
  have origin: "bufferOriginId md \<in> set (origins p)" using Cons.prems(4) by (simp add: c)
  obtain h1 p1 st1 out where s: "checkAndTriggerWindows emplaceOp valueOp (trigger lock) h md = Inr (h1, out)"
    "watermarkProcessorBuild h1 = Some p1" "processor_inv l (pre @ [eventOf (lock, md)]) p1" "origins p1 = origins p"
    "sliceAndWindowStore h1 = st1"
    "trigger lock (sliceAndWindowStore h) (minOver l (origins p) (pre @ [eventOf (lock, md)])) = (st1, out)"
    using checkAndTriggerWindows_min [OF Cons.prems(1-3) origin adm] .
  have st1: "wf (sliceAndWindowStore h1)" using trigger_wf [OF Cons.prems(3) s(6)] s(5) by simp
  obtain h' outs where r: "run_checks emplaceOp valueOp trigger h1 cs = Inr (h', outs)" "length outs = length cs"
    "pending (sliceAndWindowStore h') \<subseteq> pending st1"
    "\<forall>k < length cs.
          (\<forall>e \<in> set (outs ! k). windowEnd (fst e) < minOver l (origins p) (pre @ map eventOf (take (Suc (Suc k)) (c # cs))))
        \<and> (fst (cs ! k) \<longrightarrow> (\<forall>w \<in> pending (sliceAndWindowStore h').
              minOver l (origins p) (pre @ map eventOf (take (Suc (Suc k)) (c # cs))) \<le> windowEnd w))"
    using Cons.IH [OF s(2,3) st1] Cons.prems(4,5) by (auto simp: c s(4,5))
  have "run_checks emplaceOp valueOp trigger h (c # cs) = Inr (h', out # outs)" using s(1) r(1) by (simp add: c)
  moreover have "(\<forall>e \<in> set ((out # outs) ! k). windowEnd (fst e) < minOver l (origins p) (pre @ map eventOf (take (Suc k) (c # cs))))
        \<and> (fst ((c # cs) ! k) \<longrightarrow> (\<forall>w \<in> pending (sliceAndWindowStore h').
              minOver l (origins p) (pre @ map eventOf (take (Suc k) (c # cs))) \<le> windowEnd w))"
    if "k < length (c # cs)" for k
  proof (cases k)
    case 0
    then show ?thesis
      using trigger_before [OF Cons.prems(3) s(6)] trigger_all [OF Cons.prems(3)] s(6) r(3) by (auto simp: c)
  next
    case (Suc j)
    then show ?thesis using r(4) that by simp
  qed
  ultimately show ?case
    using r(2,3) trigger_pending [OF Cons.prems(3) s(6)] by auto
qed simp

end

section \<open>The time-based store and the sequence queues provide the contracts\<close>

definition store_ok :: "'p SliceStore \<Rightarrow> bool" where
  "store_ok st \<longleftrightarrow> omap_wf (windows st) \<and> list_all entry_wf (windows st)"

definition pendingWindows :: "'p SliceStore \<Rightarrow> WindowInfo set" where
  "pendingWindows st = {w. \<exists>k en. (k, w, en) \<in> set (windows st) \<and> windowState en \<noteq> EMITTED_TO_PROBE}"

lemma markEmitted_wf:
  "omap_wf (markEmitted P ws) \<longleftrightarrow> omap_wf ws" "list_all entry_wf ws \<Longrightarrow> list_all entry_wf (markEmitted P ws)"
  by (simp add: omap_wf_def markEmitted_keys) (auto simp: markEmitted_def entry_wf_def list_all_iff)

lemma markEmitted_pending:
  "(k, w, en) \<in> set (markEmitted P ws) \<Longrightarrow> windowState en \<noteq> EMITTED_TO_PROBE \<Longrightarrow> (k, w, en) \<in> set ws \<and> \<not> P (k, w, en)"
  by (auto simp: markEmitted_def split: if_splits)

interpretation default_store: window_store getTriggerableWindowSlices store_ok pendingWindows
proof
  fix st st' :: "'a SliceStore" and lock wm out e w
  assume ok: "store_ok st" and t: "getTriggerableWindowSlices lock st wm = (st', out)"
  note spec = triggerLoop_spec [of "windows st" wm "sequenceNumberCounter st"]
  show "store_ok st'"
    using ok t spec by (auto simp: getTriggerableWindowSlices_def store_ok_def markEmitted_wf split: if_splits)
  show "windowEnd (fst e) < wm" if "e \<in> set out"
    using ok t spec that
      numbered_mem [of e "sequenceNumberCounter st" "filter (triggerable wm) (windows st)"]
    by (auto simp: getTriggerableWindowSlices_def store_ok_def triggerable_def split: if_splits)
  show "pendingWindows st' \<subseteq> pendingWindows st"
    using ok t spec markEmitted_pending
    by (fastforce simp: getTriggerableWindowSlices_def store_ok_def pendingWindows_def split: if_splits)
next
  fix st st' :: "'a SliceStore" and wm out w
  assume ok: "store_ok st" and t: "getTriggerableWindowSlices True st wm = (st', out)" and w: "w \<in> pendingWindows st'"
  have "windows st' = markEmitted (triggerable wm) (windows st)"
    using ok t triggerLoop_spec [of "windows st" wm "sequenceNumberCounter st"]
    by (auto simp: getTriggerableWindowSlices_def store_ok_def)
  then obtain k en where "(k, w, en) \<in> set (windows st)" "\<not> triggerable wm (k, w, en)" "windowState en \<noteq> EMITTED_TO_PROBE"
    using w markEmitted_pending by (fastforce simp: pendingWindows_def)
  then show "wm \<le> windowEnd w" by (auto simp: triggerable_def)
qed

interpretation time_handler: window_handler "emptyQueue BlockSize" "emplace BlockSize headCas" "getCurrentValue BlockSize"
  admissibleChunks "queue_inv BlockSize" currentValueOf getTriggerableWindowSlices store_ok pendingWindows for headCas
  ..

section \<open>Properties\<close>

lemma eventOf_simp: "time_handler.eventOf (lock, md) = (bufferOriginId md, bufferSeqNumber md, bufferWatermarkTs md)"
  by (simp add: time_handler.eventOf_def)

definition metaEvents :: "(bool \<times> BufferMetaData) list \<Rightarrow> originEvent list" where
  "metaEvents cs = map (\<lambda>c. (bufferOriginId (snd c), bufferSeqNumber (snd c), bufferWatermarkTs (snd c))) cs"

text \<open>
  C2. A started window handler over the time-based store and any sequence of closed build buffers, in
  any arrival order and with any outcome of the lock attempts: no call fails, every window passed on
  for probing ends before the watermark all input origins have completely delivered at that moment, and
  every call that gets the lock leaves no window pending that ends before that watermark.
\<close>

theorem handler_triggers_exactly_due_windows:
  assumes "store_ok st"
    and "\<forall>c \<in> set cs. bufferOriginId (snd c) \<in> set inputs"
    and "\<forall>oid \<in> set inputs. admissibleChunks (lastChunkOf oid) (originEvents oid (metaEvents cs))"
  shows "\<exists>h outs. run_checks (emplace BlockSize headCas) (getCurrentValue BlockSize) getTriggerableWindowSlices
             (start (emptyQueue BlockSize) (newHandler inputs outputOrigin st sequential) threads) cs = Inr (h, outs)
       \<and> length outs = length cs
       \<and> (\<forall>k < length cs. let wm = multiOriginWatermark lastChunkOf inputs (metaEvents (take (Suc k) cs)) in
            (\<forall>e \<in> set (outs ! k). windowEnd (fst e) < wm)
          \<and> (fst (cs ! k) \<longrightarrow> (\<forall>w \<in> pendingWindows (sliceAndWindowStore h). wm \<le> windowEnd w)))"
proof -
  let ?h = "start (emptyQueue BlockSize) (newHandler inputs outputOrigin st sequential) threads"
  have ev: "map time_handler.eventOf cs' = metaEvents cs'" for cs'
    by (simp add: metaEvents_def time_handler.eventOf_def)
  have "watermarkProcessorBuild ?h = Some (createProcessor (emptyQueue BlockSize) inputs)"
    "sliceAndWindowStore ?h = st" "origins (createProcessor (emptyQueue BlockSize) inputs) = inputs"
    by (simp_all add: start_def newHandler_def createProcessor_def)
  then show ?thesis
    using time_handler.run_checks_min [of ?h _ lastChunkOf "[]" cs headCas,
        OF _ seq_queue.processor_inv_create [of lastChunkOf inputs]] assms
    by (simp add: ev minOver_multiOrigin Let_def) blast
qed

definition fillingExample :: "unit SliceStore" where
  "fillingExample = (newSliceStore 10 5 1)\<lparr>windows :=
     [(10, WindowInfo 0 10, \<lparr>windowSlices = [\<lparr>sliceStart = 0, sliceEnd = 5, slicePayload = ()\<rparr>],
        windowState = WINDOW_FILLING\<rparr>)]\<rparr>"

theorem handler_triggers_exactly_due_windows_witness:
  "\<exists>h outs. run_checks (emplace BlockSize (\<lambda>_. True)) (getCurrentValue BlockSize) getTriggerableWindowSlices
       (start (emptyQueue BlockSize) (newHandler [7] 3 fillingExample False) 1)
       [(True, \<lparr>bufferWatermarkTs = 20, bufferSeqNumber = SequenceData 1 1 True, bufferOriginId = 7\<rparr>)] = Inr (h, outs)
     \<and> length outs = 1 \<and> (\<forall>e \<in> set (outs ! 0). windowEnd (fst e) < 20)
     \<and> (\<forall>w \<in> pendingWindows (sliceAndWindowStore h). 20 \<le> windowEnd w)"
proof -
  let ?c = "[(True, \<lparr>bufferWatermarkTs = 20, bufferSeqNumber = SequenceData 1 1 True, bufferOriginId = 7\<rparr>)]"
  have "store_ok fillingExample" by (simp add: store_ok_def fillingExample_def entry_wf_def)
  moreover have "\<forall>oid \<in> set [7]. admissibleChunks (\<lambda>_. 1) (originEvents oid (metaEvents ?c))"
    by (simp add: admissibleChunks_def valid_chunks_def chunk_of_def originEvents_def BlockSize_def metaEvents_def)
  moreover have "multiOriginWatermark (\<lambda>_ _. 1) [7] (metaEvents (take (Suc 0) ?c)) = 20"
    by (simp add: multiOriginWatermark_def currentValueOf_def currentEnd_def completedValues_def
        originEvents_def seqEvents_def metaEvents_def)
  ultimately show ?thesis
    using handler_triggers_exactly_due_windows [of fillingExample ?c "[7]" "\<lambda>_ _. 1" "\<lambda>_. True" 3 False 1] by simp
qed

end
