(* ===== verification/PagedVector.thy ===== *)
theory PagedVector
  imports Prelude
begin

text \<open>
  The paged vector (\<open>src/nes-nautilus/src/Nautilus/Interface/PagedVector/PagedVector.cpp\<close>, \<open>PagedVectorRef.cpp\<close>):
  records on a list of pages with a cumulative number of records per page for random access.

  A \<open>TupleBuffer\<close> is a counted reference to shared memory, so a page is an address into an explicit page
  store: \<open>copyFrom\<close> lets two vectors share pages. A stored page is the list of the records written to
  it; the number of tuples of the buffer is its length. The buffer provider's answer is an argument.
  The projection a record is read with is the argument \<open>proj\<close>.
\<close>

section \<open>Pages and vectors\<close>

type_synonym 'r pageStore = "'r list list"

record TupleBufferWithCumulativeSum =
  cumulativeSum :: u64
  bufferAddress :: nat

type_synonym PagedVector = "TupleBufferWithCumulativeSum list"

record LayoutInfo =
  layoutTupleSize :: u64
  layoutCapacity :: u64

definition getNumberOfTuples :: "'r pageStore \<Rightarrow> nat \<Rightarrow> u64" where
  "getNumberOfTuples h page = of_nat (length (h ! page))"

definition getLastPage :: "PagedVector \<Rightarrow> nat result" where
  "getLastPage pages = andThen (PRECONDITION (pages \<noteq> [])) (\<lambda>_. Inr (bufferAddress (last pages)))"

definition getFirstPage :: "PagedVector \<Rightarrow> nat result" where
  "getFirstPage pages = andThen (PRECONDITION (pages \<noteq> [])) (\<lambda>_. Inr (bufferAddress (hd pages)))"

definition getNumberOfPages :: "PagedVector \<Rightarrow> u64" where
  "getNumberOfPages pages = of_nat (length pages)"

definition getNumberOfTuplesLastPage :: "'r pageStore \<Rightarrow> PagedVector \<Rightarrow> u64 result" where
  "getNumberOfTuplesLastPage h pages = andThen (getLastPage pages) (\<lambda>page. Inr (getNumberOfTuples h page))"

text \<open>The cumulative sum of the last page but one, 0 if there is none.\<close>

definition penultimateCumulativeSum :: "PagedVector \<Rightarrow> u64" where
  "penultimateCumulativeSum pages = (if length pages \<ge> 2 then cumulativeSum (pages ! (length pages - 2)) else 0)"

definition updateCumulativeSumLastItem :: "'r pageStore \<Rightarrow> PagedVector \<Rightarrow> PagedVector" where
  "updateCumulativeSumLastItem h pages =
     (if pages = [] then pages
      else pages[length pages - 1 :=
             (last pages)\<lparr>cumulativeSum :=
                getNumberOfTuples h (bufferAddress (last pages)) + penultimateCumulativeSum pages\<rparr>])"

fun updateCumulativeSums :: "'r pageStore \<Rightarrow> u64 \<Rightarrow> PagedVector \<Rightarrow> PagedVector" where
  "updateCumulativeSums h cur [] = []"
| "updateCumulativeSums h cur (page # pages) =
     (let s = getNumberOfTuples h (bufferAddress page) + cur
      in page\<lparr>cumulativeSum := s\<rparr> # updateCumulativeSums h s pages)"

definition updateCumulativeSumAllPages :: "'r pageStore \<Rightarrow> PagedVector \<Rightarrow> PagedVector" where
  "updateCumulativeSumAllPages h pages = updateCumulativeSums h 0 pages"

definition addPage :: "'r pageStore \<Rightarrow> nat \<Rightarrow> PagedVector \<Rightarrow> PagedVector" where
  "addPage h newPage pages = updateCumulativeSumLastItem h pages @ [\<lparr>cumulativeSum = 0, bufferAddress = newPage\<rparr>]"

definition addPages :: "'r pageStore \<Rightarrow> PagedVector \<Rightarrow> PagedVector \<Rightarrow> PagedVector" where
  "addPages h pages other = updateCumulativeSumAllPages h (pages @ other)"

definition clearPages :: "PagedVector \<Rightarrow> PagedVector" where
  "clearPages pages = []"

definition getTotalNumberOfEntries :: "'r pageStore \<Rightarrow> PagedVector \<Rightarrow> u64" where
  "getTotalNumberOfEntries h pages =
     penultimateCumulativeSum pages
     + (if pages \<noteq> [] then getNumberOfTuples h (bufferAddress (last pages)) else 0)"

text \<open>\<open>std::ranges::lower_bound\<close> on the projected values: bisection over \<open>len\<close> elements from \<open>first\<close>.\<close>

function lower_bound :: "(nat \<Rightarrow> u64) \<Rightarrow> u64 \<Rightarrow> nat \<Rightarrow> nat \<Rightarrow> nat" where
  "lower_bound proj value first len =
     (if len = 0 then first
      else let half = len div 2; middle = first + half
           in if proj middle < value then lower_bound proj value (middle + 1) (len - half - 1)
              else lower_bound proj value first half)"
  by pat_completeness auto

termination
  by (relation "measure (\<lambda>(proj, value, first, len). len)") auto

declare lower_bound.simps [simp del]

definition findIdxProjection :: "'r pageStore \<Rightarrow> PagedVector \<Rightarrow> nat \<Rightarrow> u64" where
  "findIdxProjection h pages i =
     (if i = length pages - 1
      then penultimateCumulativeSum pages + getNumberOfTuples h (bufferAddress (pages ! i)) - 1
      else cumulativeSum (pages ! i) - 1)"

definition findIdx :: "'r pageStore \<Rightarrow> PagedVector \<Rightarrow> u64 \<Rightarrow> nat option" where
  "findIdx h pages entryPos =
     (if entryPos \<ge> getTotalNumberOfEntries h pages then None
      else let it = lower_bound (findIdxProjection h pages) entryPos 0 (length pages)
           in if it \<noteq> length pages then Some it else None)"

definition appendPageIfFull ::
  "bool \<Rightarrow> LayoutInfo \<Rightarrow> 'r pageStore \<Rightarrow> PagedVector \<Rightarrow> ('r pageStore \<times> PagedVector) result" where
  "appendPageIfFull bufferAvailable memoryLayout h pages =
     andThen (PRECONDITION (layoutTupleSize memoryLayout > 0)) (\<lambda>_.
     andThen (PRECONDITION (layoutCapacity memoryLayout > 0)) (\<lambda>_.
     andThen (if getNumberOfPages pages = 0 then Inr True
              else andThen (getNumberOfTuplesLastPage h pages) (\<lambda>n. Inr (n \<ge> layoutCapacity memoryLayout))) (\<lambda>full.
       if full then
         (if bufferAvailable then Inr (h @ [[]], addPage h (length h) pages)
          else Inl BufferAllocationFailure)
       else Inr (h, pages))))"

definition copyFrom :: "'r pageStore \<Rightarrow> PagedVector \<Rightarrow> PagedVector \<Rightarrow> PagedVector" where
  "copyFrom h this other = addPages h this other"

definition moveAllPages :: "'r pageStore \<Rightarrow> PagedVector \<Rightarrow> PagedVector \<Rightarrow> PagedVector \<times> PagedVector" where
  "moveAllPages h this other = (copyFrom h this other, clearPages other)"

definition getTupleBufferForEntry :: "'r pageStore \<Rightarrow> PagedVector \<Rightarrow> u64 \<Rightarrow> nat option" where
  "getTupleBufferForEntry h pages entryPos =
     (case findIdx h pages entryPos of None \<Rightarrow> None | Some i \<Rightarrow> Some (bufferAddress (pages ! i)))"

definition getBufferPosForEntry :: "'r pageStore \<Rightarrow> PagedVector \<Rightarrow> u64 \<Rightarrow> u64 option" where
  "getBufferPosForEntry h pages entryPos =
     (case findIdx h pages entryPos of
        None \<Rightarrow> None
      | Some i \<Rightarrow> Some (entryPos - (if i = 0 then 0 else cumulativeSum (pages ! (i - 1)))))"

section \<open>Reading and writing records\<close>

definition createNewEntryProxy ::
  "bool \<Rightarrow> LayoutInfo \<Rightarrow> 'r pageStore \<Rightarrow> PagedVector \<Rightarrow> ('r pageStore \<times> PagedVector \<times> nat) result" where
  "createNewEntryProxy bufferAvailable memoryLayout h pages =
     andThen (appendPageIfFull bufferAvailable memoryLayout h pages) (\<lambda>(h', pages').
     andThen (getLastPage pages') (\<lambda>page. Inr (h', pages', page)))"

text \<open>The record goes to the slot behind the last one of the page, then the number of records grows by one.\<close>

definition writeRecord ::
  "bool \<Rightarrow> LayoutInfo \<Rightarrow> 'r \<Rightarrow> 'r pageStore \<Rightarrow> PagedVector \<Rightarrow> ('r pageStore \<times> PagedVector) result" where
  "writeRecord bufferAvailable memoryLayout record h pages =
     andThen (createNewEntryProxy bufferAvailable memoryLayout h pages) (\<lambda>(h', pages', page).
       Inr (h'[page := h' ! page @ [record]], pages'))"

text \<open>Reading through a null buffer or behind the records of a page is not checked by the code.\<close>

definition readSlot :: "('r \<Rightarrow> 'o) \<Rightarrow> 'r pageStore \<Rightarrow> nat option \<Rightarrow> u64 \<Rightarrow> 'o result" where
  "readSlot proj h page pos =
     (case page of
        None \<Rightarrow> Inl UndefinedBehaviour
      | Some p \<Rightarrow> if p < length h \<and> unat pos < length (h ! p) then Inr (proj (h ! p ! unat pos))
                  else Inl UndefinedBehaviour)"

definition getBufferPosForEntryProxy :: "'r pageStore \<Rightarrow> PagedVector \<Rightarrow> u64 \<Rightarrow> u64" where
  "getBufferPosForEntryProxy h pages entryPos =
     (case getBufferPosForEntry h pages entryPos of None \<Rightarrow> 0 | Some p \<Rightarrow> p)"

definition readRecord :: "('r \<Rightarrow> 'o) \<Rightarrow> 'r pageStore \<Rightarrow> PagedVector \<Rightarrow> u64 \<Rightarrow> 'o result" where
  "readRecord proj h pages pos =
     readSlot proj h (getTupleBufferForEntry h pages pos) (getBufferPosForEntryProxy h pages pos)"

record PagedVectorRefIter =
  iterPos :: u64
  numberOfTuplesInPagedVector :: u64
  posOnPage :: u64
  curPage :: "nat option"

definition iter_begin :: "'r pageStore \<Rightarrow> PagedVector \<Rightarrow> PagedVectorRefIter" where
  "iter_begin h pages =
     \<lparr>iterPos = 0, numberOfTuplesInPagedVector = getTotalNumberOfEntries h pages,
      posOnPage = getBufferPosForEntryProxy h pages 0, curPage = getTupleBufferForEntry h pages 0\<rparr>"

definition iter_end :: "'r pageStore \<Rightarrow> PagedVector \<Rightarrow> PagedVectorRefIter" where
  "iter_end h pages =
     (let pos = getTotalNumberOfEntries h pages
      in \<lparr>iterPos = pos, numberOfTuplesInPagedVector = pos, posOnPage = 0, curPage = None\<rparr>)"

definition iter_deref :: "('r \<Rightarrow> 'o) \<Rightarrow> 'r pageStore \<Rightarrow> PagedVectorRefIter \<Rightarrow> 'o result" where
  "iter_deref proj h it = readSlot proj h (curPage it) (posOnPage it)"

definition iter_next :: "'r pageStore \<Rightarrow> PagedVector \<Rightarrow> PagedVectorRefIter \<Rightarrow> PagedVectorRefIter result" where
  "iter_next h pages it =
     (case curPage it of
        None \<Rightarrow> Inl UndefinedBehaviour
      | Some p \<Rightarrow>
          let pos = iterPos it + 1; onPage = posOnPage it + 1; it1 = it\<lparr>iterPos := pos, posOnPage := onPage\<rparr>
          in if onPage \<ge> getNumberOfTuples h p then
               (let it2 = it1\<lparr>posOnPage := 0\<rparr>
                in Inr (if pos < numberOfTuplesInPagedVector it
                        then it2\<lparr>curPage := getTupleBufferForEntry h pages pos,
                                 posOnPage := getBufferPosForEntryProxy h pages pos\<rparr>
                        else it2))
             else Inr it1)"

text \<open>Iterators of one vector with the same projections are equal when their positions are.\<close>

definition iter_eq :: "PagedVectorRefIter \<Rightarrow> PagedVectorRefIter \<Rightarrow> bool" where
  "iter_eq a b \<longleftrightarrow> iterPos a = iterPos b"

definition iter_diff :: "PagedVectorRefIter \<Rightarrow> PagedVectorRefIter \<Rightarrow> u64" where
  "iter_diff a b = iterPos a - iterPos b"

text \<open>The loop \<open>for (it = begin(); it != end(); ++it)\<close>, collecting the records.\<close>

partial_function (option) iterate ::
  "('r \<Rightarrow> 'o) \<Rightarrow> 'r pageStore \<Rightarrow> PagedVector \<Rightarrow> PagedVectorRefIter \<Rightarrow> 'o list result option" where
  "iterate proj h pages it =
     (if iter_eq it (iter_end h pages) then Some (Inr [])
      else case iter_deref proj h it of
        Inl e \<Rightarrow> Some (Inl e)
      | Inr r \<Rightarrow>
          (case iter_next h pages it of
             Inl e \<Rightarrow> Some (Inl e)
           | Inr it' \<Rightarrow>
               Option.bind (iterate proj h pages it') (\<lambda>rs. Some (andThen rs (\<lambda>ys. Inr (r # ys))))))"

section \<open>The sequence of records of a vector\<close>

definition contents :: "'r pageStore \<Rightarrow> PagedVector \<Rightarrow> 'r list" where
  "contents h pages = concat (map (\<lambda>p. h ! bufferAddress p) pages)"

text \<open>
  The pages exist, are not shared inside the vector and hold a record each; all cumulative sums but the
  last one, which \<open>writeRecord\<close> leaves behind, count the records up to their page.
\<close>

definition pv_wf :: "'r pageStore \<Rightarrow> PagedVector \<Rightarrow> bool" where
  "pv_wf h pages \<longleftrightarrow> (\<forall>p \<in> set pages. bufferAddress p < length h \<and> h ! bufferAddress p \<noteq> [])
     \<and> distinct (map bufferAddress pages)
     \<and> (\<forall>i. Suc i < length pages \<longrightarrow> unat (cumulativeSum (pages ! i)) = length (contents h (take (Suc i) pages)))
     \<and> length (contents h pages) < 2 ^ 64"

lemma contents_Nil [simp]: "contents h [] = []"
  by (simp add: contents_def)

lemma contents_Cons [simp]: "contents h (p # pages) = h ! bufferAddress p @ contents h pages"
  by (simp add: contents_def)

lemma contents_append [simp]: "contents h (a @ b) = contents h a @ contents h b"
  by (simp add: contents_def)

lemma contents_take_Suc:
  "i < length pages \<Longrightarrow> contents h (take (Suc i) pages) = contents h (take i pages) @ h ! bufferAddress (pages ! i)"
  by (simp add: take_Suc_conv_app_nth)

lemma contents_take_le: "length (contents h (take i pages)) \<le> length (contents h pages)"
proof -
  have "length (contents h (take i pages)) \<le> length (contents h (take i pages @ drop i pages))"
    by (simp only: contents_append) simp
  then show ?thesis by simp
qed

lemma contents_take_mono: "i \<le> j \<Longrightarrow> length (contents h (take i pages)) \<le> length (contents h (take j pages))"
  using contents_take_le [of h i "take j pages"] by (simp add: min_def)

lemma contents_cong:
  "(\<And>p. p \<in> set pages \<Longrightarrow> h' ! bufferAddress p = h ! bufferAddress p) \<Longrightarrow> contents h' pages = contents h pages"
  by (induction pages) auto

lemma contents_addresses: "map bufferAddress a = map bufferAddress b \<Longrightarrow> contents h a = contents h b"
proof (induction a arbitrary: b)
  case (Cons p a)
  from Cons.prems obtain q b' where b: "b = q # b'" "bufferAddress p = bufferAddress q"
    "map bufferAddress a = map bufferAddress b'" by (cases b) auto
  with Cons.IH [OF b(3)] show ?case by simp
qed simp

lemma contents_nth_page:
  assumes "i < length pages" "length (contents h (take i pages)) \<le> n" "n < length (contents h (take (Suc i) pages))"
  shows "contents h pages ! n = h ! bufferAddress (pages ! i) ! (n - length (contents h (take i pages)))"
    "n - length (contents h (take i pages)) < length (h ! bufferAddress (pages ! i))"
proof -
  define a b c where "a = contents h (take i pages)" and "b = h ! bufferAddress (pages ! i)"
    and "c = contents h (drop (Suc i) pages)"
  have "contents h (take (Suc i) pages) = a @ b" using contents_take_Suc [OF assms(1)] by (simp add: a_def b_def)
  moreover have "contents h pages = a @ b @ c"
    using contents_append [of h "take (Suc i) pages" "drop (Suc i) pages"] calculation by (simp add: c_def)
  ultimately show "contents h pages ! n = h ! bufferAddress (pages ! i) ! (n - length (contents h (take i pages)))"
    "n - length (contents h (take i pages)) < length (h ! bufferAddress (pages ! i))"
    using assms(2,3) unfolding a_def [symmetric] b_def [symmetric]
    by (simp_all add: nth_append less_diff_conv2 add.commute)
qed

lemma length_page_u64:
  assumes "pv_wf h pages" "p \<in> set pages"
  shows "unat (getNumberOfTuples h (bufferAddress p)) = length (h ! bufferAddress p)"
proof -
  have "length (h ! bufferAddress p) \<le> length (contents h pages)"
    using split_list [OF assms(2)] by auto
  also have "\<dots> < 2 ^ 64" using assms(1) unfolding pv_wf_def by blast
  finally show ?thesis unfolding getNumberOfTuples_def by (rule unat_of_nat_u64)
qed

lemma penultimate_wf:
  assumes "pv_wf h pages" "pages \<noteq> []"
  shows "unat (penultimateCumulativeSum pages) = length (contents h (butlast pages))"
proof (cases "length pages \<ge> 2")
  case True
  then have "Suc (length pages - 2) = length pages - 1" "Suc (length pages - 2) < length pages" by auto
  then show ?thesis
    using assms(1) True by (auto simp: pv_wf_def penultimateCumulativeSum_def butlast_conv_take)
next
  case False
  with assms(2) have "length pages = 1" by (cases pages) (auto simp: not_le)
  then show ?thesis by (cases pages) (auto simp: penultimateCumulativeSum_def)
qed

lemma contents_butlast_last:
  "pages \<noteq> [] \<Longrightarrow> contents h pages = contents h (butlast pages) @ h ! bufferAddress (last pages)"
  by (induction pages rule: rev_induct) auto

lemma penultimate_plus_last:
  assumes "pv_wf h pages" "pages \<noteq> []"
  shows "unat (penultimateCumulativeSum pages + getNumberOfTuples h (bufferAddress (last pages))) = length (contents h pages)"
proof -
  have "unat (penultimateCumulativeSum pages) + unat (getNumberOfTuples h (bufferAddress (last pages))) = length (contents h pages)"
    using penultimate_wf [OF assms] length_page_u64 [OF assms(1) last_in_set [OF assms(2)]]
      contents_butlast_last [OF assms(2), of h] by simp
  then show ?thesis using assms(1) by (subst unat_add_u64) (simp_all add: pv_wf_def)
qed

lemma getTotalNumberOfEntries_wf:
  assumes "pv_wf h pages" shows "unat (getTotalNumberOfEntries h pages) = length (contents h pages)"
proof (cases "pages = []")
  case True
  then show ?thesis by (simp add: getTotalNumberOfEntries_def penultimateCumulativeSum_def)
next
  case False
  then show ?thesis using penultimate_plus_last [OF assms False] by (simp add: getTotalNumberOfEntries_def)
qed

section \<open>Random access\<close>

lemma findIdxProjection_wf:
  assumes "pv_wf h pages" "i < length pages"
  shows "unat (findIdxProjection h pages i) = length (contents h (take (Suc i) pages)) - 1"
proof -
  let ?s = "if i = length pages - 1
      then penultimateCumulativeSum pages + getNumberOfTuples h (bufferAddress (pages ! i)) else cumulativeSum (pages ! i)"
  have s: "unat ?s = length (contents h (take (Suc i) pages))"
  proof (cases "i = length pages - 1")
    case True
    have ne: "pages \<noteq> []" using assms(2) by auto
    have "pages ! i = last pages" "take (Suc i) pages = pages"
      using True last_conv_nth [OF ne] assms(2) by simp_all
    with True ne penultimate_plus_last [OF assms(1)] show ?thesis by simp
  next
    case False
    then show ?thesis using assms by (auto simp: pv_wf_def)
  qed
  have "h ! bufferAddress (pages ! i) \<noteq> []" using assms by (simp add: pv_wf_def)
  then have "0 < length (contents h (take (Suc i) pages))" using contents_take_Suc [OF assms(2), of h] by simp
  then have "0 < unat ?s" unfolding s .
  then have "unat (?s - 1) = unat ?s - 1" by (intro unat_minus_one) (rule iffD1 [OF unat_gt_0])
  then show ?thesis using s by (simp add: findIdxProjection_def split: if_splits)
qed

definition lower_bound_at :: "(nat \<Rightarrow> u64) \<Rightarrow> u64 \<Rightarrow> nat \<Rightarrow> nat \<Rightarrow> nat \<Rightarrow> bool" where
  "lower_bound_at proj value first len r \<longleftrightarrow> first \<le> r \<and> r \<le> first + len
     \<and> (\<forall>i \<in> {first..<r}. proj i < value) \<and> (r < first + len \<longrightarrow> \<not> proj r < value)"

lemma lower_bound_at_right:
  assumes "lower_bound_at proj value (Suc m) (first + len - Suc m) r" "first \<le> m" "m < first + len"
    "\<forall>i \<in> {first..m}. proj i < value"
  shows "lower_bound_at proj value first len r"
proof -
  have "proj i < value" if "i \<in> {first..<r}" for i
    using assms(1,4) that by (cases "i \<le> m") (auto simp: lower_bound_at_def)
  then show ?thesis using assms(1-3) by (simp add: lower_bound_at_def)
qed

lemma lower_bound_at_left:
  assumes "lower_bound_at proj value first half r" "\<not> proj (first + half) < value" "half < len"
  shows "lower_bound_at proj value first len r"
  using assms by (cases "r = first + half") (auto simp: lower_bound_at_def)

lemma lower_bound_spec:
  assumes "\<And>i j. first \<le> i \<Longrightarrow> i \<le> j \<Longrightarrow> j < first + len \<Longrightarrow> proj j < value \<Longrightarrow> proj i < value"
  shows "lower_bound_at proj value first len (lower_bound proj value first len)"
  using assms
proof (induction len arbitrary: first rule: less_induct)
  case (less len)
  let ?half = "len div 2" let ?middle = "first + ?half"
  consider "len = 0" | "len \<noteq> 0" "proj ?middle < value" | "len \<noteq> 0" "\<not> proj ?middle < value" by blast
  then show ?case
  proof cases
    case 1
    then show ?thesis by (simp add: lower_bound.simps lower_bound_at_def)
  next
    case 2
    then have eq: "lower_bound proj value first len = lower_bound proj value (Suc ?middle) (first + len - Suc ?middle)"
      by (subst lower_bound.simps) (simp add: Let_def)
    have sub: "Suc ?middle + (first + len - Suc ?middle) = first + len" using 2 by simp
    have "lower_bound_at proj value (Suc ?middle) (first + len - Suc ?middle)
            (lower_bound proj value (Suc ?middle) (first + len - Suc ?middle))"
    proof (rule less.IH)
      show "first + len - Suc ?middle < len" using 2 by simp
      show "proj i < value" if "Suc ?middle \<le> i" "i \<le> j" "j < Suc ?middle + (first + len - Suc ?middle)" "proj j < value" for i j
        by (rule less.prems [of i j]) (use that sub in linarith)+
    qed
    then show ?thesis unfolding eq
    proof (rule lower_bound_at_right)
      show "\<forall>i \<in> {first..?middle}. proj i < value"
        using less.prems [of _ ?middle] 2 by auto
    qed (use 2 in simp_all)
  next
    case 3
    then have eq: "lower_bound proj value first len = lower_bound proj value first ?half"
      by (subst lower_bound.simps) (simp add: Let_def)
    have lt: "?half < len" using 3 by simp
    have "lower_bound_at proj value first ?half (lower_bound proj value first ?half)"
    proof (rule less.IH [OF lt])
      show "proj i < value" if "first \<le> i" "i \<le> j" "j < ?middle" "proj j < value" for i j
        by (rule less.prems [of i j]) (use that lt in linarith)+
    qed
    then show ?thesis unfolding eq using 3(2) lt by (rule lower_bound_at_left)
  qed
qed

lemma findIdx_wf:
  assumes wf: "pv_wf h pages" and lt: "unat pos < length (contents h pages)"
  obtains i where "findIdx h pages pos = Some i" "i < length pages"
    "length (contents h (take i pages)) \<le> unat pos" "unat pos < length (contents h (take (Suc i) pages))"
proof -
  let ?proj = "findIdxProjection h pages" let ?r = "lower_bound ?proj pos 0 (length pages)"
  note proj = findIdxProjection_wf [OF wf]
  have nonempty: "0 < length (contents h (take (Suc i) pages))" if "i < length pages" for i
    using contents_take_Suc [OF that, of h] wf nth_mem [OF that] unfolding pv_wf_def by simp
  have less: "?proj i < pos \<longleftrightarrow> length (contents h (take (Suc i) pages)) \<le> unat pos" if "i < length pages" for i
    using proj [OF that] nonempty [OF that] unfolding word_less_nat_alt by linarith
  have at: "lower_bound_at ?proj pos 0 (length pages) ?r"
  proof (rule lower_bound_spec)
    fix i j assume "i \<le> j" "j < 0 + length pages" "?proj j < pos"
    then show "?proj i < pos"
      using less [of i] less [of j] contents_take_mono [of "Suc i" "Suc j" h pages] by simp
  qed
  have in_range: "?r < length pages"
  proof (rule ccontr)
    assume "\<not> ?r < length pages"
    then have r: "?r = length pages" using at by (simp add: lower_bound_at_def)
    have "pages \<noteq> []" using lt by auto
    then have "?proj (length pages - 1) < pos" using at r by (auto simp: lower_bound_at_def)
    then show False using less [of "length pages - 1"] \<open>pages \<noteq> []\<close> lt by simp
  qed
  have "length (contents h (take ?r pages)) \<le> unat pos"
  proof (cases ?r)
    case (Suc k)
    then have "?proj k < pos" using at by (simp add: lower_bound_at_def)
    then show ?thesis using less [of k] in_range Suc by simp
  qed simp
  moreover have "unat pos < length (contents h (take (Suc ?r) pages))"
    using at less [OF in_range] in_range by (simp add: lower_bound_at_def not_le)
  moreover have "findIdx h pages pos = Some ?r"
    using lt in_range getTotalNumberOfEntries_wf [OF wf] by (simp add: findIdx_def word_le_nat_alt Let_def)
  ultimately show thesis using that in_range by blast
qed

lemma entry_position:
  assumes wf: "pv_wf h pages" and lt: "unat pos < length (contents h pages)"
  obtains i where "i < length pages" "getTupleBufferForEntry h pages pos = Some (bufferAddress (pages ! i))"
    "unat (getBufferPosForEntryProxy h pages pos) = unat pos - length (contents h (take i pages))"
    "length (contents h (take i pages)) \<le> unat pos" "unat pos < length (contents h (take (Suc i) pages))"
proof -
  obtain i where i: "findIdx h pages pos = Some i" "i < length pages"
    "length (contents h (take i pages)) \<le> unat pos" "unat pos < length (contents h (take (Suc i) pages))"
    using findIdx_wf [OF assms] .
  let ?before = "if i = 0 then 0 else cumulativeSum (pages ! (i - 1))"
  have before: "unat ?before = length (contents h (take i pages))"
    using wf i(2) by (cases i) (auto simp: pv_wf_def)
  then have "unat (pos - ?before) = unat pos - length (contents h (take i pages))"
    using i(3) unat_sub [of ?before pos] by (simp only: word_le_nat_alt)
  then have "unat (getBufferPosForEntryProxy h pages pos) = unat pos - length (contents h (take i pages))"
    using i(1) by (simp add: getBufferPosForEntryProxy_def getBufferPosForEntry_def)
  with i that show thesis by (simp add: getTupleBufferForEntry_def)
qed

lemma readRecord_wf:
  assumes wf: "pv_wf h pages" and lt: "unat pos < length (contents h pages)"
  shows "readRecord proj h pages pos = Inr (proj (contents h pages ! unat pos))"
proof -
  obtain i where i: "i < length pages" "getTupleBufferForEntry h pages pos = Some (bufferAddress (pages ! i))"
    "unat (getBufferPosForEntryProxy h pages pos) = unat pos - length (contents h (take i pages))"
    "length (contents h (take i pages)) \<le> unat pos" "unat pos < length (contents h (take (Suc i) pages))"
    using entry_position [OF assms] .
  then show ?thesis
    using contents_nth_page [OF i(1,4,5)] wf by (simp add: readRecord_def readSlot_def pv_wf_def)
qed

lemma readRecord_out_of_range:
  "pv_wf h pages \<Longrightarrow> length (contents h pages) \<le> unat pos \<Longrightarrow> readRecord proj h pages pos = Inl UndefinedBehaviour"
  using getTotalNumberOfEntries_wf [of h pages]
  by (simp add: readRecord_def getTupleBufferForEntry_def findIdx_def readSlot_def word_le_nat_alt)

section \<open>Appending and moving\<close>

lemma updateCumulativeSums_addresses [simp]:
  "map bufferAddress (updateCumulativeSums h cur pages) = map bufferAddress pages"
  by (induction h cur pages rule: updateCumulativeSums.induct) (simp_all add: Let_def)

lemma updateCumulativeSums_length [simp]: "length (updateCumulativeSums h cur pages) = length pages"
  by (induction h cur pages rule: updateCumulativeSums.induct) (simp_all add: Let_def)

lemma updateCumulativeSums_sums:
  "i < length pages \<Longrightarrow>
   cumulativeSum (updateCumulativeSums h cur pages ! i) = of_nat (length (contents h (take (Suc i) pages))) + cur"
proof (induction h cur pages arbitrary: i rule: updateCumulativeSums.induct)
  case (2 h cur page pages)
  then show ?case by (cases i) (simp_all add: Let_def getNumberOfTuples_def)
qed simp

lemma pv_wf_addPages:
  assumes "pv_wf h a" "pv_wf h b" "set (map bufferAddress a) \<inter> set (map bufferAddress b) = {}"
    and fits: "length (contents h a) + length (contents h b) < 2 ^ 64"
  shows "pv_wf h (addPages h a b)" "contents h (addPages h a b) = contents h a @ contents h b"
proof -
  let ?p = "addPages h a b"
  have addr: "map bufferAddress ?p = map bufferAddress (a @ b)"
    by (simp add: addPages_def updateCumulativeSumAllPages_def del: map_append)
  have take_addr: "contents h (take i ?p) = contents h (take i (a @ b))" for i
    by (rule contents_addresses) (simp only: take_map [symmetric] addr)
  have "contents h ?p = contents h (a @ b)" using addr by (rule contents_addresses)
  then show c: "contents h ?p = contents h a @ contents h b" by simp
  have "unat (cumulativeSum (?p ! i)) = length (contents h (take (Suc i) ?p))" if "Suc i < length ?p" for i
  proof -
    have i: "i < length (a @ b)" using that by (simp add: addPages_def updateCumulativeSumAllPages_def)
    have "length (contents h (take (Suc i) (a @ b))) < 2 ^ 64"
      using contents_take_le [of h "Suc i" "a @ b"] fits by simp
    moreover have "cumulativeSum (?p ! i) = of_nat (length (contents h (take (Suc i) (a @ b))))"
      using updateCumulativeSums_sums [OF i, of h 0]
      by (simp only: addPages_def updateCumulativeSumAllPages_def add_0_right)
    ultimately show ?thesis using take_addr [of "Suc i"] by (simp only: unat_of_nat_u64)
  qed
  moreover have "\<forall>p \<in> set ?p. bufferAddress p < length h \<and> h ! bufferAddress p \<noteq> []"
  proof
    fix p assume "p \<in> set ?p"
    then have "bufferAddress p \<in> set (map bufferAddress ?p)" by simp
    then have "bufferAddress p \<in> bufferAddress ` (set a \<union> set b)" unfolding addr by auto
    then show "bufferAddress p < length h \<and> h ! bufferAddress p \<noteq> []"
      using assms(1,2) by (auto simp: pv_wf_def)
  qed
  moreover have "distinct (map bufferAddress ?p)"
    unfolding addr using assms(1-3) by (simp add: pv_wf_def)
  ultimately show "pv_wf h ?p" using fits c unfolding pv_wf_def by simp
qed

text \<open>\<open>addPage\<close> repairs the cumulative sum of the page that is no longer the last one.\<close>

lemma addPage_addresses: "map bufferAddress (addPage h new pages) = map bufferAddress pages @ [new]"
proof (cases "pages = []")
  case False
  then show ?thesis
    by (simp add: addPage_def updateCumulativeSumLastItem_def map_update last_conv_nth list_update_same_conv)
qed (simp add: addPage_def updateCumulativeSumLastItem_def)

lemma addPage_sums:
  assumes wf: "pv_wf h pages" and i: "i < length pages"
  shows "unat (cumulativeSum (addPage h new pages ! i)) = length (contents h (take (Suc i) pages))"
proof (cases "Suc i = length pages")
  case True
  then have ne: "pages \<noteq> []" and last: "length pages - 1 = i" by auto
  have "cumulativeSum (addPage h new pages ! i) =
      getNumberOfTuples h (bufferAddress (last pages)) + penultimateCumulativeSum pages"
    using ne i unfolding addPage_def updateCumulativeSumLastItem_def last by (simp add: nth_append)
  then show ?thesis using penultimate_plus_last [OF wf ne] True by (simp add: add.commute)
next
  case False
  then have "addPage h new pages ! i = pages ! i"
    using i by (auto simp: addPage_def updateCumulativeSumLastItem_def nth_append)
  then show ?thesis using wf i False by (simp add: pv_wf_def)
qed

text \<open>All pages hold at most the capacity of the layout.\<close>

definition pv_fits :: "u64 \<Rightarrow> 'r pageStore \<Rightarrow> PagedVector \<Rightarrow> bool" where
  "pv_fits capacity h pages \<longleftrightarrow> (\<forall>p \<in> set pages. length (h ! bufferAddress p) \<le> unat capacity)"

lemma writeRecord_same_page:
  assumes wf: "pv_wf h pages" "pages \<noteq> []" and fits: "length (contents h pages) + 1 < 2 ^ 64"
    and h': "h' = h[bufferAddress (last pages) := h ! bufferAddress (last pages) @ [r]]"
  shows "pv_wf h' pages" "contents h' pages = contents h pages @ [r]"
proof -
  obtain init p where pages: "pages = init @ [p]" using wf(2) by (metis append_butlast_last_id)
  have len: "bufferAddress p < length h" and new: "bufferAddress p \<notin> bufferAddress ` set init"
    using wf(1) by (auto simp: pv_wf_def pages)
  have at: "h' ! bufferAddress p = h ! bufferAddress p @ [r]" using len by (simp add: h' pages)
  have other: "h' ! bufferAddress q = h ! bufferAddress q" if "q \<in> set init" for q
    using new that by (auto simp: h' pages intro!: nth_list_update_neq)
  have init: "contents h' (take k init) = contents h (take k init)" for k
    by (rule contents_cong) (auto dest: in_set_takeD other)
  show c: "contents h' pages = contents h pages @ [r]" using init [of "length init"] at by (simp add: pages)
  have "unat (cumulativeSum (pages ! i)) = length (contents h' (take (Suc i) pages))" if "Suc i < length pages" for i
    using wf(1) that init [of "Suc i"] by (simp add: pv_wf_def pages)
  moreover have "\<forall>q \<in> set pages. bufferAddress q < length h' \<and> h' ! bufferAddress q \<noteq> []"
    using wf(1) at other by (auto simp: pv_wf_def pages h')
  ultimately show "pv_wf h' pages" using wf(1) c fits unfolding pv_wf_def by simp
qed

lemma writeRecord_new_page:
  assumes wf: "pv_wf h pages" and fits: "length (contents h pages) + 1 < 2 ^ 64"
  shows "pv_wf (h @ [[r]]) (addPage h (length h) pages)"
    "contents (h @ [[r]]) (addPage h (length h) pages) = contents h pages @ [r]"
proof -
  let ?h = "h @ [[r]]" let ?p = "addPage h (length h) pages" let ?new = "\<lparr>cumulativeSum = 0, bufferAddress = length h\<rparr>"
  have addr: "map bufferAddress ?p = map bufferAddress (pages @ [?new])" by (simp add: addPage_addresses)
  have old: "\<forall>p \<in> set pages. ?h ! bufferAddress p = h ! bufferAddress p"
    using wf by (simp add: pv_wf_def nth_append)
  have "contents ?h ?p = contents ?h (pages @ [?new])" using addr by (rule contents_addresses)
  moreover have "contents ?h pages = contents h pages" using old by (intro contents_cong) auto
  ultimately show c: "contents ?h ?p = contents h pages @ [r]" by simp
  have "unat (cumulativeSum (?p ! i)) = length (contents ?h (take (Suc i) ?p))" if "Suc i < length ?p" for i
  proof -
    have "length ?p = Suc (length pages)" using arg_cong [OF addr, of length] by simp
    with that have i: "i < length pages" by simp
    have "contents ?h (take (Suc i) ?p) = contents ?h (take (Suc i) pages)"
      using i by (intro contents_addresses) (simp only: take_map [symmetric] addr, simp)
    moreover have "contents ?h (take (Suc i) pages) = contents h (take (Suc i) pages)"
      using old by (intro contents_cong) (auto dest: in_set_takeD)
    ultimately show ?thesis using addPage_sums [OF wf i] by simp
  qed
  moreover have "\<forall>p \<in> set ?p. bufferAddress p < length ?h \<and> ?h ! bufferAddress p \<noteq> []"
  proof
    fix p assume "p \<in> set ?p"
    then have "bufferAddress p \<in> set (map bufferAddress ?p)" by simp
    then have "bufferAddress p \<in> insert (length h) (bufferAddress ` set pages)" unfolding addr by auto
    then show "bufferAddress p < length ?h \<and> ?h ! bufferAddress p \<noteq> []"
      using wf old by (auto simp: pv_wf_def nth_append)
  qed
  moreover have "distinct (map bufferAddress ?p)" unfolding addr using wf by (auto simp: pv_wf_def)
  ultimately show "pv_wf ?h ?p" using c fits unfolding pv_wf_def by simp
qed

lemma getNumberOfPages_zero:
  assumes "pv_wf h pages" shows "getNumberOfPages pages = 0 \<longleftrightarrow> pages = []"
proof -
  have "length pages \<le> length (contents h pages)"
    if "\<forall>p \<in> set pages. h ! bufferAddress p \<noteq> []" for h :: "'b pageStore" and pages
    using that
  proof (induction pages)
    case (Cons p pages)
    then have "length pages \<le> length (contents h pages)" "0 < length (h ! bufferAddress p)" by auto
    then show ?case unfolding contents_Cons length_append list.size by linarith
  qed simp
  with assms have "length pages < 2 ^ 64" unfolding pv_wf_def by (meson le_less_trans)
  then show ?thesis
    using unat_of_nat_u64 [of "length pages"] by (auto simp: getNumberOfPages_def word_unat_eq_iff)
qed

lemma writeRecord_wf:
  assumes wf: "pv_wf h pages" and fits: "length (contents h pages) + 1 < 2 ^ 64"
    and layout: "0 < layoutTupleSize l" "0 < layoutCapacity l" and cap: "pv_fits (layoutCapacity l) h pages"
  obtains h' pages' where "writeRecord True l r h pages = Inr (h', pages')" "pv_wf h' pages'"
    "contents h' pages' = contents h pages @ [r]" "pv_fits (layoutCapacity l) h' pages'"
    "\<And>a. a < length h \<Longrightarrow> a \<notin> bufferAddress ` set pages \<Longrightarrow> h' ! a = h ! a" "length h \<le> length h'"
    "set (map bufferAddress pages') \<subseteq> set (map bufferAddress pages) \<union> {length h..<length h'}"
proof (cases "pages = [] \<or> layoutCapacity l \<le> getNumberOfTuples h (bufferAddress (last pages))")
  case True
  let ?h = "h @ [[r]]" let ?p = "addPage h (length h) pages"
  have addr: "map bufferAddress ?p = map bufferAddress pages @ [length h]" by (rule addPage_addresses)
  have ne: "?p \<noteq> []" and last: "bufferAddress (last ?p) = length h" by (simp_all add: addPage_def)
  have "writeRecord True l r h pages = Inr (?h, ?p)"
    using True layout getNumberOfPages_zero [OF wf] ne last
    by (auto simp: writeRecord_def createNewEntryProxy_def appendPageIfFull_def getNumberOfTuplesLastPage_def
        getLastPage_def PRECONDITION_def)
  moreover have "pv_fits (layoutCapacity l) ?h ?p"
    unfolding pv_fits_def
  proof
    fix p assume "p \<in> set ?p"
    then have "bufferAddress p \<in> set (map bufferAddress ?p)" by simp
    then have "bufferAddress p \<in> insert (length h) (bufferAddress ` set pages)" unfolding addr by auto
    then show "length (?h ! bufferAddress p) \<le> unat (layoutCapacity l)"
      using wf cap layout(2) by (auto simp: pv_wf_def pv_fits_def nth_append word_less_nat_alt)
  qed
  moreover have "set (map bufferAddress ?p) \<subseteq> set (map bufferAddress pages) \<union> {length h..<length ?h}"
    unfolding addr by auto
  ultimately show thesis
    using that writeRecord_new_page [OF wf fits, of r] by (simp add: nth_append)
next
  case False
  let ?h = "h[bufferAddress (last pages) := h ! bufferAddress (last pages) @ [r]]"
  have ne: "pages \<noteq> []" using False by simp
  have lt: "length (h ! bufferAddress (last pages)) < unat (layoutCapacity l)"
    using False length_page_u64 [OF wf last_in_set [OF ne]] by (simp add: word_le_nat_alt)
  have "writeRecord True l r h pages = Inr (?h, pages)"
    using False layout getNumberOfPages_zero [OF wf]
    by (auto simp: writeRecord_def createNewEntryProxy_def appendPageIfFull_def getNumberOfTuplesLastPage_def
        getLastPage_def PRECONDITION_def)
  moreover have "pv_fits (layoutCapacity l) ?h pages"
    using cap lt wf last_in_set [OF ne] by (auto simp: pv_fits_def pv_wf_def nth_list_update)
  moreover have "?h ! a = h ! a" if "a \<notin> bufferAddress ` set pages" for a
    using that ne by (metis imageI last_in_set nth_list_update_neq)
  ultimately show thesis
    using that writeRecord_same_page [OF wf ne fits refl, of r] by simp
qed

section \<open>Iteration\<close>

text \<open>An iterator at position \<open>n\<close> points to the slot of the \<open>n\<close>-th record unless it is at the end.\<close>

definition iter_at :: "'r pageStore \<Rightarrow> PagedVector \<Rightarrow> nat \<Rightarrow> PagedVectorRefIter \<Rightarrow> bool" where
  "iter_at h pages n it \<longleftrightarrow> unat (iterPos it) = n
     \<and> numberOfTuplesInPagedVector it = getTotalNumberOfEntries h pages
     \<and> (n < length (contents h pages) \<longrightarrow>
          (\<exists>i. i < length pages \<and> curPage it = Some (bufferAddress (pages ! i))
             \<and> length (contents h (take i pages)) \<le> n \<and> n < length (contents h (take (Suc i) pages))
             \<and> unat (posOnPage it) = n - length (contents h (take i pages))))"

lemma iter_at_lookup:
  assumes "pv_wf h pages" "numberOfTuplesInPagedVector it = getTotalNumberOfEntries h pages"
    and "curPage it = getTupleBufferForEntry h pages (iterPos it)"
    and "posOnPage it = getBufferPosForEntryProxy h pages (iterPos it)"
  shows "iter_at h pages (unat (iterPos it)) it"
proof -
  have "\<exists>i. i < length pages \<and> curPage it = Some (bufferAddress (pages ! i))
       \<and> length (contents h (take i pages)) \<le> unat (iterPos it) \<and> unat (iterPos it) < length (contents h (take (Suc i) pages))
       \<and> unat (posOnPage it) = unat (iterPos it) - length (contents h (take i pages))"
    if "unat (iterPos it) < length (contents h pages)"
    using entry_position [OF assms(1) that] assms(3,4) by metis
  then show ?thesis using assms(2) by (simp add: iter_at_def)
qed

lemma iter_at_begin: "pv_wf h pages \<Longrightarrow> iter_at h pages 0 (iter_begin h pages)"
  using iter_at_lookup [of h pages "iter_begin h pages"] by (simp add: iter_begin_def)

lemma iter_deref_at:
  assumes wf: "pv_wf h pages" and at: "iter_at h pages n it" and lt: "n < length (contents h pages)"
  shows "iter_deref proj h it = Inr (proj (contents h pages ! n))"
proof -
  obtain i where i: "i < length pages" "curPage it = Some (bufferAddress (pages ! i))"
    "length (contents h (take i pages)) \<le> n" "n < length (contents h (take (Suc i) pages))"
    "unat (posOnPage it) = n - length (contents h (take i pages))"
    using at lt by (auto simp: iter_at_def)
  show ?thesis
    using contents_nth_page [OF i(1,3,4)] i(1,2,5) wf by (simp add: iter_deref_def readSlot_def pv_wf_def)
qed

lemma iter_next_at:
  assumes wf: "pv_wf h pages" and at: "iter_at h pages n it" and lt: "n < length (contents h pages)"
  obtains it' where "iter_next h pages it = Inr it'" "iter_at h pages (Suc n) it'"
proof -
  obtain i where i: "i < length pages" "curPage it = Some (bufferAddress (pages ! i))"
    "length (contents h (take i pages)) \<le> n" "n < length (contents h (take (Suc i) pages))"
    "unat (posOnPage it) = n - length (contents h (take i pages))"
    using at lt by (auto simp: iter_at_def)
  have total: "unat (numberOfTuplesInPagedVector it) = length (contents h pages)" "unat (iterPos it) = n"
    using at getTotalNumberOfEntries_wf [OF wf] by (simp_all add: iter_at_def)
  have max: "length (contents h pages) < 2 ^ 64" using wf by (simp add: pv_wf_def)
  have pos: "unat (iterPos it + 1) = Suc n" using total(2) lt max by (subst unat_Suc_u64) simp_all
  have onPage: "unat (posOnPage it + 1) = Suc (n - length (contents h (take i pages)))"
    using i(5) lt max by (subst unat_Suc_u64) simp_all
  have page: "unat (getNumberOfTuples h (bufferAddress (pages ! i))) = length (h ! bufferAddress (pages ! i))"
    using length_page_u64 [OF wf nth_mem [OF i(1)]] .
  note take = contents_take_Suc [OF i(1), of h]
  consider (same) "Suc n < length (contents h (take (Suc i) pages))"
    | (next_page) "Suc n = length (contents h (take (Suc i) pages))" "Suc n < length (contents h pages)"
    | (finished) "Suc n = length (contents h (take (Suc i) pages))" "Suc n = length (contents h pages)"
    using i(4) lt contents_take_le [of h "Suc i" pages] by linarith
  then show thesis
  proof cases
    case same
    then have "\<not> getNumberOfTuples h (bufferAddress (pages ! i)) \<le> posOnPage it + 1"
      using onPage page take i(3) by (simp add: word_le_nat_alt)
    then have "iter_next h pages it = Inr (it\<lparr>iterPos := iterPos it + 1, posOnPage := posOnPage it + 1\<rparr>)"
      using i(2) by (simp add: iter_next_def Let_def)
    moreover have "iter_at h pages (Suc n) (it\<lparr>iterPos := iterPos it + 1, posOnPage := posOnPage it + 1\<rparr>)"
      using at i same pos onPage by (auto simp: iter_at_def Suc_diff_le)
    ultimately show thesis by (rule that)
  next
    case next_page
    let ?it = "it\<lparr>iterPos := iterPos it + 1, posOnPage := getBufferPosForEntryProxy h pages (iterPos it + 1),
                  curPage := getTupleBufferForEntry h pages (iterPos it + 1)\<rparr>"
    have "getNumberOfTuples h (bufferAddress (pages ! i)) \<le> posOnPage it + 1"
      using onPage page take i(3) next_page(1) by (simp add: word_le_nat_alt)
    moreover have "iterPos it + 1 < numberOfTuplesInPagedVector it"
      using pos total(1) next_page(2) by (simp add: word_less_nat_alt)
    ultimately have "iter_next h pages it = Inr ?it" using i(2) by (simp add: iter_next_def Let_def)
    moreover have "iter_at h pages (Suc n) ?it"
      using iter_at_lookup [OF wf, of ?it] at pos by (simp add: iter_at_def)
    ultimately show thesis by (rule that)
  next
    case finished
    let ?it = "it\<lparr>iterPos := iterPos it + 1, posOnPage := 0\<rparr>"
    have "getNumberOfTuples h (bufferAddress (pages ! i)) \<le> posOnPage it + 1"
      using onPage page take i(3) finished(1) by (simp add: word_le_nat_alt)
    moreover have "\<not> iterPos it + 1 < numberOfTuplesInPagedVector it"
      using pos total(1) finished(2) by (simp add: word_less_nat_alt)
    ultimately have "iter_next h pages it = Inr ?it" using i(2) by (simp add: iter_next_def Let_def)
    moreover have "iter_at h pages (Suc n) ?it" using at pos finished by (simp add: iter_at_def)
    ultimately show thesis by (rule that)
  qed
qed

lemma iterate_at:
  assumes wf: "pv_wf h pages" and "iter_at h pages n it" "n \<le> length (contents h pages)"
  shows "iterate proj h pages it = Some (Inr (map proj (drop n (contents h pages))))"
  using assms(2,3)
proof (induction "length (contents h pages) - n" arbitrary: n it)
  case 0
  then have "iter_eq it (iter_end h pages)"
    using getTotalNumberOfEntries_wf [OF wf]
    by (simp add: iter_eq_def iter_end_def iter_at_def word_unat_eq_iff Let_def)
  then show ?case using 0 by (simp add: iterate.simps)
next
  case (Suc k)
  then have lt: "n < length (contents h pages)" by simp
  have "\<not> iter_eq it (iter_end h pages)"
    using getTotalNumberOfEntries_wf [OF wf] Suc.prems(1) lt
    by (simp add: iter_eq_def iter_end_def iter_at_def word_unat_eq_iff Let_def)
  moreover obtain it' where it': "iter_next h pages it = Inr it'" "iter_at h pages (Suc n) it'"
    using iter_next_at [OF wf Suc.prems(1) lt] .
  moreover have "iterate proj h pages it' = Some (Inr (map proj (drop (Suc n) (contents h pages))))"
    using Suc.hyps it'(2) lt by simp
  ultimately show ?case
    using iter_deref_at [OF wf Suc.prems(1) lt, of proj] lt
    by (subst iterate.simps) (simp add: Cons_nth_drop_Suc [symmetric])
qed

section \<open>The contract of a sequence of records\<close>

text \<open>
  What the clients of a vector rely on: its records in order, their number, random access and
  iteration. \<open>ok\<close> says that the vector is well formed in the page store.
\<close>

locale record_sequence =
  fixes ok :: "'h \<Rightarrow> 'v \<Rightarrow> bool"
    and recs :: "'h \<Rightarrow> 'v \<Rightarrow> 'r list"
    and countOp :: "'h \<Rightarrow> 'v \<Rightarrow> u64"
    and readOp :: "('r \<Rightarrow> 'o) \<Rightarrow> 'h \<Rightarrow> 'v \<Rightarrow> u64 \<Rightarrow> 'o result"
    and iterOp :: "('r \<Rightarrow> 'o) \<Rightarrow> 'h \<Rightarrow> 'v \<Rightarrow> 'o list result option"
  assumes count_recs: "ok h v \<Longrightarrow> unat (countOp h v) = length (recs h v)"
    and read_recs: "ok h v \<Longrightarrow> unat pos < length (recs h v) \<Longrightarrow> readOp proj h v pos = Inr (proj (recs h v ! unat pos))"
    and iter_recs: "ok h v \<Longrightarrow> iterOp proj h v = Some (Inr (map proj (recs h v)))"
begin

lemma recs_less: "ok h v \<Longrightarrow> i < length (recs h v) \<Longrightarrow> i < 2 ^ 64"
  using count_recs [of h v] unat_u64_less [of "countOp h v"] by (simp del: unat_u64_less)

lemma read_of_nat: "ok h v \<Longrightarrow> i < length (recs h v) \<Longrightarrow> readOp proj h v (of_nat i) = Inr (proj (recs h v ! i))"
  using read_recs [of h v "of_nat i"] recs_less [of h v i] unat_of_nat_u64 [of i] by simp

end

definition iterateAll :: "('r \<Rightarrow> 'o) \<Rightarrow> 'r pageStore \<Rightarrow> PagedVector \<Rightarrow> 'o list result option" where
  "iterateAll proj h pages = iterate proj h pages (iter_begin h pages)"

interpretation pv: record_sequence pv_wf contents getTotalNumberOfEntries readRecord iterateAll
proof
  fix h :: "'a pageStore" and v pos and proj :: "'a \<Rightarrow> 'b"
  assume wf: "pv_wf h v"
  show "unat (getTotalNumberOfEntries h v) = length (contents h v)" using wf by (rule getTotalNumberOfEntries_wf)
  show "readRecord proj h v pos = Inr (proj (contents h v ! unat pos))" if "unat pos < length (contents h v)"
    using wf that by (rule readRecord_wf)
  show "iterateAll proj h v = Some (Inr (map proj (contents h v)))"
    using iterate_at [OF wf iter_at_begin [OF wf], of proj] by (simp add: iterateAll_def)
qed

section \<open>Properties\<close>

fun writeRecords :: "LayoutInfo \<Rightarrow> 'r list \<Rightarrow> 'r pageStore \<Rightarrow> PagedVector \<Rightarrow> ('r pageStore \<times> PagedVector) result" where
  "writeRecords l [] h pages = Inr (h, pages)"
| "writeRecords l (r # rs) h pages =
     andThen (writeRecord True l r h pages) (\<lambda>(h', pages'). writeRecords l rs h' pages')"

lemma writeRecords_wf:
  assumes "pv_wf h pages" "length (contents h pages) + length rs < 2 ^ 64"
    and "0 < layoutTupleSize l" "0 < layoutCapacity l" and "pv_fits (layoutCapacity l) h pages"
  shows "\<exists>h' pages'. writeRecords l rs h pages = Inr (h', pages') \<and> pv_wf h' pages'
     \<and> contents h' pages' = contents h pages @ rs \<and> pv_fits (layoutCapacity l) h' pages'"
  using assms
proof (induction rs arbitrary: h pages)
  case (Cons r rs)
  have lt: "length (contents h pages) + 1 < 2 ^ 64" using Cons.prems(2) by simp
  obtain h1 p1 where w: "writeRecord True l r h pages = Inr (h1, p1)" "pv_wf h1 p1"
    "contents h1 p1 = contents h pages @ [r]" "pv_fits (layoutCapacity l) h1 p1"
    by (rule writeRecord_wf [OF Cons.prems(1) lt Cons.prems(3,4,5), where r = r]) (rule that, assumption+)
  have "length (contents h1 p1) + length rs < 2 ^ 64" using Cons.prems(2) w(3) by simp
  from Cons.IH [OF w(2) this Cons.prems(3,4) w(4)] show ?case unfolding w(3) using w(1) by simp
qed simp



text \<open>
  Copying shares the last page: a record then written to the copy appears in the original as well.
\<close>

lemma copyFrom_aliases:
  "(case writeRecords \<lparr>layoutTupleSize = 8, layoutCapacity = 4\<rparr> [1 :: u64] [] [] of Inl e \<Rightarrow> Inl e
    | Inr (h, original) \<Rightarrow>
       let copy = copyFrom h [] original
       in andThen (writeRecord True \<lparr>layoutTupleSize = 8, layoutCapacity = 4\<rparr> 2 h copy) (\<lambda>(h', _).
            Inr (getTotalNumberOfEntries h original, getTotalNumberOfEntries h' original))) = Inr (1, 2)"
  by code_simp

end
