(* ===== verification/NestedLoopJoin.thy ===== *)
theory NestedLoopJoin
  imports WindowHandler PagedVector "HOL-Library.Multiset"
begin

text \<open>
  Records (\<open>src/nes-nautilus/src/Nautilus/Interface/Record.cpp\<close>) and the nested-loop join: its slices
  (\<open>Join/NestedLoopJoin/NLJSlice.cpp\<close>), what its handler emits for triggered windows
  (\<open>Join/StreamJoinOperatorHandler.cpp\<close>, \<open>NLJOperatorHandler.cpp\<close>), and the build and probe operators
  (\<open>NLJBuildPhysicalOperator.cpp\<close>, \<open>NLJProbePhysicalOperator.cpp\<close>, \<open>StreamJoinProbePhysicalOperator.cpp\<close>
  under \<open>src/nes-physical-operators/src\<close>).

  Slices are shared between windows, so the payload of a slice in the store is its address in a heap of
  \<open>NLJSlice\<close> objects, and their pages live in the page store of \<open>PagedVector\<close>. Values of fields and the
  join function are parameters.
\<close>

section \<open>Records\<close>

type_synonym 'v Record = "string \<rightharpoonup> 'v"

definition Record_read :: "'v Record \<Rightarrow> string \<Rightarrow> 'v result" where
  "Record_read r field = (case r field of None \<Rightarrow> Inl FieldNotFound | Some v \<Rightarrow> Inr v)"

definition Record_write :: "'v Record \<Rightarrow> string \<Rightarrow> 'v \<Rightarrow> 'v Record" where
  "Record_write r field v = r(field \<mapsto> v)"

definition Record_reassignFields :: "'v Record \<Rightarrow> (string \<times> 'v) list \<Rightarrow> 'v Record" where
  "Record_reassignFields r other = foldl (\<lambda>acc (f, v). Record_write acc f v) r other"

fun copyFields :: "'v Record \<Rightarrow> string list \<Rightarrow> 'v Record \<Rightarrow> 'v Record result" where
  "copyFields src [] dst = Inr dst"
| "copyFields src (fieldName # fs) dst =
     andThen (Record_read src fieldName) (\<lambda>v. copyFields src fs (Record_write dst fieldName v))"

record 'v WindowMetaData =
  windowStartFieldName :: string
  windowEndFieldName :: string
  timestampValue :: "u64 \<Rightarrow> 'v"

definition createJoinedRecord ::
  "'v WindowMetaData \<Rightarrow> 'v Record \<Rightarrow> 'v Record \<Rightarrow> u64 \<Rightarrow> u64 \<Rightarrow> string list \<Rightarrow> string list \<Rightarrow> 'v Record result" where
  "createJoinedRecord meta outerRecord innerRecord wStart wEnd projectionsOuter projectionsInner =
     (let r0 = Record_write Map.empty (windowStartFieldName meta) (timestampValue meta wStart);
          r1 = Record_write r0 (windowEndFieldName meta) (timestampValue meta wEnd)
      in andThen (copyFields outerRecord projectionsOuter r1) (\<lambda>r2.
         andThen (copyFields innerRecord projectionsInner r2) (\<lambda>r3.
         copyFields outerRecord projectionsOuter r3)))"

text \<open>Reading a stored record with a projection keeps the projected fields of the schema.\<close>

definition project :: "string list \<Rightarrow> 'v Record \<Rightarrow> 'v Record" where
  "project fs r = (\<lambda>f. if f \<in> set fs then r f else None)"

section \<open>Slices\<close>

datatype JoinBuildSideType = JoinRight | JoinLeft

record NLJSlice =
  leftPagedVectors :: "PagedVector list"
  rightPagedVectors :: "PagedVector list"

definition newNLJSlice :: "u64 \<Rightarrow> NLJSlice" where
  "newNLJSlice workers =
     \<lparr>leftPagedVectors = replicate (unat workers) [], rightPagedVectors = replicate (unat workers) []\<rparr>"

text \<open>
  \<open>std::accumulate\<close> with the initial value \<open>0\<close>: the accumulator is an \<open>int\<close>, so every sum is truncated to
  32 bits and sign-extended again.
\<close>

definition accumulateInt :: "('a \<Rightarrow> u64) \<Rightarrow> 'a list \<Rightarrow> u64" where
  "accumulateInt f xs = scast (foldl (\<lambda>acc x. ucast ((scast acc :: u64) + f x)) (0 :: 32 word) xs)"

definition getNumberOfTuplesLeft :: "'r pageStore \<Rightarrow> NLJSlice \<Rightarrow> u64" where
  "getNumberOfTuplesLeft h s = accumulateInt (getTotalNumberOfEntries h) (leftPagedVectors s)"

definition getNumberOfTuplesRight :: "'r pageStore \<Rightarrow> NLJSlice \<Rightarrow> u64" where
  "getNumberOfTuplesRight h s = accumulateInt (getTotalNumberOfEntries h) (rightPagedVectors s)"

text \<open>The position of the vector of a worker; the remainder by an empty list of vectors is undefined.\<close>

definition vectorPos :: "u32 \<Rightarrow> PagedVector list \<Rightarrow> nat result" where
  "vectorPos workerThreadId vs = (if vs = [] then Inl UndefinedBehaviour else Inr (unat workerThreadId mod length vs))"

definition getPagedVectorRefLeft :: "NLJSlice \<Rightarrow> u32 \<Rightarrow> PagedVector result" where
  "getPagedVectorRefLeft s workerThreadId =
     andThen (vectorPos workerThreadId (leftPagedVectors s)) (\<lambda>pos. Inr (leftPagedVectors s ! pos))"

definition getPagedVectorRefRight :: "NLJSlice \<Rightarrow> u32 \<Rightarrow> PagedVector result" where
  "getPagedVectorRefRight s workerThreadId =
     andThen (vectorPos workerThreadId (rightPagedVectors s)) (\<lambda>pos. Inr (rightPagedVectors s ! pos))"

definition getPagedVectorRef :: "NLJSlice \<Rightarrow> u32 \<Rightarrow> JoinBuildSideType \<Rightarrow> PagedVector result" where
  "getPagedVectorRef s workerThreadId side =
     (case side of JoinRight \<Rightarrow> getPagedVectorRefRight s workerThreadId
                 | JoinLeft \<Rightarrow> getPagedVectorRefLeft s workerThreadId)"

fun moveVectors :: "'r pageStore \<Rightarrow> PagedVector \<Rightarrow> PagedVector list \<Rightarrow> PagedVector" where
  "moveVectors h first [] = first"
| "moveVectors h first (v # vs) = moveVectors h (fst (moveAllPages h first v)) vs"

definition combineVectors :: "'r pageStore \<Rightarrow> PagedVector list \<Rightarrow> PagedVector list" where
  "combineVectors h vs = (if length vs > 1 then [moveVectors h (hd vs) (tl vs)] else vs)"

definition combinePagedVectors :: "'r pageStore \<Rightarrow> NLJSlice \<Rightarrow> NLJSlice" where
  "combinePagedVectors h s =
     \<lparr>leftPagedVectors = combineVectors h (leftPagedVectors s), rightPagedVectors = combineVectors h (rightPagedVectors s)\<rparr>"

section \<open>What the handler emits\<close>

text \<open>The buffer for the probe side: its header and the \<open>EmittedNLJWindowTrigger\<close> in it.\<close>

record ProbeBuffer =
  probeOrigin :: u64
  probeSequence :: SequenceData
  probeWatermark :: u64
  probeNumberOfTuples :: u64
  leftSliceEnd :: u64
  rightSliceEnd :: u64
  probeWindow :: WindowInfo

type_synonym nljHeap = "NLJSlice list"

definition emitSliceIdsToProbe ::
  "'r pageStore \<Rightarrow> u64 \<Rightarrow> nljHeap \<Rightarrow> nat Slice \<Rightarrow> nat Slice \<Rightarrow> WindowInfo \<Rightarrow> SequenceData \<Rightarrow> nljHeap \<times> ProbeBuffer" where
  "emitSliceIdsToProbe h outputOrigin heap sliceLeft sliceRight windowInfo sequenceData =
     (let l = slicePayload sliceLeft; r = slicePayload sliceRight;
          heap1 = heap[l := combinePagedVectors h (heap ! l)];
          heap2 = heap1[r := combinePagedVectors h (heap1 ! r)];
          totalNumberOfTuples = getNumberOfTuplesLeft h (heap2 ! l) + getNumberOfTuplesRight h (heap2 ! r)
      in (heap2,
          \<lparr>probeOrigin = outputOrigin, probeSequence = sequenceData, probeWatermark = windowStart windowInfo,
           probeNumberOfTuples = totalNumberOfTuples, leftSliceEnd = sliceEnd sliceLeft,
           rightSliceEnd = sliceEnd sliceRight, probeWindow = windowInfo\<rparr>))"

fun emitPairs ::
  "'r pageStore \<Rightarrow> u64 \<Rightarrow> WindowInfo \<Rightarrow> u64 \<Rightarrow> u64 \<Rightarrow> u64 \<Rightarrow> nljHeap \<Rightarrow> (nat Slice \<times> nat Slice) list
     \<Rightarrow> nljHeap \<times> ProbeBuffer list" where
  "emitPairs h outputOrigin windowInfo seqNo numberOfPairs chunkNo heap [] = (heap, [])"
| "emitPairs h outputOrigin windowInfo seqNo numberOfPairs chunkNo heap ((sliceLeft, sliceRight) # ps) =
     (let isLastChunk = (chunkNo = numberOfPairs);
          (heap1, b) = emitSliceIdsToProbe h outputOrigin heap sliceLeft sliceRight windowInfo
                         (SequenceData seqNo chunkNo isLastChunk);
          (heap2, bs) = emitPairs h outputOrigin windowInfo seqNo numberOfPairs (chunkNo + 1) heap1 ps
      in (heap2, b # bs))"

fun triggerJoinSlices ::
  "'r pageStore \<Rightarrow> u64 \<Rightarrow> nljHeap \<Rightarrow> nat emission list \<Rightarrow> nljHeap \<times> ProbeBuffer list" where
  "triggerJoinSlices h outputOrigin heap [] = (heap, [])"
| "triggerJoinSlices h outputOrigin heap ((windowInfo, seqNo, allSlices) # es) =
     (let (heap1, bs) = emitPairs h outputOrigin windowInfo seqNo
            (of_nat (length allSlices) * of_nat (length allSlices)) ChunkNumber_INITIAL heap
            (List.product allSlices allSlices);
          (heap2, bs') = triggerJoinSlices h outputOrigin heap1 es
      in (heap2, bs @ bs'))"

section \<open>Building and probing\<close>

text \<open>
  \<open>execute\<close> of the build operator: look up or create the slice of the record's timestamp, then append
  the record to the vector of the worker. A new slice is the next object of the heap.
\<close>

definition createNLJSlice :: "nljHeap \<Rightarrow> u64 \<Rightarrow> u64 \<Rightarrow> u64 \<Rightarrow> nat Slice list" where
  "createNLJSlice heap workers sStart sEnd = [\<lparr>sliceStart = sStart, sliceEnd = sEnd, slicePayload = length heap\<rparr>]"

definition updateVector :: "NLJSlice \<Rightarrow> u32 \<Rightarrow> JoinBuildSideType \<Rightarrow> PagedVector \<Rightarrow> NLJSlice" where
  "updateVector s workerThreadId side v =
     (case side of
        JoinRight \<Rightarrow> s\<lparr>rightPagedVectors := (rightPagedVectors s)[unat workerThreadId mod length (rightPagedVectors s) := v]\<rparr>
      | JoinLeft \<Rightarrow> s\<lparr>leftPagedVectors := (leftPagedVectors s)[unat workerThreadId mod length (leftPagedVectors s) := v]\<rparr>)"

definition nljBuildExecute ::
  "bool \<Rightarrow> LayoutInfo \<Rightarrow> u64 \<Rightarrow> u32 \<Rightarrow> JoinBuildSideType \<Rightarrow> u64 \<Rightarrow> 'r
     \<Rightarrow> nat SliceStore \<Rightarrow> nljHeap \<Rightarrow> 'r pageStore \<Rightarrow> (nat SliceStore \<times> nljHeap \<times> 'r pageStore) result" where
  "nljBuildExecute bufferAvailable layout workers workerThreadId side timestamp rec store heap h =
     andThen (PRECONDITION (workers > 0)) (\<lambda>_.
     andThen (getSlicesOrCreate (createNLJSlice heap workers) store timestamp) (\<lambda>(store', ss).
       let a = slicePayload (ss ! 0);
           heap1 = (if a = length heap then heap @ [newNLJSlice workers] else heap)
       in andThen (getPagedVectorRef (heap1 ! a) workerThreadId side) (\<lambda>v.
          andThen (writeRecord bufferAvailable layout rec h v) (\<lambda>(h', v').
            Inr (store', heap1[a := updateVector (heap1 ! a) workerThreadId side v'], h')))))"

text \<open>A side of the join as the memory layout describes it.\<close>

record JoinSide =
  keyFields :: "string list"
  allFields :: "string list"

record 'v JoinProbe =
  probeMeta :: "'v WindowMetaData"
  joinFunction :: "'v Record \<Rightarrow> bool result"

text \<open>The loops of \<open>performNLJ\<close>; the read operations and the positions are arguments of the inner loop.\<close>

fun nljInnerLoop ::
  "'v JoinProbe \<Rightarrow> JoinSide \<Rightarrow> JoinSide \<Rightarrow> u64 \<Rightarrow> u64 \<Rightarrow> (u64 \<Rightarrow> 'v Record result) \<Rightarrow> (u64 \<Rightarrow> 'v Record result)
     \<Rightarrow> 'v Record \<Rightarrow> u64 \<Rightarrow> 'v Record list \<Rightarrow> u64 \<Rightarrow> 'v Record list result" where
  "nljInnerLoop j outer inner wStart wEnd readOuter readInner outerKey outerItemPos [] innerItemPos = Inr []"
| "nljInnerLoop j outer inner wStart wEnd readOuter readInner outerKey outerItemPos (innerKey # ks) innerItemPos =
     andThen (createJoinedRecord (probeMeta j) outerKey innerKey wStart wEnd (keyFields outer) (keyFields inner)) (\<lambda>joinedKeyFields.
     andThen (joinFunction j joinedKeyFields) (\<lambda>matches.
     andThen (if matches
              then andThen (readOuter outerItemPos) (\<lambda>outerRecord.
                   andThen (readInner innerItemPos) (\<lambda>innerRecord.
                   andThen (createJoinedRecord (probeMeta j) outerRecord innerRecord wStart wEnd (allFields outer) (allFields inner))
                     (\<lambda>joinedRecord. Inr [joinedRecord])))
              else Inr []) (\<lambda>out.
     andThen (nljInnerLoop j outer inner wStart wEnd readOuter readInner outerKey outerItemPos ks (innerItemPos + 1))
       (\<lambda>outs. Inr (out @ outs)))))"

definition fromLoop :: "'a result option \<Rightarrow> 'a result" where
  "fromLoop r = (case r of None \<Rightarrow> Inl NonTermination | Some x \<Rightarrow> x)"

fun nljOuterLoop ::
  "'v JoinProbe \<Rightarrow> JoinSide \<Rightarrow> JoinSide \<Rightarrow> u64 \<Rightarrow> u64 \<Rightarrow> (u64 \<Rightarrow> 'v Record result) \<Rightarrow> (u64 \<Rightarrow> 'v Record result)
     \<Rightarrow> 'v Record list result \<Rightarrow> 'v Record list \<Rightarrow> u64 \<Rightarrow> 'v Record list result" where
  "nljOuterLoop j outer inner wStart wEnd readOuter readInner innerKeys [] outerItemPos = Inr []"
| "nljOuterLoop j outer inner wStart wEnd readOuter readInner innerKeys (outerKey # ks) outerItemPos =
     andThen innerKeys (\<lambda>iks.
     andThen (nljInnerLoop j outer inner wStart wEnd readOuter readInner outerKey outerItemPos iks 0) (\<lambda>out.
     andThen (nljOuterLoop j outer inner wStart wEnd readOuter readInner innerKeys ks (outerItemPos + 1)) (\<lambda>outs.
       Inr (out @ outs))))"

definition performNLJ ::
  "'v JoinProbe \<Rightarrow> JoinSide \<Rightarrow> JoinSide \<Rightarrow> 'v Record pageStore
     \<Rightarrow> PagedVector \<Rightarrow> PagedVector \<Rightarrow> u64 \<Rightarrow> u64 \<Rightarrow> 'v Record list result" where
  "performNLJ j outer inner h outerVector innerVector wStart wEnd =
     andThen (fromLoop (iterateAll (project (keyFields outer)) h outerVector)) (\<lambda>outerKeys.
       nljOuterLoop j outer inner wStart wEnd
         (readRecord (project (allFields outer)) h outerVector) (readRecord (project (allFields inner)) h innerVector)
         (fromLoop (iterateAll (project (keyFields inner)) h innerVector)) outerKeys 0)"

definition getNLJSliceRefFromEndProxy :: "nat SliceStore \<Rightarrow> nljHeap \<Rightarrow> u64 \<Rightarrow> NLJSlice result" where
  "getNLJSliceRefFromEndProxy store heap sEnd =
     andThen (INVARIANT (getSliceBySliceEnd store sEnd \<noteq> None)) (\<lambda>_.
       Inr (heap ! slicePayload (the (getSliceBySliceEnd store sEnd))))"

definition nljProbeOpen ::
  "'v JoinProbe \<Rightarrow> JoinSide \<Rightarrow> JoinSide \<Rightarrow> nat SliceStore \<Rightarrow> nljHeap \<Rightarrow> 'v Record pageStore \<Rightarrow> ProbeBuffer
     \<Rightarrow> 'v Record list result" where
  "nljProbeOpen j left right store heap h buffer =
     (let wStart = windowStart (probeWindow buffer); wEnd = windowEnd (probeWindow buffer)
      in andThen (getNLJSliceRefFromEndProxy store heap (leftSliceEnd buffer)) (\<lambda>sliceLeft.
         andThen (getNLJSliceRefFromEndProxy store heap (rightSliceEnd buffer)) (\<lambda>sliceRight.
         andThen (getPagedVectorRef sliceLeft 0 JoinLeft) (\<lambda>leftVector.
         andThen (getPagedVectorRef sliceRight 0 JoinRight) (\<lambda>rightVector.
           if getTotalNumberOfEntries h leftVector < getTotalNumberOfEntries h rightVector
           then performNLJ j left right h leftVector rightVector wStart wEnd
           else performNLJ j right left h rightVector leftVector wStart wEnd)))))"

section \<open>The loops compute the join\<close>

definition joinedSpec ::
  "'v WindowMetaData \<Rightarrow> string list \<Rightarrow> string list \<Rightarrow> u64 \<Rightarrow> u64 \<Rightarrow> 'v Record \<Rightarrow> 'v Record \<Rightarrow> 'v Record" where
  "joinedSpec meta po pi wStart wEnd a b =
     (\<lambda>f. if f \<in> set po then a f else if f \<in> set pi then b f
          else [windowStartFieldName meta \<mapsto> timestampValue meta wStart, windowEndFieldName meta \<mapsto> timestampValue meta wEnd] f)"

lemma copyFields_ok:
  "set fs \<subseteq> dom src \<Longrightarrow> copyFields src fs dst = Inr (\<lambda>f. if f \<in> set fs then src f else dst f)"
  by (induction src fs dst rule: copyFields.induct) (auto simp: Record_read_def Record_write_def fun_eq_iff split: option.splits)

lemma createJoinedRecord_ok:
  "set po \<subseteq> dom a \<Longrightarrow> set pi \<subseteq> dom b \<Longrightarrow>
   createJoinedRecord meta a b wStart wEnd po pi = Inr (joinedSpec meta po pi wStart wEnd a b)"
  by (auto simp: createJoinedRecord_def copyFields_ok joinedSpec_def Record_write_def fun_eq_iff Let_def)

lemma joinedSpec_project:
  "joinedSpec meta po pi wStart wEnd (project po a) (project pi b) = joinedSpec meta po pi wStart wEnd a b"
  by (auto simp: joinedSpec_def project_def)

lemma dom_project: "set fs \<subseteq> dom r \<Longrightarrow> set fs \<subseteq> dom (project fs r)"
  by (auto simp: project_def dom_def)

text \<open>The fields of both sides do not overlap, so it does not matter which side is the outer one.\<close>

lemma joinedSpec_swap:
  "set po \<inter> set pi = {} \<Longrightarrow> joinedSpec meta po pi wStart wEnd a b = joinedSpec meta pi po wStart wEnd b a"
  by (auto simp: joinedSpec_def fun_eq_iff)

definition side_ok :: "JoinSide \<Rightarrow> 'v Record list \<Rightarrow> bool" where
  "side_ok side rs \<longleftrightarrow> set (keyFields side) \<subseteq> set (allFields side) \<and> (\<forall>r \<in> set rs. set (allFields side) \<subseteq> dom r)"

lemma side_ok_allFields: "side_ok side rs \<Longrightarrow> r \<in> set rs \<Longrightarrow> set (allFields side) \<subseteq> dom r"
  by (simp only: side_ok_def)

lemma side_ok_keyFields: "side_ok side rs \<Longrightarrow> r \<in> set rs \<Longrightarrow> set (keyFields side) \<subseteq> dom r"
  using side_ok_allFields by (metis order_trans side_ok_def)

definition matchingPairs ::
  "('v Record \<Rightarrow> bool) \<Rightarrow> 'v WindowMetaData \<Rightarrow> JoinSide \<Rightarrow> JoinSide \<Rightarrow> u64 \<Rightarrow> u64 \<Rightarrow> 'v Record \<Rightarrow> 'v Record list \<Rightarrow> 'v Record list" where
  "matchingPairs matches meta outer inner wStart wEnd a bs =
     map (joinedSpec meta (allFields outer) (allFields inner) wStart wEnd a)
       (filter (\<lambda>b. matches (joinedSpec meta (keyFields outer) (keyFields inner) wStart wEnd a b)) bs)"

lemma nljInnerLoop_correct:
  assumes j: "joinFunction j = (\<lambda>r. Inr (matches r))"
    and a: "side_ok outer [a]" "readOuter outerPos = Inr (project (allFields outer) a)"
    and inner: "side_ok inner bs" "\<forall>i < length bs. readInner (of_nat i) = Inr (project (allFields inner) (bs ! i))"
  shows "n \<le> length bs \<Longrightarrow>
     nljInnerLoop j outer inner wStart wEnd readOuter readInner (project (keyFields outer) a) outerPos
       (map (project (keyFields inner)) (drop n bs)) (of_nat n)
     = Inr (matchingPairs matches (probeMeta j) outer inner wStart wEnd a (drop n bs))"
proof (induction "length bs - n" arbitrary: n)
  case 0
  then show ?case by (simp add: matchingPairs_def)
next
  case (Suc k)
  then have n: "n < length bs" by simp
  let ?b = "bs ! n"
  note fields = side_ok_keyFields [OF a(1), of a] side_ok_allFields [OF a(1), of a]
    side_ok_keyFields [OF inner(1) nth_mem [OF n]] side_ok_allFields [OF inner(1) nth_mem [OF n]]
  note joined = createJoinedRecord_ok [OF dom_project dom_project] joinedSpec_project
  have keys: "createJoinedRecord (probeMeta j) (project (keyFields outer) a) (project (keyFields inner) ?b) wStart wEnd
      (keyFields outer) (keyFields inner) = Inr (joinedSpec (probeMeta j) (keyFields outer) (keyFields inner) wStart wEnd a ?b)"
    using fields by (simp add: joined)
  have full: "createJoinedRecord (probeMeta j) (project (allFields outer) a) (project (allFields inner) ?b) wStart wEnd
      (allFields outer) (allFields inner) = Inr (joinedSpec (probeMeta j) (allFields outer) (allFields inner) wStart wEnd a ?b)"
    using fields by (simp add: joined)
  have IH: "nljInnerLoop j outer inner wStart wEnd readOuter readInner (project (keyFields outer) a) outerPos
       (map (project (keyFields inner)) (drop (Suc n) bs)) (of_nat n + 1)
     = Inr (matchingPairs matches (probeMeta j) outer inner wStart wEnd a (drop (Suc n) bs))"
    using Suc.hyps(1) [of "Suc n"] Suc.hyps(2) n by (simp add: add.commute)
  have step: "drop n bs = ?b # drop (Suc n) bs" using n by (simp add: Cons_nth_drop_Suc)
  show ?case
    unfolding step list.map nljInnerLoop.simps keys andThen_simps j inner(2) [rule_format, OF n] a(2) full IH
    by (simp add: matchingPairs_def)
qed

lemma nljOuterLoop_correct:
  assumes j: "joinFunction j = (\<lambda>r. Inr (matches r))"
    and outer: "side_ok outer as" "\<forall>i < length as. readOuter (of_nat i) = Inr (project (allFields outer) (as ! i))"
    and inner: "side_ok inner bs" "\<forall>i < length bs. readInner (of_nat i) = Inr (project (allFields inner) (bs ! i))"
  shows "n \<le> length as \<Longrightarrow>
     nljOuterLoop j outer inner wStart wEnd readOuter readInner (Inr (map (project (keyFields inner)) bs))
       (map (project (keyFields outer)) (drop n as)) (of_nat n)
     = Inr (concat (map (\<lambda>a. matchingPairs matches (probeMeta j) outer inner wStart wEnd a bs) (drop n as)))"
proof (induction "length as - n" arbitrary: n)
  case (Suc k)
  then have n: "n < length as" by simp
  have a: "side_ok outer [as ! n]" using outer(1) nth_mem [OF n] by (auto simp: side_ok_def)
  have first: "nljInnerLoop j outer inner wStart wEnd readOuter readInner (project (keyFields outer) (as ! n)) (of_nat n)
      (map (project (keyFields inner)) bs) 0 = Inr (matchingPairs matches (probeMeta j) outer inner wStart wEnd (as ! n) bs)"
    using nljInnerLoop_correct [where readOuter = readOuter and readInner = readInner and outerPos = "of_nat n" and n = 0,
        OF j a _ inner] outer(2) n by simp
  have IH: "nljOuterLoop j outer inner wStart wEnd readOuter readInner (Inr (map (project (keyFields inner)) bs))
       (map (project (keyFields outer)) (drop (Suc n) as)) (of_nat n + 1)
     = Inr (concat (map (\<lambda>a. matchingPairs matches (probeMeta j) outer inner wStart wEnd a bs) (drop (Suc n) as)))"
    using Suc.hyps(1) [of "Suc n"] Suc.hyps(2) n by (simp add: add.commute)
  have step: "drop n as = as ! n # drop (Suc n) as" using n by (simp add: Cons_nth_drop_Suc)
  show ?case unfolding step list.map nljOuterLoop.simps andThen_simps first IH by simp
qed simp

lemma performNLJ_correct:
  assumes "joinFunction j = (\<lambda>r. Inr (matches r))" "pv_wf h v" "pv_wf h w"
    and "side_ok outer (contents h v)" "side_ok inner (contents h w)"
  shows "performNLJ j outer inner h v w wStart wEnd
     = Inr (concat (map (\<lambda>a. matchingPairs matches (probeMeta j) outer inner wStart wEnd a (contents h w)) (contents h v)))"
proof -
  have "\<forall>i < length (contents h v). readRecord (project (allFields outer)) h v (of_nat i) = Inr (project (allFields outer) (contents h v ! i))"
    "\<forall>i < length (contents h w). readRecord (project (allFields inner)) h w (of_nat i) = Inr (project (allFields inner) (contents h w ! i))"
    by (simp_all add: pv.read_of_nat [OF assms(2)] pv.read_of_nat [OF assms(3)])
  from nljOuterLoop_correct [OF assms(1,4) this(1) assms(5) this(2), of 0] show ?thesis
    by (simp add: performNLJ_def fromLoop_def pv.iter_recs [OF assms(2)] pv.iter_recs [OF assms(3)])
qed

section \<open>Combining the vectors of the workers\<close>

definition sideContents :: "'r pageStore \<Rightarrow> PagedVector list \<Rightarrow> 'r list" where
  "sideContents h vs = concat (map (contents h) vs)"

definition vectors_wf :: "'r pageStore \<Rightarrow> PagedVector list \<Rightarrow> bool" where
  "vectors_wf h vs \<longleftrightarrow> (\<forall>v \<in> set vs. pv_wf h v) \<and> distinct (concat (map (map bufferAddress) vs))
     \<and> length (sideContents h vs) < 2 ^ 64"

lemma addPages_addresses: "map bufferAddress (addPages h a b) = map bufferAddress a @ map bufferAddress b"
  by (simp add: addPages_def updateCumulativeSumAllPages_def)

lemma moveVectors_wf:
  assumes "vectors_wf h (v # vs)"
  shows "pv_wf h (moveVectors h v vs) \<and> contents h (moveVectors h v vs) = contents h v @ sideContents h vs"
  using assms
proof (induction h v vs rule: moveVectors.induct)
  case (2 h first v vs)
  have wf: "pv_wf h first" "pv_wf h v" "set (map bufferAddress first) \<inter> set (map bufferAddress v) = {}"
    "length (contents h first) + length (contents h v) < 2 ^ 64"
    using "2.prems" by (auto simp: vectors_wf_def sideContents_def)
  let ?m = "addPages h first v"
  note m = pv_wf_addPages [OF wf]
  have "distinct (concat (map (map bufferAddress) (?m # vs)))"
    using "2.prems" by (simp add: vectors_wf_def addPages_addresses)
  moreover have "length (sideContents h (?m # vs)) < 2 ^ 64"
    using "2.prems" by (simp add: vectors_wf_def sideContents_def m(2))
  ultimately have "vectors_wf h (?m # vs)"
    using "2.prems" m(1) by (simp add: vectors_wf_def)
  with "2.IH" show ?case by (simp add: moveAllPages_def copyFrom_def sideContents_def m(2))
qed (simp add: vectors_wf_def sideContents_def)

lemma combineVectors_wf:
  assumes "vectors_wf h vs" "vs \<noteq> []"
  obtains v where "combineVectors h vs = [v]" "pv_wf h v" "contents h v = sideContents h vs"
proof -
  obtain w ws where vs: "vs = w # ws" using assms(2) by (cases vs) auto
  show thesis
  proof (cases ws)
    case Nil
    then show thesis using that [of w] assms(1) by (simp add: vs combineVectors_def vectors_wf_def sideContents_def)
  next
    case Cons
    then show thesis
      using that [of "moveVectors h w ws"] moveVectors_wf [of h w ws] assms(1)
      by (simp add: vs combineVectors_def sideContents_def)
  qed
qed

lemma combineVectors_idem: "combineVectors h (combineVectors h' vs) = combineVectors h' vs"
  by (simp add: combineVectors_def)

lemma combinePagedVectors_idem: "combinePagedVectors h (combinePagedVectors h' s) = combinePagedVectors h' s"
  by (simp add: combinePagedVectors_def combineVectors_idem)

section \<open>Counting with an int accumulator\<close>

lemma scast_small: "unat (a :: 32 word) < 2 ^ 31 \<Longrightarrow> unat (scast a :: u64) = unat a"
proof -
  assume a: "unat a < 2 ^ 31"
  have u: "uint a < 2 ^ 31" using a by (metis of_nat_less_iff of_nat_numeral of_nat_power uint_nat)
  have "sint a = signed_take_bit 31 (uint a)" by (simp add: sint_uint)
  also have "\<dots> = uint a" using u by (intro signed_take_bit_int_eq_self) (auto intro: order_trans [OF _ uint_ge_0])
  finally have "(scast a :: u64) = ucast a" by (simp only: scast_eq ucast_eq)
  moreover have "unat (ucast a :: u64) = take_bit 64 (unat a)" by (simp add: unsigned_ucast_eq)
  moreover have "take_bit 64 (unat a) = unat a" using a by (intro take_bit_nat_eq_self) simp
  ultimately show ?thesis by (simp only:)
qed

lemma accumulateInt_step:
  "unat (a :: 32 word) + unat (x :: u64) < 2 ^ 31 \<Longrightarrow> unat (ucast ((scast a :: u64) + x) :: 32 word) = unat a + unat x"
proof -
  assume lt: "unat a + unat x < 2 ^ 31"
  then have "unat ((scast a :: u64) + x) = unat a + unat x"
    using scast_small [of a] by (subst unat_add_u64) simp_all
  moreover have "unat (ucast ((scast a :: u64) + x) :: 32 word) = take_bit 32 (unat ((scast a :: u64) + x))"
    by (simp add: unsigned_ucast_eq)
  moreover have "take_bit 32 (unat a + unat x) = unat a + unat x" using lt by (intro take_bit_nat_eq_self) simp
  ultimately show ?thesis by (simp only:)
qed

lemma accumulateInt_fold:
  "unat (a :: 32 word) + sum_list (map (\<lambda>x. unat (f x)) xs) < 2 ^ 31 \<Longrightarrow>
   unat (foldl (\<lambda>acc x. ucast ((scast acc :: u64) + f x)) a xs :: 32 word) = unat a + sum_list (map (\<lambda>x. unat (f x)) xs)"
proof (induction xs arbitrary: a)
  case (Cons x xs)
  let ?a = "ucast ((scast a :: u64) + f x) :: 32 word"
  have "unat ?a = unat a + unat (f x)" using Cons.prems by (intro accumulateInt_step) simp
  with Cons.IH [of ?a] Cons.prems show ?case by simp
qed simp

lemma accumulateInt_sum:
  assumes "sum_list (map (\<lambda>x. unat (f x)) xs) < 2 ^ 31"
  shows "unat (accumulateInt f xs) = sum_list (map (\<lambda>x. unat (f x)) xs)"
  using accumulateInt_fold [of 0 f xs] scast_small assms by (simp add: accumulateInt_def)

section \<open>The probe as a multiset of joined records\<close>

lemma mset_concat_append:
  "mset (concat (map (\<lambda>b. f b @ g b) bs)) = mset (concat (map f bs)) + mset (concat (map g bs))"
  by (induction bs) auto

lemma concat_filter_map: "concat (map (\<lambda>b. if P b then [f b] else []) bs) = map f (filter P bs)"
  by (induction bs) auto

lemma filter_map_swap:
  "mset (concat (map (\<lambda>a. map (f a) (filter (P a) bs)) as))
   = mset (concat (map (\<lambda>b. map (\<lambda>a. f a b) (filter (\<lambda>a. P a b) as)) bs))"
proof (induction as)
  case (Cons a as)
  have "map (\<lambda>a. f a b) (filter (\<lambda>a. P a b) (a # as))
      = (if P a b then [f a b] else []) @ map (\<lambda>a. f a b) (filter (\<lambda>a. P a b) as)" for b
    by simp
  then show ?case using Cons.IH by (simp only: mset_concat_append concat_filter_map list.map concat.simps mset_append)
qed simp

definition joinOf ::
  "('v Record \<Rightarrow> bool) \<Rightarrow> 'v WindowMetaData \<Rightarrow> JoinSide \<Rightarrow> JoinSide \<Rightarrow> u64 \<Rightarrow> u64 \<Rightarrow> 'v Record list \<Rightarrow> 'v Record list
     \<Rightarrow> 'v Record multiset" where
  "joinOf matches meta left right wStart wEnd ls rs =
     image_mset (\<lambda>(l, r). joinedSpec meta (allFields left) (allFields right) wStart wEnd l r)
       (filter_mset (\<lambda>(l, r). matches (joinedSpec meta (keyFields left) (keyFields right) wStart wEnd l r))
          (mset (List.product ls rs)))"

lemma joinOf_loops:
  "mset (concat (map (\<lambda>a. matchingPairs matches meta left right wStart wEnd a rs) ls)) = joinOf matches meta left right wStart wEnd ls rs"
proof (induction ls)
  case (Cons l ls)
  have "image_mset (\<lambda>(l, r). joinedSpec meta (allFields left) (allFields right) wStart wEnd l r)
       (filter_mset (\<lambda>(l, r). matches (joinedSpec meta (keyFields left) (keyFields right) wStart wEnd l r)) (mset (map (Pair l) rs)))
     = mset (matchingPairs matches meta left right wStart wEnd l rs)"
    by (induction rs) (auto simp: matchingPairs_def)
  with Cons.IH show ?case by (simp add: joinOf_def)
qed (simp add: joinOf_def)

lemma joinOf_swap:
  assumes "set (allFields left) \<inter> set (allFields right) = {}" "set (keyFields left) \<inter> set (keyFields right) = {}"
  shows "mset (concat (map (\<lambda>b. matchingPairs matches meta right left wStart wEnd b ls) rs)) = joinOf matches meta left right wStart wEnd ls rs"
proof -
  have "mset (concat (map (\<lambda>b. matchingPairs matches meta right left wStart wEnd b ls) rs))
      = mset (concat (map (\<lambda>a. matchingPairs matches meta left right wStart wEnd a rs) ls))"
    unfolding matchingPairs_def
      joinedSpec_swap [OF assms(1)] joinedSpec_swap [OF assms(2)] by (rule filter_map_swap [symmetric])
  then show ?thesis by (simp only: joinOf_loops)
qed

definition combined_slice :: "'r pageStore \<Rightarrow> NLJSlice \<Rightarrow> bool" where
  "combined_slice h s \<longleftrightarrow> leftPagedVectors s \<noteq> [] \<and> rightPagedVectors s \<noteq> []
     \<and> vectors_wf h (leftPagedVectors s) \<and> vectors_wf h (rightPagedVectors s)"

text \<open>
  C3. Probing a buffer that the join handler emitted for two slices produces, as a multiset, exactly one
  joined record for every pair of a left record of the first slice and a right record of the second that
  the join function accepts, whichever worker stored the records and whichever side is iterated in the
  outer loop, provided the two schemas share no field name.
\<close>

theorem nljProbe_joins:
  assumes "joinFunction j = (\<lambda>r. Inr (matches r))"
    and "combined_slice h s1" "combined_slice h s2"
    and "getSliceBySliceEnd store (leftSliceEnd b) = Some sl" "heap ! slicePayload sl = combinePagedVectors h s1"
    and "getSliceBySliceEnd store (rightSliceEnd b) = Some sr" "heap ! slicePayload sr = combinePagedVectors h s2"
    and "side_ok left (sideContents h (leftPagedVectors s1))" "side_ok right (sideContents h (rightPagedVectors s2))"
    and "set (allFields left) \<inter> set (allFields right) = {}"
  shows "\<exists>out. nljProbeOpen j left right store heap h b = Inr out
     \<and> mset out = joinOf matches (probeMeta j) left right (windowStart (probeWindow b)) (windowEnd (probeWindow b))
         (sideContents h (leftPagedVectors s1)) (sideContents h (rightPagedVectors s2))"
proof -
  obtain v where v: "combineVectors h (leftPagedVectors s1) = [v]" "pv_wf h v" "contents h v = sideContents h (leftPagedVectors s1)"
    using combineVectors_wf assms(2) unfolding combined_slice_def by blast
  obtain w where w: "combineVectors h (rightPagedVectors s2) = [w]" "pv_wf h w" "contents h w = sideContents h (rightPagedVectors s2)"
    using combineVectors_wf assms(3) unfolding combined_slice_def by blast
  have keys: "set (keyFields left) \<inter> set (keyFields right) = {}"
    using assms(8-10) unfolding side_ok_def by blast
  let ?ws = "windowStart (probeWindow b)" let ?we = "windowEnd (probeWindow b)"
  have "nljProbeOpen j left right store heap h b =
      (if getTotalNumberOfEntries h v < getTotalNumberOfEntries h w then performNLJ j left right h v w ?ws ?we
       else performNLJ j right left h w v ?ws ?we)"
    by (simp add: nljProbeOpen_def getNLJSliceRefFromEndProxy_def assms(4-7) getPagedVectorRef_def
        getPagedVectorRefLeft_def getPagedVectorRefRight_def vectorPos_def combinePagedVectors_def v(1) w(1))
  then show ?thesis
    using performNLJ_correct [OF assms(1) v(2) w(2), of left right ?ws ?we]
      performNLJ_correct [OF assms(1) w(2) v(2), of right left ?ws ?we] assms(8,9) unfolding v(3) w(3)
    by (simp add: joinOf_loops joinOf_swap [OF assms(10) keys, unfolded joinOf_loops])
qed

theorem nljProbe_joins_witness:
  "\<exists>out. nljProbeOpen
       \<lparr>probeMeta = \<lparr>windowStartFieldName = ''start'', windowEndFieldName = ''end'', timestampValue = id\<rparr>,
        joinFunction = (\<lambda>r. Inr (r ''l'' = r ''r''))\<rparr>
       \<lparr>keyFields = [''l''], allFields = [''l'']\<rparr> \<lparr>keyFields = [''r''], allFields = [''r'']\<rparr>
       ((newSliceStore 10 10 2)\<lparr>slices := [(10, \<lparr>sliceStart = 0, sliceEnd = 10, slicePayload = 0\<rparr>)]\<rparr>)
       [combinePagedVectors [[[''l'' \<mapsto> 5 :: u64]], [[''r'' \<mapsto> 5]]]
          \<lparr>leftPagedVectors = [[\<lparr>cumulativeSum = 0, bufferAddress = 0\<rparr>]],
           rightPagedVectors = [[\<lparr>cumulativeSum = 0, bufferAddress = 1\<rparr>]]\<rparr>]
       [[[''l'' \<mapsto> 5]], [[''r'' \<mapsto> 5]]]
       \<lparr>probeOrigin = 3, probeSequence = SequenceData 1 1 True, probeWatermark = 0, probeNumberOfTuples = 2,
        leftSliceEnd = 10, rightSliceEnd = 10, probeWindow = WindowInfo 0 10\<rparr> = Inr out \<and> length out = 1"
proof -
  let ?m = "\<lparr>windowStartFieldName = ''start'', windowEndFieldName = ''end'', timestampValue = id\<rparr> :: u64 WindowMetaData"
  let ?f = "\<lambda>r :: u64 Record. r ''l'' = r ''r''"
  let ?j = "\<lparr>probeMeta = ?m, joinFunction = (\<lambda>r. Inr (?f r))\<rparr>"
  let ?l = "\<lparr>keyFields = [''l''], allFields = [''l'']\<rparr>" let ?r = "\<lparr>keyFields = [''r''], allFields = [''r'']\<rparr>"
  let ?h = "[[[''l'' \<mapsto> 5]], [[''r'' \<mapsto> 5]]] :: u64 Record pageStore"
  let ?s = "\<lparr>leftPagedVectors = [[\<lparr>cumulativeSum = 0, bufferAddress = 0\<rparr>]],
           rightPagedVectors = [[\<lparr>cumulativeSum = 0, bufferAddress = 1\<rparr>]]\<rparr>"
  let ?sl = "\<lparr>sliceStart = 0, sliceEnd = 10, slicePayload = 0\<rparr> :: nat Slice"
  let ?store = "(newSliceStore 10 10 2)\<lparr>slices := [(10, ?sl)]\<rparr>"
  let ?b = "\<lparr>probeOrigin = 3, probeSequence = SequenceData 1 1 True, probeWatermark = 0, probeNumberOfTuples = 2,
        leftSliceEnd = 10, rightSliceEnd = 10, probeWindow = WindowInfo 0 10\<rparr>"
  have "combined_slice ?h ?s"
    by (simp add: combined_slice_def vectors_wf_def pv_wf_def sideContents_def)
  moreover have "getSliceBySliceEnd ?store 10 = Some ?sl"
    by (simp add: getSliceBySliceEnd_def newSliceStore_def omap_find_def)
  moreover have "side_ok ?l (sideContents ?h (leftPagedVectors ?s))" "side_ok ?r (sideContents ?h (rightPagedVectors ?s))"
    by (simp_all add: side_ok_def sideContents_def)
  ultimately obtain out where out: "nljProbeOpen ?j ?l ?r ?store [combinePagedVectors ?h ?s] ?h ?b = Inr out"
    "mset out = joinOf ?f ?m ?l ?r 0 10 (sideContents ?h (leftPagedVectors ?s)) (sideContents ?h (rightPagedVectors ?s))"
    using nljProbe_joins [of ?j ?f ?h ?s ?s ?store ?b ?sl "[combinePagedVectors ?h ?s]" ?sl ?l ?r] by auto
  have "length out = size (mset out)" by (rule size_mset [symmetric])
  also have "\<dots> = 1" unfolding out(2) by (simp add: joinOf_def sideContents_def joinedSpec_def)
  finally show ?thesis using out(1) by blast
qed



text \<open>A side with \<open>2 ^ 31\<close> records is reported with a number close to \<open>2 ^ 64\<close>.\<close>

lemma accumulateInt_overflow: "accumulateInt id [2 ^ 31] = 0xFFFFFFFF80000000"
  by code_simp

section \<open>The emitted buffers form a chunk stream\<close>

definition probeEvents :: "ProbeBuffer list \<Rightarrow> chunkEvent list" where
  "probeEvents bs = map (\<lambda>b. (probeSequence b, probeWatermark b)) bs"

definition windowEvents :: "'p emission \<Rightarrow> chunkEvent list" where
  "windowEvents e = (case e of (w, s, ss) \<Rightarrow>
     map (\<lambda>i. (SequenceData s (of_nat (Suc i)) (Suc i = length ss * length ss), windowStart w)) [0..<length ss * length ss])"

definition emission_ok :: "'p emission \<Rightarrow> bool" where
  "emission_ok e \<longleftrightarrow> (case e of (w, s, ss) \<Rightarrow>
     s \<noteq> 0 \<and> unat s + BlockSize < 2 ^ 64 \<and> ss \<noteq> [] \<and> length ss * length ss < 2 ^ 64)"

lemma emitSliceIdsToProbe_fields:
  "emitSliceIdsToProbe h og heap sl sr w d = (heap', b) \<Longrightarrow>
   probeSequence b = d \<and> probeWatermark b = windowStart w \<and> leftSliceEnd b = sliceEnd sl
     \<and> rightSliceEnd b = sliceEnd sr \<and> probeWindow b = w"
  by (auto simp: emitSliceIdsToProbe_def Let_def)

lemma emitPairs_Cons:
  obtains heap' b where "emitSliceIdsToProbe h og heap sl sr w (SequenceData s c (c = n)) = (heap', b)"
    "snd (emitPairs h og w s n c heap ((sl, sr) # ps)) = b # snd (emitPairs h og w s n (c + 1) heap' ps)"
  by (cases "emitSliceIdsToProbe h og heap sl sr w (SequenceData s c (c = n))") (simp add: split_beta)

lemma emitPairs_events:
  "probeEvents (snd (emitPairs h og w s n c heap ps)) =
     map (\<lambda>i. (SequenceData s (c + of_nat i) (c + of_nat i = n), windowStart w)) [0..<length ps]"
proof (induction ps arbitrary: c heap)
  case (Cons p ps)
  obtain sl sr where p: "p = (sl, sr)" by (cases p)
  obtain heap' b where e: "emitSliceIdsToProbe h og heap sl sr w (SequenceData s c (c = n)) = (heap', b)"
    "snd (emitPairs h og w s n c heap (p # ps)) = b # snd (emitPairs h og w s n (c + 1) heap' ps)"
    using emitPairs_Cons unfolding p by blast
  have "map (\<lambda>i. (SequenceData s (c + of_nat i) (c + of_nat i = n), windowStart w)) [0..<Suc (length ps)]
      = (SequenceData s c (c = n), windowStart w)
        # map (\<lambda>i. (SequenceData s (c + 1 + of_nat i) (c + 1 + of_nat i = n), windowStart w)) [0..<length ps]"
    by (simp only: upt_conv_Cons map_Suc_upt [symmetric] list.map zero_less_Suc map_map comp_def) (simp add: add_ac)
  with Cons.IH [of "c + 1" heap'] emitSliceIdsToProbe_fields [OF e(1)] show ?case
    unfolding e(2) by (simp add: probeEvents_def del: upt_Suc)
qed (simp add: probeEvents_def)

lemma emitPairs_slices:
  "map (\<lambda>b. (probeWindow b, leftSliceEnd b, rightSliceEnd b)) (snd (emitPairs h og w s n c heap ps)) =
     map (\<lambda>(l, r). (w, sliceEnd l, sliceEnd r)) ps"
proof (induction ps arbitrary: c heap)
  case (Cons p ps)
  obtain sl sr where p: "p = (sl, sr)" by (cases p)
  obtain heap' b where e: "emitSliceIdsToProbe h og heap sl sr w (SequenceData s c (c = n)) = (heap', b)"
    "snd (emitPairs h og w s n c heap (p # ps)) = b # snd (emitPairs h og w s n (c + 1) heap' ps)"
    using emitPairs_Cons unfolding p by blast
  show ?case unfolding e(2) using Cons.IH emitSliceIdsToProbe_fields [OF e(1)] by (simp add: p)
qed simp

lemma of_nat_eq_u64: "a < 2 ^ 64 \<Longrightarrow> b < 2 ^ 64 \<Longrightarrow> (of_nat a :: u64) = of_nat b \<longleftrightarrow> a = b"
  using unat_of_nat_u64 by metis

lemma emitPairs_windowEvents:
  assumes "emission_ok (w, s, ss)"
  shows "probeEvents (snd (emitPairs h og w s (of_nat (length ss) * of_nat (length ss)) ChunkNumber_INITIAL heap (List.product ss ss)))
     = windowEvents (w, s, ss)"
proof -
  have "(1 + of_nat i = (of_nat (length ss) * of_nat (length ss) :: u64)) = (Suc i = length ss * length ss)"
    if "i < length ss * length ss" for i
    using of_nat_eq_u64 [of "Suc i" "length ss * length ss"] that assms by (simp add: emission_ok_def)
  then show ?thesis
    by (auto simp: emitPairs_events windowEvents_def ChunkNumber_INITIAL_def SequenceNumber_INITIAL_def)
qed

lemma triggerJoinSlices_Cons:
  obtains heap' where "snd (triggerJoinSlices h og heap ((w, s, ss) # E)) =
     snd (emitPairs h og w s (of_nat (length ss) * of_nat (length ss)) ChunkNumber_INITIAL heap (List.product ss ss))
     @ snd (triggerJoinSlices h og heap' E)"
  by (cases "emitPairs h og w s (of_nat (length ss) * of_nat (length ss)) ChunkNumber_INITIAL heap (List.product ss ss)")
    (simp add: split_beta)

lemma triggerJoinSlices_events:
  "list_all emission_ok E \<Longrightarrow> probeEvents (snd (triggerJoinSlices h og heap E)) = concat (map windowEvents E)"
proof (induction E arbitrary: heap)
  case (Cons e E)
  obtain w s ss where e: "e = (w, s, ss)" by (cases e)
  obtain heap' where "snd (triggerJoinSlices h og heap (e # E)) =
     snd (emitPairs h og w s (of_nat (length ss) * of_nat (length ss)) ChunkNumber_INITIAL heap (List.product ss ss))
     @ snd (triggerJoinSlices h og heap' E)"
    using triggerJoinSlices_Cons unfolding e by blast
  then show ?case
    using Cons.IH [of heap'] Cons.prems emitPairs_windowEvents [of w s ss h og heap] by (simp add: probeEvents_def e)
qed (simp add: probeEvents_def)

lemma triggerJoinSlices_slices:
  "map (\<lambda>b. (probeWindow b, leftSliceEnd b, rightSliceEnd b)) (snd (triggerJoinSlices h og heap E)) =
     concat (map (\<lambda>(w, s, ss). map (\<lambda>(l, r). (w, sliceEnd l, sliceEnd r)) (List.product ss ss)) E)"
proof (induction E arbitrary: heap)
  case (Cons e E)
  obtain w s ss where e: "e = (w, s, ss)" by (cases e)
  obtain heap' where "snd (triggerJoinSlices h og heap (e # E)) =
     snd (emitPairs h og w s (of_nat (length ss) * of_nat (length ss)) ChunkNumber_INITIAL heap (List.product ss ss))
     @ snd (triggerJoinSlices h og heap' E)"
    using triggerJoinSlices_Cons unfolding e by blast
  then show ?case using Cons.IH by (simp add: emitPairs_slices e)
qed simp

lemma valid_chunks_mset:
  assumes "mset evs = mset evs'" "valid_chunks N lastChunkOf evs'"
  shows "valid_chunks N lastChunkOf evs"
proof -
  let ?f = "\<lambda>e :: chunkEvent. (sequenceNumber (fst e), chunkNumber (fst e))"
  have "mset (map ?f evs) = mset (map ?f evs')" using assms(1) by (simp only: mset_map)
  then have "distinct (map ?f evs) \<longleftrightarrow> distinct (map ?f evs')" by (rule mset_eq_imp_distinct_iff)
  moreover have "set evs = set evs'" using assms(1) by (rule mset_eq_setD)
  ultimately show ?thesis using assms(2) unfolding valid_chunks_def list_all_iff by blast
qed

lemma seqEvents_mset: "mset evs = mset evs' \<Longrightarrow> mset (seqEvents q evs) = mset (seqEvents q evs')"
  by (simp only: seqEvents_def mset_filter)

lemma windowEvents_props:
  assumes "emission_ok (w, s, ss)" "e \<in> set (windowEvents (w, s, ss))"
  shows "sequenceNumber (fst e) = s" "snd e = windowStart w" "chunk_of (of_nat (length ss) * of_nat (length ss)) e"
proof -
  let ?n = "length ss * length ss"
  have n: "?n < 2 ^ 64" using assms(1) by (simp add: emission_ok_def)
  obtain i where i: "i < ?n" "e = (SequenceData s (of_nat (Suc i)) (Suc i = ?n), windowStart w)"
    using assms(2) by (auto simp: windowEvents_def)
  then show "sequenceNumber (fst e) = s" "snd e = windowStart w" by simp_all
  have "unat (of_nat (Suc i) :: u64) = Suc i" "unat (of_nat ?n :: u64) = ?n"
    using i(1) n by (intro unat_of_nat_u64; simp)+
  then have "1 \<le> (of_nat (Suc i) :: u64) \<and> (of_nat (Suc i) :: u64) \<le> of_nat ?n \<and> ((of_nat (Suc i) :: u64) = of_nat ?n) = (Suc i = ?n)"
    using i(1) unfolding word_le_nat_alt word_unat_eq_iff by simp
  then show "chunk_of (of_nat (length ss) * of_nat (length ss)) e"
    unfolding chunk_of_def i(2) of_nat_mult [symmetric] by simp
qed

lemma windowEvents_distinct:
  assumes "emission_ok (w, s, ss)"
  shows "distinct (map (\<lambda>e. (sequenceNumber (fst e), chunkNumber (fst e))) (windowEvents (w, s, ss)))"
proof -
  let ?n = "length ss * length ss"
  have "inj_on (\<lambda>i. of_nat (Suc i) :: u64) {0..<?n}"
  proof (rule inj_onI)
    fix i j assume ij: "i \<in> {0..<?n}" "j \<in> {0..<?n}" "(of_nat (Suc i) :: u64) = of_nat (Suc j)"
    then have "Suc i < 2 ^ 64" "Suc j < 2 ^ 64" using assms by (auto simp: emission_ok_def)
    with of_nat_eq_u64 [of "Suc i" "Suc j"] ij(3) show "i = j" by blast
  qed
  then show ?thesis by (simp add: windowEvents_def distinct_map comp_def inj_on_def)
qed

lemma windowEvents_valid:
  assumes "list_all emission_ok E" "distinct (map (\<lambda>e. fst (snd e)) E)"
    and "\<forall>(w, s, ss) \<in> set E. lastChunkOf s = of_nat (length ss) * of_nat (length ss)"
  shows "valid_chunks BlockSize lastChunkOf (concat (map windowEvents E))"
  using assms
proof (induction E)
  case (Cons e E)
  let ?f = "\<lambda>e :: chunkEvent. (sequenceNumber (fst e), chunkNumber (fst e))"
  obtain w s ss where e: "e = (w, s, ss)" by (cases e)
  have ok: "emission_ok (w, s, ss)" and last: "lastChunkOf s = of_nat (length ss) * of_nat (length ss)"
    using Cons.prems(1,3) by (auto simp: e)
  have other: "sequenceNumber (fst x) \<noteq> s" if x: "x \<in> set (concat (map windowEvents E))" for x
  proof -
    obtain w' s' ss' where "(w', s', ss') \<in> set E" "x \<in> set (windowEvents (w', s', ss'))"
      using x by fastforce
    then show ?thesis
      using windowEvents_props(1) [of w' s' ss' x] Cons.prems(1,2) by (force simp: e list_all_iff)
  qed
  have "valid_chunks BlockSize lastChunkOf (concat (map windowEvents E))" using Cons by (simp add: e)
  moreover have "list_all (\<lambda>x. sequenceNumber (fst x) \<noteq> 0 \<and> unat (sequenceNumber (fst x)) + BlockSize \<le> 2 ^ 64
      \<and> chunk_of (lastChunkOf (sequenceNumber (fst x))) x) (windowEvents (w, s, ss))"
    using windowEvents_props [OF ok] ok by (simp add: list_all_iff last emission_ok_def)
  moreover have "set (map ?f (windowEvents (w, s, ss))) \<inter> set (map ?f (concat (map windowEvents E))) = {}"
  proof (rule equals0I)
    fix k assume "k \<in> set (map ?f (windowEvents (w, s, ss))) \<inter> set (map ?f (concat (map windowEvents E)))"
    then obtain x y where "x \<in> set (windowEvents (w, s, ss))" "y \<in> set (concat (map windowEvents E))" "?f x = ?f y"
      by (auto simp del: set_concat)
    then show False using windowEvents_props(1) [OF ok] other by (metis fst_conv)
  qed
  ultimately show ?case
    using windowEvents_distinct [OF ok] unfolding valid_chunks_def e list.map concat.simps map_append distinct_append list_all_append
    by blast
qed (simp add: valid_chunks_def)

lemma seqEvents_concat:
  assumes "list_all emission_ok E" "distinct (map (\<lambda>e. fst (snd e)) E)" "(w, s, ss) \<in> set E"
  shows "seqEvents s (concat (map windowEvents E)) = windowEvents (w, s, ss)"
  using assms
proof (induction E)
  case (Cons e E)
  obtain w' s' ss' where e: "e = (w', s', ss')" by (cases e)
  have ok: "emission_ok (w', s', ss')" using Cons.prems(1) by (simp add: e)
  have first: "seqEvents s (windowEvents e) = (if s = s' then windowEvents e else [])"
    using windowEvents_props(1) [OF ok] by (auto simp: seqEvents_def e filter_id_conv filter_empty_conv)
  show ?case
  proof (cases "s = s'")
    case True
    then have "(w, s, ss) = e" using Cons.prems(2,3) by (force simp: e)
    moreover have "seqEvents s (concat (map windowEvents E)) = []"
    proof -
      have "sequenceNumber (fst x) \<noteq> s" if "x \<in> set (windowEvents (a, b, c))" "(a, b, c) \<in> set E" for x a b c
        using windowEvents_props(1) [of a b c x] that Cons.prems(1,2) True by (force simp: e list_all_iff)
      then show ?thesis unfolding seqEvents_def filter_empty_conv by fastforce
    qed
    ultimately show ?thesis using first True by (simp add: seqEvents_def)
  next
    case False
    then show ?thesis using Cons first by (auto simp: seqEvents_def e)
  qed
qed simp

lemma joinStream_complete:
  assumes "list_all emission_ok E" "distinct (map (\<lambda>e. fst (snd e)) E)"
    and "\<forall>(w, s, ss) \<in> set E. lastChunkOf s = of_nat (length ss) * of_nat (length ss)"
    and "mset evs = mset (concat (map windowEvents E))"
  shows "admissibleChunks lastChunkOf evs"
    "(w, s, ss) \<in> set E \<Longrightarrow> completedValues lastChunkOf evs (unat s) = Some (windowStart w)"
proof -
  have "unat (sequenceNumber (fst x)) + BlockSize < 2 ^ 64" if "x \<in> set evs" for x
  proof -
    have "x \<in> set (concat (map windowEvents E))" using that mset_eq_setD [OF assms(4)] by simp
    then obtain e where e: "e \<in> set E" "x \<in> set (windowEvents e)" unfolding set_concat set_map by blast
    obtain w' s' ss' where p: "e = (w', s', ss')" by (cases e)
    have ok: "emission_ok (w', s', ss')" using e(1) assms(1) by (simp add: list_all_iff p)
    show ?thesis using windowEvents_props(1) [OF ok e(2) [unfolded p]] ok by (simp add: emission_ok_def)
  qed
  then have "list_all (\<lambda>e. unat (sequenceNumber (fst e)) + BlockSize < 2 ^ 64) evs" by (simp add: list_all_iff)
  then show "admissibleChunks lastChunkOf evs"
    unfolding admissibleChunks_def using valid_chunks_mset [OF assms(4) windowEvents_valid [OF assms(1-3)]] by blast
  assume mem: "(w, s, ss) \<in> set E"
  let ?es = "seqEvents s evs"
  have ok: "emission_ok (w, s, ss)" using mem assms(1) by (auto simp: list_all_iff)
  have es: "mset ?es = mset (windowEvents (w, s, ss))"
    using seqEvents_mset [OF assms(4)] seqEvents_concat [OF assms(1,2) mem] by simp
  have len: "length ?es = length ss * length ss" "?es \<noteq> []"
    using mset_eq_length [OF es] ok by (auto simp: windowEvents_def emission_ok_def)
  have "unat (lastChunkOf s) = length ss * length ss"
  proof -
    have "lastChunkOf s = of_nat (length ss * length ss)" using bspec [OF assms(3) mem] by simp
    then show ?thesis using ok unat_of_nat_u64 [of "length ss * length ss"] by (simp only: emission_ok_def prod.case)
  qed
  moreover have "snd ` set ?es = {windowStart w}"
  proof -
    have "\<forall>e \<in> set ?es. snd e = windowStart w" using windowEvents_props(2) [OF ok] mset_eq_setD [OF es] by simp
    moreover obtain e where "e \<in> set ?es" using len(2) by (cases ?es) auto
    ultimately show ?thesis by (auto simp: image_iff intro: bexI [of _ e])
  qed
  moreover have "0 < unat s" using ok by (simp add: emission_ok_def unat_gt_0)
  ultimately show "completedValues lastChunkOf evs (unat s) = Some (windowStart w)"
    using len by (simp add: completedValues_def Let_def)
qed

text \<open>
  C5. For the windows a store hands to the join handler, the emitted buffers contain every ordered pair of
  slices of a window exactly once, and in whatever order the probe processes them they are a valid chunk
  stream in which every window is one complete sequence with the start of the window as its watermark: the
  probe's watermark can pass a window only after all its slice pairs are probed.
\<close>

theorem join_buffers_form_stream:
  assumes "list_all emission_ok E" "distinct (map (\<lambda>e. fst (snd e)) E)"
    and "\<forall>(w, s, ss) \<in> set E. lastChunkOf s = of_nat (length ss) * of_nat (length ss)"
    and "mset evs = mset (probeEvents (snd (triggerJoinSlices h outputOrigin heap E)))"
  shows "map (\<lambda>b. (probeWindow b, leftSliceEnd b, rightSliceEnd b)) (snd (triggerJoinSlices h outputOrigin heap E)) =
       concat (map (\<lambda>(w, s, ss). map (\<lambda>(l, r). (w, sliceEnd l, sliceEnd r)) (List.product ss ss)) E)
     \<and> admissibleChunks lastChunkOf evs
     \<and> (\<forall>(w, s, ss) \<in> set E. completedValues lastChunkOf evs (unat s) = Some (windowStart w))"
proof -
  have "mset evs = mset (concat (map windowEvents E))"
    using assms(4) by (simp only: triggerJoinSlices_events [OF assms(1)])
  note stream = joinStream_complete [OF assms(1-3) this]
  show ?thesis using stream(1) stream(2) triggerJoinSlices_slices by blast
qed

theorem join_buffers_form_stream_witness:
  "admissibleChunks (\<lambda>_. 4) (rev (probeEvents (snd (triggerJoinSlices [] 9 [newNLJSlice 1, newNLJSlice 1]
     [(WindowInfo 0 10, 1, [\<lparr>sliceStart = 0, sliceEnd = 5, slicePayload = 0\<rparr>, \<lparr>sliceStart = 5, sliceEnd = 10, slicePayload = 1\<rparr>])]))))"
proof -
  let ?E = "[(WindowInfo 0 10, 1, [\<lparr>sliceStart = 0, sliceEnd = 5, slicePayload = 0\<rparr>,
     \<lparr>sliceStart = 5, sliceEnd = 10, slicePayload = 1\<rparr>])] :: nat emission list"
  have "list_all emission_ok ?E" "distinct (map (\<lambda>e. fst (snd e)) ?E)"
    "\<forall>(w, s, ss) \<in> set ?E. (4 :: u64) = of_nat (length ss) * of_nat (length ss)"
    by (simp_all add: emission_ok_def BlockSize_def)
  from join_buffers_form_stream [OF this mset_rev] show ?thesis by blast
qed

end
