(* ===== verification/DataTypes.thy ===== *)
theory DataTypes
  imports Prelude "HOL-Library.Multiset"
begin

text \<open>
  Data types (\<open>src/nes-data-types/src/DataTypes/DataType.cpp\<close>, \<open>DataTypeProvider.cpp\<close>,
  \<open>Serialization/DataTypeSerializationUtil.cpp\<close>): sizes, predicates, the provider, numeric type
  inference, \<open>join\<close>, printing of raw bytes and serialisation.

  The registry behind the provider maps the suffix of every registrar's name to the registrar; the
  generated lookup table is the list \<open>registeredDataTypes\<close>. \<open>usualArithmeticConversion\<close> is a reference
  definition of the C++ rules the code says it follows.
\<close>

section \<open>Types and their predicates\<close>

datatype DataType =
    UINT8 | UINT16 | UINT32 | UINT64 | INT8 | INT16 | INT32 | INT64 | FLOAT32 | FLOAT64
  | BOOLEAN | CHARACTER | UNDEFINED | VARSIZED | VARSIZED_POINTER_REP

fun getSizeInBytes :: "DataType \<Rightarrow> u32" where
  "getSizeInBytes INT8 = 1"
| "getSizeInBytes UINT8 = 1"
| "getSizeInBytes BOOLEAN = 1"
| "getSizeInBytes CHARACTER = 1"
| "getSizeInBytes INT16 = 2"
| "getSizeInBytes UINT16 = 2"
| "getSizeInBytes INT32 = 4"
| "getSizeInBytes UINT32 = 4"
| "getSizeInBytes FLOAT32 = 4"
| "getSizeInBytes VARSIZED = 4"
| "getSizeInBytes VARSIZED_POINTER_REP = 8"
| "getSizeInBytes INT64 = 8"
| "getSizeInBytes UINT64 = 8"
| "getSizeInBytes FLOAT64 = 8"
| "getSizeInBytes UNDEFINED = 0"

definition isType :: "DataType \<Rightarrow> DataType \<Rightarrow> bool" where
  "isType this t \<longleftrightarrow> this = t"

definition isInteger :: "DataType \<Rightarrow> bool" where
  "isInteger t \<longleftrightarrow> t = UINT8 \<or> t = UINT16 \<or> t = UINT32 \<or> t = UINT64 \<or> t = INT8 \<or> t = INT16 \<or> t = INT32 \<or> t = INT64"

definition isSignedInteger :: "DataType \<Rightarrow> bool" where
  "isSignedInteger t \<longleftrightarrow> t = INT8 \<or> t = INT16 \<or> t = INT32 \<or> t = INT64"

definition isFloat :: "DataType \<Rightarrow> bool" where
  "isFloat t \<longleftrightarrow> t = FLOAT32 \<or> t = FLOAT64"

definition isNumeric :: "DataType \<Rightarrow> bool" where
  "isNumeric t \<longleftrightarrow> isInteger t \<or> isFloat t"

text \<open>\<open>isSameDataType\<close>, with its C++ template argument given as the data type of the same name; \<open>uintptr_t\<close> is \<open>uint64_t\<close>.\<close>

definition isSameDataType :: "DataType \<Rightarrow> DataType \<Rightarrow> bool" where
  "isSameDataType cxx this =
     (if this = VARSIZED \<and> cxx = UINT32 then True
      else if this = VARSIZED_POINTER_REP \<and> cxx = UINT64 then True
      else if cxx \<in> set [BOOLEAN, CHARACTER, UINT8, UINT16, UINT32, UINT64, INT8, INT16, INT32, INT64, FLOAT32, FLOAT64]
           then this = cxx
      else False)"

section \<open>The provider\<close>

text \<open>\<open>magic_enum::enum_name\<close>\<close>

fun enum_name :: "DataType \<Rightarrow> string" where
  "enum_name UINT8 = ''UINT8''"
| "enum_name UINT16 = ''UINT16''"
| "enum_name UINT32 = ''UINT32''"
| "enum_name UINT64 = ''UINT64''"
| "enum_name INT8 = ''INT8''"
| "enum_name INT16 = ''INT16''"
| "enum_name INT32 = ''INT32''"
| "enum_name INT64 = ''INT64''"
| "enum_name FLOAT32 = ''FLOAT32''"
| "enum_name FLOAT64 = ''FLOAT64''"
| "enum_name BOOLEAN = ''BOOLEAN''"
| "enum_name CHARACTER = ''CHAR''"
| "enum_name UNDEFINED = ''UNDEFINED''"
| "enum_name VARSIZED = ''VARSIZED''"
| "enum_name VARSIZED_POINTER_REP = ''VARSIZED_POINTER_REP''"

definition registeredDataTypes :: "(string \<times> DataType) list" where
  "registeredDataTypes =
     [(''CHAR'', CHARACTER), (''BOOLEAN'', BOOLEAN), (''FLOAT32'', FLOAT32), (''FLOAT64'', FLOAT64), (''INT8'', INT8),
      (''INT16'', INT16), (''INT32'', INT32), (''INT64'', INT64), (''UINT8'', UINT8), (''UINT16'', UINT16),
      (''UINT32'', UINT32), (''UINT64'', UINT64), (''UNDEFINED'', UNDEFINED), (''VARSIZED'', VARSIZED),
      (''VARSIZED_POINTER_REP'', VARSIZED_POINTER_REP)]"

definition tryProvideDataType :: "string \<Rightarrow> DataType option" where
  "tryProvideDataType t = map_of registeredDataTypes t"

definition provideDataType :: "string \<Rightarrow> DataType result" where
  "provideDataType t = (case map_of registeredDataTypes t of Some d \<Rightarrow> Inr d | None \<Rightarrow> Inl UnknownPluginType)"

definition provideDataTypeOf :: "DataType \<Rightarrow> DataType result" where
  "provideDataTypeOf t = provideDataType (enum_name t)"

section \<open>Inference\<close>

definition returnType :: "DataType \<Rightarrow> DataType option result" where
  "returnType t = andThen (provideDataTypeOf t) (\<lambda>d. Inr (Some d))"

definition inferNumericDataType :: "DataType \<Rightarrow> DataType \<Rightarrow> DataType option result" where
  "inferNumericDataType left right =
     (let sizeOfIntInBytes = 4; sizeOfLongInBytes = 8
      in if isFloat left \<and> isInteger right
         then (if getSizeInBytes left = sizeOfIntInBytes then returnType FLOAT32 else returnType FLOAT64)
         else if isInteger left \<and> isFloat right
         then (if getSizeInBytes right = sizeOfIntInBytes then returnType FLOAT32 else returnType FLOAT64)
         else if isFloat right \<and> isFloat left
         then (if getSizeInBytes left = sizeOfLongInBytes \<or> getSizeInBytes right = sizeOfLongInBytes
               then returnType FLOAT64 else returnType FLOAT32)
         else if isInteger right \<and> isInteger left then
           (if getSizeInBytes left < sizeOfIntInBytes \<and> getSizeInBytes right < sizeOfIntInBytes then returnType INT32
            else if getSizeInBytes left = sizeOfIntInBytes \<and> getSizeInBytes right < sizeOfIntInBytes
            then (if isSignedInteger left then returnType INT32 else returnType UINT32)
            else if getSizeInBytes left < sizeOfIntInBytes \<and> getSizeInBytes right = sizeOfIntInBytes
            then (if isSignedInteger right then returnType INT32 else returnType UINT32)
            else if getSizeInBytes left = sizeOfIntInBytes \<and> getSizeInBytes right = sizeOfIntInBytes
            then (if isSignedInteger left \<and> isSignedInteger right then returnType INT32 else returnType UINT32)
            else if getSizeInBytes left = sizeOfLongInBytes \<and> getSizeInBytes right < sizeOfLongInBytes
            then (if isSignedInteger left then returnType INT64 else returnType UINT64)
            else if getSizeInBytes left < sizeOfLongInBytes \<and> getSizeInBytes right = sizeOfLongInBytes
            then (if isSignedInteger right then returnType INT64 else returnType UINT64)
            else if getSizeInBytes left = sizeOfLongInBytes \<and> getSizeInBytes right = sizeOfLongInBytes
            then (if isSignedInteger left \<and> isSignedInteger right then returnType INT64 else returnType UINT64)
            else Inr None)
         else Inr None)"

definition join :: "DataType \<Rightarrow> DataType \<Rightarrow> DataType option result" where
  "join this otherDataType =
     (if this = UNDEFINED \<or> this = VARSIZED then returnType UNDEFINED
      else if isNumeric this then
        (if otherDataType = UNDEFINED then Inr (Some UNDEFINED)
         else if \<not> isNumeric otherDataType then Inr None
         else inferNumericDataType this otherDataType)
      else if this = CHARACTER then
        (if otherDataType = CHARACTER then returnType CHARACTER else returnType UNDEFINED)
      else if this = BOOLEAN then
        (if otherDataType = BOOLEAN then returnType BOOLEAN else returnType UNDEFINED)
      else Inr None)"

section \<open>Printing raw bytes\<close>

type_synonym byte = "8 word"

text \<open>Little-endian integers, as the supported machines store them; reading behind the data is undefined.\<close>

fun littleEndian :: "byte list \<Rightarrow> nat" where
  "littleEndian [] = 0"
| "littleEndian (b # bs) = unat b + 256 * littleEndian bs"

definition readBytes :: "nat \<Rightarrow> byte list \<Rightarrow> nat result" where
  "readBytes n bs = (if n \<le> length bs then Inr (littleEndian (take n bs)) else Inl UndefinedBehaviour)"

definition signedOf :: "nat \<Rightarrow> nat \<Rightarrow> int" where
  "signedOf n v = (if v < 2 ^ (8 * n - 1) then int v else int v - 2 ^ (8 * n))"

fun natToString :: "nat \<Rightarrow> string" where
  "natToString n =
     (if n < 10 then [char_of (48 + n)] else natToString (n div 10) @ [char_of (48 + n mod 10)])"

declare natToString.simps [simp del]

definition to_string :: "int \<Rightarrow> string" where
  "to_string i = (if i < 0 then CHR ''-'' # natToString (nat (- i)) else natToString (nat i))"

definition formatSigned :: "nat \<Rightarrow> byte list \<Rightarrow> string result" where
  "formatSigned n bs = andThen (readBytes n bs) (\<lambda>v. Inr (to_string (signedOf n v)))"

definition formatUnsigned :: "nat \<Rightarrow> byte list \<Rightarrow> string result" where
  "formatUnsigned n bs = andThen (readBytes n bs) (\<lambda>v. Inr (to_string (int v)))"

definition formatVarsized :: "byte list \<Rightarrow> string result" where
  "formatVarsized bs =
     andThen (readBytes 4 bs) (\<lambda>textLength.
       if textLength \<le> length (drop 4 bs) then Inr (map (\<lambda>b. char_of (unat b)) (take textLength (drop 4 bs)))
       else Inl UndefinedBehaviour)"

text \<open>A null pointer is \<open>None\<close>; the formatting of floating-point numbers is a parameter.\<close>

definition formattedBytesToString ::
  "(nat \<Rightarrow> byte list \<Rightarrow> string result) \<Rightarrow> DataType \<Rightarrow> byte list option \<Rightarrow> string result" where
  "formattedBytesToString formatFloat t p =
     andThen (PRECONDITION (p \<noteq> None)) (\<lambda>_.
       let bs = the p
       in case t of
            INT8 \<Rightarrow> formatSigned 1 bs
          | UINT8 \<Rightarrow> formatUnsigned 1 bs
          | INT16 \<Rightarrow> formatSigned 2 bs
          | UINT16 \<Rightarrow> formatUnsigned 2 bs
          | INT32 \<Rightarrow> formatSigned 4 bs
          | UINT32 \<Rightarrow> formatUnsigned 4 bs
          | INT64 \<Rightarrow> formatSigned 8 bs
          | UINT64 \<Rightarrow> formatUnsigned 8 bs
          | FLOAT32 \<Rightarrow> formatFloat 4 bs
          | FLOAT64 \<Rightarrow> formatFloat 8 bs
          | BOOLEAN \<Rightarrow> andThen (readBytes 1 bs) (\<lambda>v. Inr (to_string (if v = 0 then 0 else 1)))
          | CHARACTER \<Rightarrow>
              if getSizeInBytes t \<noteq> 1 then Inr ''invalid char type''
              else andThen (readBytes 1 bs) (\<lambda>v. Inr [char_of v])
          | VARSIZED_POINTER_REP \<Rightarrow> formatVarsized bs
          | VARSIZED \<Rightarrow> formatVarsized bs
          | UNDEFINED \<Rightarrow> Inr ''invalid physical type'')"

section \<open>Serialisation\<close>

text \<open>
  The message holds the number of the enumerator; \<open>Parse\<close> leaves the default value (number 0) when the
  name is unknown to the message type. \<open>magic_enum::enum_value\<close> takes the enumerator by its index.
\<close>

definition protoTypeNames :: "string list" where
  "protoTypeNames = [''UINT8'', ''UINT16'', ''UINT32'', ''UINT64'', ''INT8'', ''INT16'', ''INT32'', ''INT64'',
     ''FLOAT32'', ''FLOAT64'', ''BOOLEAN'', ''CHAR'', ''UNDEFINED'', ''VARSIZED'']"

definition enumerators :: "DataType list" where
  "enumerators = [UINT8, UINT16, UINT32, UINT64, INT8, INT16, INT32, INT64, FLOAT32, FLOAT64,
     BOOLEAN, CHARACTER, UNDEFINED, VARSIZED, VARSIZED_POINTER_REP]"

fun indexOf :: "'a \<Rightarrow> 'a list \<Rightarrow> nat option" where
  "indexOf x [] = None"
| "indexOf x (y # ys) = (if x = y then Some 0 else map_option Suc (indexOf x ys))"

definition serializeDataType :: "DataType \<Rightarrow> nat" where
  "serializeDataType t = (case indexOf (enum_name t) protoTypeNames of Some n \<Rightarrow> n | None \<Rightarrow> 0)"

definition deserializeDataType :: "nat \<Rightarrow> DataType result" where
  "deserializeDataType n = (if n < length enumerators then Inr (enumerators ! n) else Inl UndefinedBehaviour)"

section \<open>Facts about the provider\<close>

lemma provideDataTypeOf_self [simp]: "provideDataTypeOf t = Inr t"
  by (cases t) (simp_all add: provideDataTypeOf_def provideDataType_def registeredDataTypes_def)

lemma returnType_Some [simp]: "returnType t = Inr (Some t)"
  by (simp add: returnType_def)

lemma tryProvideDataType_enum_name: "tryProvideDataType (enum_name t) = Some t"
  by (cases t) (simp_all add: tryProvideDataType_def registeredDataTypes_def)

section \<open>The C++ rules as a reference\<close>

text \<open>
  Integral promotion takes every type of lower rank than \<open>int\<close> to \<open>int\<close>. Two promoted integers of equal
  signedness meet at the higher rank; otherwise the unsigned type wins if its rank is not lower, and the
  signed type if it can represent all values of the unsigned one.
\<close>

fun integerRank :: "DataType \<Rightarrow> nat" where
  "integerRank INT8 = 1"
| "integerRank UINT8 = 1"
| "integerRank INT16 = 2"
| "integerRank UINT16 = 2"
| "integerRank INT32 = 3"
| "integerRank UINT32 = 3"
| "integerRank INT64 = 4"
| "integerRank UINT64 = 4"
| "integerRank _ = 0"

definition integralPromotion :: "DataType \<Rightarrow> DataType" where
  "integralPromotion t = (if integerRank t < integerRank INT32 then INT32 else t)"

definition commonInteger :: "DataType \<Rightarrow> DataType \<Rightarrow> DataType" where
  "commonInteger a b =
     (if isSignedInteger a = isSignedInteger b then (if integerRank a \<ge> integerRank b then a else b)
      else let s = (if isSignedInteger a then a else b); u = (if isSignedInteger a then b else a)
           in if integerRank u \<ge> integerRank s then u else s)"

definition usualArithmeticConversion :: "DataType \<Rightarrow> DataType \<Rightarrow> DataType" where
  "usualArithmeticConversion a b =
     (if a = FLOAT64 \<or> b = FLOAT64 then FLOAT64
      else if a = FLOAT32 \<or> b = FLOAT32 then FLOAT32
      else commonInteger (integralPromotion a) (integralPromotion b))"

lemma numeric_cases:
  assumes "isNumeric t"
  obtains "t = UINT8" | "t = UINT16" | "t = UINT32" | "t = UINT64" | "t = INT8" | "t = INT16" | "t = INT32" | "t = INT64"
    | "t = FLOAT32" | "t = FLOAT64"
  using assms by (auto simp: isNumeric_def isInteger_def isFloat_def)

lemmas type_defs = isInteger_def isFloat_def isNumeric_def isSignedInteger_def inferNumericDataType_def
  usualArithmeticConversion_def commonInteger_def integralPromotion_def Let_def

lemma inferNumeric_usual: "isNumeric a \<Longrightarrow> isNumeric b \<Longrightarrow> inferNumericDataType a b = Inr (Some (usualArithmeticConversion a b))"
  by (elim numeric_cases) (simp_all add: type_defs)

lemma join_numeric: "isNumeric a \<Longrightarrow> isNumeric b \<Longrightarrow> join a b = Inr (Some (usualArithmeticConversion a b))"
  using inferNumeric_usual [of a b] by (auto simp: join_def type_defs)

lemma join_total: "\<exists>t. join a b = Inr t"
  using inferNumeric_usual [of a b] by (cases "isNumeric a \<and> isNumeric b") (auto simp: join_def)

text \<open>
  C19. For two numeric types the inference returns exactly the type the usual arithmetic conversions of
  C++ give, for every combination of widths, signedness and floating point; \<open>join\<close> returns the same.
\<close>

theorem inferNumeric_is_usual_arithmetic:
  assumes "isNumeric a" "isNumeric b"
  shows "inferNumericDataType a b = Inr (Some (usualArithmeticConversion a b))
     \<and> join a b = Inr (Some (usualArithmeticConversion a b))"
  using assms by (simp add: inferNumeric_usual join_numeric)

theorem inferNumeric_is_usual_arithmetic_witness:
  "inferNumericDataType INT8 UINT32 = Inr (Some UINT32) \<and> join INT64 FLOAT32 = Inr (Some FLOAT32)"
proof -
  have "isNumeric INT8" "isNumeric UINT32" "isNumeric INT64" "isNumeric FLOAT32" by (simp_all add: type_defs)
  then show ?thesis
    using inferNumeric_is_usual_arithmetic [of INT8 UINT32] inferNumeric_is_usual_arithmetic [of INT64 FLOAT32]
    by (simp add: type_defs)
qed

section \<open>Joining more than two types\<close>

text \<open>A join that is closed, commutative and associative gives one result for all ways to combine several values.\<close>

locale type_join =
  fixes A :: "'a set" and f :: "'a \<Rightarrow> 'a \<Rightarrow> 'a"
  assumes closed: "a \<in> A \<Longrightarrow> b \<in> A \<Longrightarrow> f a b \<in> A"
    and commute: "a \<in> A \<Longrightarrow> b \<in> A \<Longrightarrow> f a b = f b a"
    and assoc: "a \<in> A \<Longrightarrow> b \<in> A \<Longrightarrow> c \<in> A \<Longrightarrow> f (f a b) c = f a (f b c)"
begin

fun joinAll :: "'a list \<Rightarrow> 'a" where
  "joinAll [x] = x"
| "joinAll (x # y # ys) = f x (joinAll (y # ys))"
| "joinAll [] = undefined"

lemma joinAll_Cons: "xs \<noteq> [] \<Longrightarrow> joinAll (x # xs) = f x (joinAll xs)"
  by (cases xs) auto

lemma joinAll_closed: "set xs \<subseteq> A \<Longrightarrow> xs \<noteq> [] \<Longrightarrow> joinAll xs \<in> A"
  by (induction xs rule: joinAll.induct) (auto intro: closed)

lemma joinAll_append:
  "set xs \<subseteq> A \<Longrightarrow> set ys \<subseteq> A \<Longrightarrow> xs \<noteq> [] \<Longrightarrow> ys \<noteq> [] \<Longrightarrow> joinAll (xs @ ys) = f (joinAll xs) (joinAll ys)"
proof (induction xs rule: joinAll.induct)
  case (1 x)
  then show ?case by (simp add: joinAll_Cons)
next
  case (2 x y xs)
  then show ?case using assoc [of x "joinAll (y # xs)" "joinAll ys"] joinAll_closed by simp
qed simp

lemma joinAll_move: "set (x # xs @ ys) \<subseteq> A \<Longrightarrow> xs @ ys \<noteq> [] \<Longrightarrow> joinAll (xs @ x # ys) = joinAll (x # xs @ ys)"
proof (induction xs)
  case (Cons z xs)
  show ?case
  proof (cases "xs @ ys = []")
    case False
    then have "joinAll ((z # xs) @ x # ys) = f z (f x (joinAll (xs @ ys)))"
      using Cons by (simp add: joinAll_Cons)
    also have "\<dots> = f x (f z (joinAll (xs @ ys)))"
      using Cons.prems(1) False joinAll_closed [of "xs @ ys"] assoc [of z x] assoc [of x z] commute [of x z] by simp
    finally show ?thesis using False by (simp add: joinAll_Cons)
  qed (use Cons.prems commute in auto)
qed simp

lemma joinAll_mset: "mset xs = mset ys \<Longrightarrow> set xs \<subseteq> A \<Longrightarrow> joinAll xs = joinAll ys"
proof (induction xs arbitrary: ys)
  case (Cons x xs)
  then have "x \<in> set ys" using mset_eq_setD by fastforce
  then obtain a b where ys: "ys = a @ x # b" by (auto dest: split_list)
  have m: "mset xs = mset (a @ b)" using Cons.prems(1) by (simp add: ys)
  have sets: "set (a @ b) \<subseteq> A" using Cons.prems(2) mset_eq_setD [OF m] by simp
  show ?case
  proof (cases "xs = []")
    case True
    then show ?thesis using m by (simp add: ys)
  next
    case False
    then have ne: "a @ b \<noteq> []" using m by auto
    have "joinAll ys = joinAll (x # a @ b)" unfolding ys using Cons.prems(2) sets ne by (intro joinAll_move) auto
    also have "\<dots> = f x (joinAll (a @ b))" using ne by (rule joinAll_Cons)
    also have "\<dots> = f x (joinAll xs)" using Cons.IH [OF m] Cons.prems(2) by simp
    finally show ?thesis using False by (simp add: joinAll_Cons)
  qed
qed simp

end

definition numericTypes :: "DataType set" where
  "numericTypes = {t. isNumeric t}"

lemma numericTypes_iff: "t \<in> numericTypes \<longleftrightarrow> isNumeric t"
  by (simp add: numericTypes_def)

lemma usualArithmetic_assoc:
  "\<forall>a \<in> set enumerators. \<forall>b \<in> set enumerators. \<forall>c \<in> set enumerators. isNumeric a \<longrightarrow> isNumeric b \<longrightarrow> isNumeric c \<longrightarrow>
     usualArithmeticConversion (usualArithmeticConversion a b) c = usualArithmeticConversion a (usualArithmeticConversion b c)"
  by code_simp

lemma in_enumerators: "t \<in> set enumerators"
  by (cases t) (simp_all add: enumerators_def)

interpretation numeric_join: type_join numericTypes usualArithmeticConversion
proof
  fix a b c assume "a \<in> numericTypes" "b \<in> numericTypes"
  then have n: "isNumeric a" "isNumeric b" by (simp_all add: numericTypes_iff)
  show "usualArithmeticConversion a b \<in> numericTypes"
    using n by (elim numeric_cases) (simp_all add: type_defs numericTypes_iff)
  show "usualArithmeticConversion a b = usualArithmeticConversion b a"
    using n by (elim numeric_cases) (simp_all add: type_defs)
  show "usualArithmeticConversion (usualArithmeticConversion a b) c = usualArithmeticConversion a (usualArithmeticConversion b c)"
    if "c \<in> numericTypes"
    using usualArithmetic_assoc n that in_enumerators by (simp add: numericTypes_iff)
qed

section \<open>Serialisation and printing\<close>

lemma serializeDataType_roundtrip: "t \<noteq> VARSIZED_POINTER_REP \<Longrightarrow> deserializeDataType (serializeDataType t) = Inr t"
  by (cases t) (simp_all add: serializeDataType_def protoTypeNames_def deserializeDataType_def enumerators_def)

text \<open>The message type has no enumerator for the pointer representation: it comes back as another type.\<close>

lemma pointer_rep_not_serialised: "deserializeDataType (serializeDataType VARSIZED_POINTER_REP) = Inr UINT8"
  by (simp add: serializeDataType_def protoTypeNames_def deserializeDataType_def enumerators_def)

lemma join_not_symmetric: "join BOOLEAN INT32 = Inr (Some UNDEFINED) \<and> join INT32 BOOLEAN = Inr None"
  by (simp add: join_def type_defs)

definition bytesOf :: "nat \<Rightarrow> nat \<Rightarrow> byte list" where
  "bytesOf n v = map (\<lambda>i. of_nat (v div 256 ^ i mod 256)) [0..<n]"

fun decimalValue :: "nat \<Rightarrow> string \<Rightarrow> nat" where
  "decimalValue acc [] = acc"
| "decimalValue acc (c # cs) = decimalValue (acc * 10 + (of_char c - 48)) cs"

definition integerValue :: "string \<Rightarrow> int" where
  "integerValue s = (if s \<noteq> [] \<and> hd s = CHR ''-'' then - int (decimalValue 0 (tl s)) else int (decimalValue 0 s))"

lemma decimalValue_append: "decimalValue acc (a @ b) = decimalValue (decimalValue acc a) b"
  by (induction acc a rule: decimalValue.induct) auto

lemma of_char_digit: "d < 10 \<Longrightarrow> of_char (char_of (48 + d) :: char) - 48 = (d :: nat)"
  by simp

lemma decimalValue_natToString: "decimalValue 0 (natToString n) = n"
proof (induction n rule: natToString.induct)
  case (1 n)
  show ?case
  proof (cases "n < 10")
    case True
    then show ?thesis using of_char_digit [of n] by (subst natToString.simps) simp
  next
    case False
    have "decimalValue 0 (natToString n) = n div 10 * 10 + (of_char (char_of (48 + n mod 10) :: char) - 48)"
      using False 1 by (subst natToString.simps) (simp add: decimalValue_append)
    also have "\<dots> = n" using of_char_digit [of "n mod 10"] by simp
    finally show ?thesis .
  qed
qed

lemma natToString_no_minus: "natToString n \<noteq> [] \<and> hd (natToString n) \<noteq> CHR ''-''"
proof (induction n rule: natToString.induct)
  case (1 n)
  have "char_of (48 + d) \<noteq> CHR ''-''" if "d < 10" for d :: nat
  proof
    assume "char_of (48 + d) = CHR ''-''"
    then have "of_char (char_of (48 + d) :: char) = (of_char (CHR ''-'') :: nat)" by (rule arg_cong)
    with that show False by simp
  qed
  with 1 show ?case by (subst (1 2) natToString.simps) (simp add: hd_append)
qed

lemma integerValue_to_string: "integerValue (to_string i) = i"
proof (cases "i < 0")
  case False
  then show ?thesis
    using natToString_no_minus [of "nat i"] decimalValue_natToString [of "nat i"]
    by (simp add: to_string_def integerValue_def)
qed (simp add: to_string_def integerValue_def decimalValue_natToString)

lemma bytesOf_Suc: "bytesOf (Suc n) v = of_nat (v mod 256) # bytesOf n (v div 256)"
  by (simp only: bytesOf_def upt_conv_Cons map_Suc_upt [symmetric] list.map zero_less_Suc map_map comp_def)
    (simp add: div_mult2_eq)

lemma littleEndian_bytesOf: "littleEndian (bytesOf n v) = v mod 256 ^ n"
proof (induction n arbitrary: v)
  case (Suc n)
  have "unat (of_nat (v mod 256) :: byte) = v mod 256" by (simp add: unat_of_nat)
  then have "littleEndian (bytesOf (Suc n) v) = v mod 256 + 256 * (v div 256 mod 256 ^ n)"
    using Suc by (simp add: bytesOf_Suc)
  also have "\<dots> = v mod 256 ^ Suc n" by (simp add: mod_mult2_eq)
  finally show ?case .
qed (simp add: bytesOf_def)

lemma readBytes_bytesOf: "v < 256 ^ n \<Longrightarrow> readBytes n (bytesOf n v @ bs) = Inr v"
  using littleEndian_bytesOf [of n v] by (simp add: readBytes_def bytesOf_def)

text \<open>The integer types with their width in bytes and signedness.\<close>

definition integerLayout :: "(DataType \<times> nat \<times> bool) list" where
  "integerLayout = [(INT8, 1, True), (UINT8, 1, False), (INT16, 2, True), (UINT16, 2, False), (INT32, 4, True),
     (UINT32, 4, False), (INT64, 8, True), (UINT64, 8, False)]"

text \<open>
  C31. Printing the little-endian bytes of an integer of any of the eight integer types yields its decimal
  representation: reading the text as a number gives back the stored two's complement or unsigned value.
\<close>

theorem formatted_integer_roundtrip:
  assumes "(t, n, twosComplement) \<in> set integerLayout" "v < 256 ^ n"
  shows "\<exists>s. formattedBytesToString formatFloat t (Some (bytesOf n v @ rest)) = Inr s
     \<and> integerValue s = (if twosComplement then signedOf n v else int v)"
proof -
  have "formattedBytesToString formatFloat t (Some (bytesOf n v @ rest)) =
      Inr (to_string (if twosComplement then signedOf n v else int v))"
    using assms(1) readBytes_bytesOf [OF assms(2), of rest]
    by (auto simp: integerLayout_def formattedBytesToString_def formatSigned_def formatUnsigned_def)
  then show ?thesis by (simp add: integerValue_to_string)
qed

theorem formatted_integer_roundtrip_witness:
  "\<exists>s. formattedBytesToString (\<lambda>_ _. Inr []) INT16 (Some (bytesOf 2 65533 @ [])) = Inr s \<and> integerValue s = - 3"
  using formatted_integer_roundtrip [of INT16 2 True 65533 "\<lambda>_ _. Inr []" "[]"] by (simp add: integerLayout_def signedOf_def)

end
