(* ===== verification/Descriptors.thy ===== *)
theory Descriptors
  imports DataTypes
begin

text \<open>
  The typed values of descriptors and their messages
  (\<open>src/nes-configurations/src/Configurations/Descriptor.cpp\<close>, \<open>src/grpc/SerializableVariantDescriptor.proto\<close>)
  and the case-insensitive plugin registry (\<open>src/nes-common/include/Util/Registry.hpp\<close>).

  A value is one alternative of a variant, a message one alternative of a \<open>oneof\<close> or none. Floating-point
  numbers are their bit patterns. A \<open>map\<close> of a message is a list of pairs; the configuration made from it is a
  partial map.
\<close>

section \<open>Messages\<close>

record WindowInfos =
  timeIsIngestion :: bool
  timeField :: "string option"
  timeMultiplier :: u64
  windowType :: "u64 + u64 \<times> u64"

record SerializableModel =
  bytecode :: "byte list"
  modelDims :: "32 word"
  modelShape :: "32 word list"
  modelOutputDims :: "32 word"
  modelOutputShape :: "32 word list"
  inputSizeInBytes :: "32 word"
  outputSizeInBytes :: "32 word"
  functionName :: string
  modelInputs :: "nat list"
  modelOutputs :: "(string \<times> nat) list"

datatype SerializableFunction =
  SerializableFunction (function_type: string) (data_type: nat)
    (functionConfig: "(string \<times> SerializableVariantDescriptor) list") (serializedChildren: "SerializableFunction list")
and SerializableVariantDescriptor =
    IntValue "32 word"
  | UintValue "32 word"
  | LongValue "64 word"
  | UlongValue "64 word"
  | BoolValue bool
  | CharValue "32 word"
  | FloatValue "32 word"
  | DoubleValue "64 word"
  | StringValue string
  | EnumValue string
  | FunctionListValue "SerializableFunction list"
  | AggregationFunctionListValue "(string \<times> SerializableFunction \<times> SerializableFunction) list"
  | WindowInfosValue WindowInfos
  | ModelValue SerializableModel
  | VALUE_NOT_SET

section \<open>Values\<close>

datatype ConfigType =
    ConfigInt32 "32 word"
  | ConfigUint32 "32 word"
  | ConfigInt64 "64 word"
  | ConfigUint64 "64 word"
  | ConfigBool bool
  | ConfigChar "8 word"
  | ConfigFloat "32 word"
  | ConfigDouble "64 word"
  | ConfigString string
  | ConfigEnum string
  | ConfigFunctionList "SerializableFunction list"
  | ConfigAggregationFunctionList "(string \<times> SerializableFunction \<times> SerializableFunction) list"
  | ConfigWindowInfos WindowInfos
  | ConfigModel SerializableModel

type_synonym Config = "string \<rightharpoonup> ConfigType"

text \<open>A \<open>char\<close> is signed: as a \<open>fixed32\<close> it is sign-extended.\<close>

fun descriptorConfigTypeToProto :: "ConfigType \<Rightarrow> SerializableVariantDescriptor" where
  "descriptorConfigTypeToProto (ConfigInt32 arg) = IntValue arg"
| "descriptorConfigTypeToProto (ConfigUint32 arg) = UintValue arg"
| "descriptorConfigTypeToProto (ConfigInt64 arg) = LongValue arg"
| "descriptorConfigTypeToProto (ConfigUint64 arg) = UlongValue arg"
| "descriptorConfigTypeToProto (ConfigBool arg) = BoolValue arg"
| "descriptorConfigTypeToProto (ConfigChar arg) = CharValue (scast arg)"
| "descriptorConfigTypeToProto (ConfigFloat arg) = FloatValue arg"
| "descriptorConfigTypeToProto (ConfigDouble arg) = DoubleValue arg"
| "descriptorConfigTypeToProto (ConfigString arg) = StringValue arg"
| "descriptorConfigTypeToProto (ConfigEnum arg) = EnumValue arg"
| "descriptorConfigTypeToProto (ConfigFunctionList arg) = FunctionListValue arg"
| "descriptorConfigTypeToProto (ConfigAggregationFunctionList arg) = AggregationFunctionListValue arg"
| "descriptorConfigTypeToProto (ConfigWindowInfos arg) = WindowInfosValue arg"
| "descriptorConfigTypeToProto (ConfigModel arg) = ModelValue arg"

fun protoToDescriptorConfigType :: "SerializableVariantDescriptor \<Rightarrow> ConfigType result" where
  "protoToDescriptorConfigType (IntValue v) = Inr (ConfigInt32 v)"
| "protoToDescriptorConfigType (UintValue v) = Inr (ConfigUint32 v)"
| "protoToDescriptorConfigType (LongValue v) = Inr (ConfigInt64 v)"
| "protoToDescriptorConfigType (UlongValue v) = Inr (ConfigUint64 v)"
| "protoToDescriptorConfigType (BoolValue v) = Inr (ConfigBool v)"
| "protoToDescriptorConfigType (CharValue v) = Inr (ConfigChar (ucast v))"
| "protoToDescriptorConfigType (FloatValue v) = Inr (ConfigFloat v)"
| "protoToDescriptorConfigType (DoubleValue v) = Inr (ConfigDouble v)"
| "protoToDescriptorConfigType (StringValue v) = Inr (ConfigString v)"
| "protoToDescriptorConfigType (EnumValue v) = Inr (ConfigEnum v)"
| "protoToDescriptorConfigType (FunctionListValue v) = Inr (ConfigFunctionList v)"
| "protoToDescriptorConfigType (AggregationFunctionListValue v) = Inr (ConfigAggregationFunctionList v)"
| "protoToDescriptorConfigType (WindowInfosValue v) = Inr (ConfigWindowInfos v)"
| "protoToDescriptorConfigType (ModelValue v) = Inr (ConfigModel v)"
| "protoToDescriptorConfigType VALUE_NOT_SET = Inl CannotSerialize"

text \<open>\<open>std::get<std::string>\<close> of a variant.\<close>

definition getString :: "ConfigType \<Rightarrow> string result" where
  "getString v = (case v of ConfigString s \<Rightarrow> Inr s | _ \<Rightarrow> Inl BadVariantAccess)"

fun configFromProto :: "(string \<times> SerializableVariantDescriptor) list \<Rightarrow> Config result" where
  "configFromProto [] = Inr Map.empty"
| "configFromProto ((key, protoVar) # rest) =
     andThen (protoToDescriptorConfigType protoVar) (\<lambda>v. andThen (configFromProto rest) (\<lambda>m. Inr (m(key \<mapsto> v))))"

section \<open>Registry\<close>

definition isAsciiString :: "string \<Rightarrow> bool" where
  "isAsciiString s \<longleftrightarrow> list_all (\<lambda>c. of_char c < (128 :: nat)) s"

definition toupper :: "char \<Rightarrow> char" where
  "toupper c = (let n = of_char c :: nat in if 97 \<le> n \<and> n \<le> 122 then char_of (n - 32) else c)"

definition toUpperCase :: "string \<Rightarrow> string result" where
  "toUpperCase s = andThen (PRECONDITION (isAsciiString s)) (\<lambda>_. Inr (map toupper s))"

type_synonym 'f registry = "string \<rightharpoonup> 'f"

definition addEntry :: "string \<Rightarrow> 'f \<Rightarrow> 'f registry \<Rightarrow> 'f registry result" where
  "addEntry key creatorFunction registryImpl =
     andThen (toUpperCase key) (\<lambda>k.
       Inr (case registryImpl k of Some _ \<Rightarrow> registryImpl | None \<Rightarrow> registryImpl(k \<mapsto> creatorFunction)))"

fun registerAll :: "(string \<times> 'f) list \<Rightarrow> 'f registry \<Rightarrow> 'f registry result" where
  "registerAll [] registryImpl = Inr registryImpl"
| "registerAll ((key, creator) # rest) registryImpl = andThen (addEntry key creator registryImpl) (registerAll rest)"

definition registry_create :: "('a \<Rightarrow> 'b result) registry \<Rightarrow> string \<Rightarrow> 'a \<Rightarrow> 'b option result" where
  "registry_create registryImpl key args =
     andThen (toUpperCase key) (\<lambda>k.
       case registryImpl k of Some creator \<Rightarrow> andThen (creator args) (\<lambda>r. Inr (Some r)) | None \<Rightarrow> Inr None)"

section \<open>Properties\<close>

lemma scast_ucast_char: "ucast (scast (c :: 8 word) :: 32 word) = c"
proof (rule bit_word_eqI)
  fix n :: nat
  assume "n < LENGTH(8)"
  then have "7 \<le> n \<Longrightarrow> n = 7" by simp
  then show "bit (ucast (scast c :: 32 word) :: 8 word) n = bit c n"
    by (auto simp: bit_unsigned_iff bit_signed_iff min_def)
qed

lemma protoToDescriptorConfigType_inverse [simp]: "protoToDescriptorConfigType (descriptorConfigTypeToProto v) = Inr v"
  by (cases v) (simp_all add: scast_ucast_char)

text \<open>C32. Every value of a descriptor survives the conversion to its message and back, a negative
  character included; a message in which no value is set raises \<open>CannotSerialize\<close>.\<close>

theorem descriptor_value_roundtrip:
  "protoToDescriptorConfigType (descriptorConfigTypeToProto v) = Inr v
   \<and> (protoToDescriptorConfigType m = Inl e \<longleftrightarrow> m = VALUE_NOT_SET \<and> e = CannotSerialize)"
  by (cases m) auto

lemma configFromProto_map:
  "configFromProto (map (\<lambda>(k, v). (k, descriptorConfigTypeToProto v)) kvs) = Inr (map_of kvs)"
  by (induction kvs) (auto simp: fun_eq_iff)

lemma registerAll_lookup:
  assumes "list_all (\<lambda>(k, _). isAsciiString k) entries"
  shows "\<exists>r'. registerAll entries r = Inr r' \<and>
    (\<forall>k. r' k = (case r k of Some f \<Rightarrow> Some f | None \<Rightarrow> map_of (map (\<lambda>(k, f). (map toupper k, f)) entries) k))"
  using assms
proof (induction entries arbitrary: r)
  case (Cons e entries)
  obtain k f where [simp]: "e = (k, f)" by (cases e)
  let ?r = "case r (map toupper k) of Some _ \<Rightarrow> r | None \<Rightarrow> r(map toupper k \<mapsto> f)"
  have add: "addEntry k f r = Inr ?r" using Cons.prems by (simp add: addEntry_def toUpperCase_def PRECONDITION_def)
  obtain r' where "registerAll entries ?r = Inr r'"
    "\<forall>k. r' k = (case ?r k of Some f \<Rightarrow> Some f | None \<Rightarrow> map_of (map (\<lambda>(k, f). (map toupper k, f)) entries) k)"
    using Cons.IH [of ?r] Cons.prems by auto
  then show ?case using add by (auto split: option.splits)
qed (auto split: option.splits)

end
