(* ===== verification/Schemas.thy ===== *)
theory Schemas
  imports DataTypes "HOL-Library.Sublist"
begin

text \<open>
  Schemas (\<open>src/nes-data-types/src/DataTypes/Schema.cpp\<close>) and their serialisation
  (\<open>src/nes-data-types/src/Serialization/SchemaSerializationUtil.cpp\<close>): an ordered list of named fields
  with the size of a tuple and an index from names to positions.

  The index is an \<open>std::unordered_map\<close>: \<open>emplace\<close> and \<open>insert\<close> keep an existing entry. \<open>index_sound\<close> says that
  every entry points to a field of that name, \<open>index_complete\<close> that every name is found at its first field.
\<close>

section \<open>State\<close>

datatype MemoryLayoutType = ROW_LAYOUT | COLUMNAR_LAYOUT

record Field =
  fieldName :: string
  fieldType :: DataType

record Schema =
  memoryLayoutType :: MemoryLayoutType
  schemaFields :: "Field list"
  sizeOfSchemaInBytes :: u64
  nameToField :: "string \<rightharpoonup> nat"

definition newSchema :: "MemoryLayoutType \<Rightarrow> Schema" where
  "newSchema layout = \<lparr>memoryLayoutType = layout, schemaFields = [], sizeOfSchemaInBytes = 0, nameToField = Map.empty\<rparr>"

definition QualifiedFieldName :: "string \<Rightarrow> string \<Rightarrow> (string \<times> string) result" where
  "QualifiedFieldName streamName field =
     andThen (PRECONDITION (streamName \<noteq> [])) (\<lambda>_.
     andThen (PRECONDITION (field \<noteq> [])) (\<lambda>_. Inr (streamName, field)))"

definition index_emplace :: "string \<Rightarrow> nat \<Rightarrow> (string \<rightharpoonup> nat) \<Rightarrow> (string \<rightharpoonup> nat)" where
  "index_emplace n i m = (case m n of Some _ \<Rightarrow> m | None \<Rightarrow> m(n \<mapsto> i))"

section \<open>Operations\<close>

definition addField :: "Schema \<Rightarrow> string \<Rightarrow> DataType \<Rightarrow> Schema" where
  "addField s name type =
     s\<lparr>sizeOfSchemaInBytes := sizeOfSchemaInBytes s + ucast (getSizeInBytes type),
       schemaFields := schemaFields s @ [\<lparr>fieldName = name, fieldType = type\<rparr>],
       nameToField := index_emplace name (length (schemaFields s)) (nameToField s)\<rparr>"

text \<open>\<open>at\<close> throws for a position behind the last field; the index never holds one (\<open>index_sound\<close>).\<close>

definition replaceTypeOfField :: "Schema \<Rightarrow> string \<Rightarrow> DataType \<Rightarrow> (Schema \<times> bool) result" where
  "replaceTypeOfField s name type =
     (case nameToField s name of
        None \<Rightarrow> Inr (s, False)
      | Some i \<Rightarrow>
          if i < length (schemaFields s)
          then Inr (s\<lparr>sizeOfSchemaInBytes := sizeOfSchemaInBytes s - ucast (getSizeInBytes (fieldType (schemaFields s ! i)))
                        + ucast (getSizeInBytes type),
                      schemaFields := (schemaFields s)[i := (schemaFields s ! i)\<lparr>fieldType := type\<rparr>]\<rparr>, True)
          else Inl OutOfRange)"

fun suffixMatches :: "string \<Rightarrow> Field list \<Rightarrow> Field list" where
  "suffixMatches name [] = []"
| "suffixMatches name (field # rest) =
     (if length name \<le> length (fieldName field)
         \<and> drop (length (fieldName field) - length name) (fieldName field) = name
      then field # suffixMatches name rest
      else suffixMatches name rest)"

definition getFieldByName :: "Schema \<Rightarrow> string \<Rightarrow> Field option result" where
  "getFieldByName s name =
     (case nameToField s name of
        Some i \<Rightarrow> if i < length (schemaFields s) then Inr (Some (schemaFields s ! i)) else Inl OutOfRange
      | None \<Rightarrow>
          let matchedFields = suffixMatches name (schemaFields s)
          in Inr (if matchedFields \<noteq> [] then Some (hd matchedFields) else None))"

definition getFieldAt :: "Schema \<Rightarrow> u64 \<Rightarrow> Field result" where
  "getFieldAt s i = (if unat i < length (schemaFields s) then Inr (schemaFields s ! unat i) else Inl FieldNotFound)"

definition getSourceNameQualifier :: "Schema \<Rightarrow> string option" where
  "getSourceNameQualifier s =
     (if schemaFields s = [] then None else Some (takeWhile (\<lambda>c. c \<noteq> CHR ''$'') (fieldName (hd (schemaFields s)))))"

definition getQualifierNameForSystemGeneratedFieldsWithSeparator :: "Schema \<Rightarrow> string result" where
  "getQualifierNameForSystemGeneratedFieldsWithSeparator s =
     (case getSourceNameQualifier s of Some q \<Rightarrow> Inr (q @ ''$'') | None \<Rightarrow> Inl CannotInferStamp)"

definition schema_contains :: "Schema \<Rightarrow> string \<Rightarrow> bool" where
  "schema_contains s name \<longleftrightarrow> nameToField s name \<noteq> None"

definition getFieldNames :: "Schema \<Rightarrow> string list" where
  "getFieldNames s = map fieldName (schemaFields s)"

fun appendFields :: "Field list \<Rightarrow> Field list \<times> (string \<rightharpoonup> nat) \<Rightarrow> Field list \<times> (string \<rightharpoonup> nat)" where
  "appendFields [] (fs, m) = (fs, m)"
| "appendFields (otherField # rest) (fs, m) =
     appendFields rest (fs @ [otherField], index_emplace (fieldName otherField) (length fs) m)"

definition appendFieldsFromOtherSchema :: "Schema \<Rightarrow> Schema \<Rightarrow> Schema" where
  "appendFieldsFromOtherSchema s otherSchema =
     (let (fs, m) = appendFields (schemaFields otherSchema) (schemaFields s, nameToField s)
      in s\<lparr>schemaFields := fs, nameToField := m,
           sizeOfSchemaInBytes := sizeOfSchemaInBytes s + sizeOfSchemaInBytes otherSchema\<rparr>)"

text \<open>\<open>extract\<close> removes the entry; inserting the node again fails if the new name has an entry.\<close>

definition renameField :: "Schema \<Rightarrow> string \<Rightarrow> string \<Rightarrow> (Schema \<times> bool) result" where
  "renameField s oldFieldName newFieldName =
     (case nameToField s oldFieldName of
        None \<Rightarrow> Inr (s, False)
      | Some i \<Rightarrow>
          if i < length (schemaFields s)
          then Inr (s\<lparr>schemaFields := (schemaFields s)[i := (schemaFields s ! i)\<lparr>fieldName := newFieldName\<rparr>],
                      nameToField := index_emplace newFieldName i ((nameToField s)(oldFieldName := None))\<rparr>, True)
          else Inl OutOfRange)"

definition hasFields :: "Schema \<Rightarrow> bool" where
  "hasFields s \<longleftrightarrow> schemaFields s \<noteq> []"

definition getNumberOfFields :: "Schema \<Rightarrow> u64" where
  "getNumberOfFields s = of_nat (length (schemaFields s))"

section \<open>Serialisation\<close>

record SerializableSchema =
  serializedFields :: "(string \<times> nat) list"
  layoutType :: nat

definition serializeSchema :: "Schema \<Rightarrow> SerializableSchema" where
  "serializeSchema s =
     \<lparr>serializedFields = map (\<lambda>f. (fieldName f, serializeDataType (fieldType f))) (schemaFields s),
      layoutType = (case memoryLayoutType s of ROW_LAYOUT \<Rightarrow> 0 | COLUMNAR_LAYOUT \<Rightarrow> 1)\<rparr>"

fun deserializeFields :: "(string \<times> nat) list \<Rightarrow> Schema \<Rightarrow> Schema result" where
  "deserializeFields [] s = Inr s"
| "deserializeFields ((name, t) # rest) s =
     andThen (deserializeDataType t) (\<lambda>type. deserializeFields rest (addField s name type))"

definition deserializeSchema :: "SerializableSchema \<Rightarrow> Schema result" where
  "deserializeSchema ser =
     andThen (deserializeFields (serializedFields ser) (newSchema ROW_LAYOUT)) (\<lambda>s.
       Inr (if layoutType ser = 0 then s\<lparr>memoryLayoutType := ROW_LAYOUT\<rparr>
            else if layoutType ser = 1 then s\<lparr>memoryLayoutType := COLUMNAR_LAYOUT\<rparr>
            else s))"

section \<open>The index and the size\<close>

definition index_sound :: "Schema \<Rightarrow> bool" where
  "index_sound s \<longleftrightarrow>
     (\<forall>n i. nameToField s n = Some i \<longrightarrow> i < length (schemaFields s) \<and> fieldName (schemaFields s ! i) = n)"

definition index_complete :: "Schema \<Rightarrow> bool" where
  "index_complete s \<longleftrightarrow> nameToField s = (\<lambda>n. indexOf n (map fieldName (schemaFields s)))"

definition fieldSizes :: "Field list \<Rightarrow> u64" where
  "fieldSizes fs = sum_list (map (\<lambda>f. ucast (getSizeInBytes (fieldType f))) fs)"

definition size_exact :: "Schema \<Rightarrow> bool" where
  "size_exact s \<longleftrightarrow> sizeOfSchemaInBytes s = fieldSizes (schemaFields s)"

lemma fieldSizes_append [simp]: "fieldSizes (a @ b) = fieldSizes a + fieldSizes b"
  by (simp add: fieldSizes_def)

lemma fieldSizes_Cons [simp]: "fieldSizes (f # fs) = ucast (getSizeInBytes (fieldType f)) + fieldSizes fs"
  by (simp add: fieldSizes_def)

lemma fieldSizes_Nil [simp]: "fieldSizes [] = 0"
  by (simp add: fieldSizes_def)

lemma fieldSizes_update:
  "i < length fs \<Longrightarrow> fieldSizes (fs[i := f]) =
     fieldSizes fs - ucast (getSizeInBytes (fieldType (fs ! i))) + ucast (getSizeInBytes (fieldType f))"
proof (induction fs arbitrary: i)
  case (Cons g fs)
  then show ?case by (cases i) (simp_all add: algebra_simps)
qed simp

lemma indexOf_Some: "indexOf x xs = Some i \<Longrightarrow> i < length xs \<and> xs ! i = x"
  by (induction xs arbitrary: i) (auto split: if_splits)

lemma indexOf_None: "indexOf x xs = None \<longleftrightarrow> x \<notin> set xs"
  by (induction xs) auto

lemma indexOf_snoc:
  "indexOf x (xs @ [y]) = (case indexOf x xs of Some i \<Rightarrow> Some i | None \<Rightarrow> if x = y then Some (length xs) else None)"
  by (induction xs) (auto split: option.split)

lemma indexOf_distinct: "distinct xs \<Longrightarrow> i < length xs \<Longrightarrow> indexOf (xs ! i) xs = Some i"
proof (induction xs arbitrary: i)
  case (Cons x xs)
  then show ?case by (cases i) auto
qed simp

lemma index_emplace_complete:
  "m = (\<lambda>n. indexOf n names) \<Longrightarrow> index_emplace name (length names) m = (\<lambda>n. indexOf n (names @ [name]))"
  by (auto simp: index_emplace_def indexOf_snoc fun_eq_iff split: option.split)

lemma complete_imp_sound: "index_complete s \<Longrightarrow> index_sound s"
  by (auto simp: index_complete_def index_sound_def dest!: indexOf_Some)

lemma addField_complete: "index_complete s \<Longrightarrow> index_complete (addField s name t)"
  using index_emplace_complete [of "nameToField s" "map fieldName (schemaFields s)" name]
  by (simp add: index_complete_def addField_def)

lemma addField_sound: "index_sound s \<Longrightarrow> index_sound (addField s name t)"
  by (auto simp: index_sound_def addField_def index_emplace_def nth_append split: option.splits if_splits)

lemma addField_size: "size_exact s \<Longrightarrow> size_exact (addField s name t)"
  by (simp add: size_exact_def addField_def)

lemma Field_eta [simp]: "\<lparr>fieldName = fieldName f, fieldType = fieldType f\<rparr> = f"
  by simp

lemma appendFields_foldl:
  "appendFields other (schemaFields s, nameToField s) =
     (schemaFields (foldl (\<lambda>s f. addField s (fieldName f) (fieldType f)) s other),
      nameToField (foldl (\<lambda>s f. addField s (fieldName f) (fieldType f)) s other))"
proof (induction other arbitrary: s)
  case (Cons f other)
  have "appendFields (f # other) (schemaFields s, nameToField s) =
      appendFields other (schemaFields (addField s (fieldName f) (fieldType f)), nameToField (addField s (fieldName f) (fieldType f)))"
    by (simp add: addField_def)
  then show ?case unfolding Cons.IH by simp
qed simp

lemma append_as_addField:
  assumes "size_exact other"
  shows "appendFieldsFromOtherSchema s other =
     foldl (\<lambda>s f. addField s (fieldName f) (fieldType f)) s (schemaFields other)"
proof -
  let ?add = "\<lambda>s f. addField s (fieldName f) (fieldType f)"
  have size: "sizeOfSchemaInBytes (foldl ?add s fs) = sizeOfSchemaInBytes s + fieldSizes fs" for fs s
    by (induction fs arbitrary: s) (simp_all add: addField_def)
  have layout: "memoryLayoutType (foldl ?add s fs) = memoryLayoutType s" for fs s
    by (induction fs arbitrary: s) (simp_all add: addField_def)
  show ?thesis
    using assms size [of s "schemaFields other"] layout [of s "schemaFields other"]
    by (simp add: appendFieldsFromOtherSchema_def appendFields_foldl Let_def size_exact_def)
qed

lemma foldl_addField:
  fixes fs :: "Field list"
  assumes "\<And>s f. P s \<Longrightarrow> P (addField s (fieldName (f :: Field)) (fieldType f))" "P s"
  shows "P (foldl (\<lambda>s f. addField s (fieldName f) (fieldType f)) s fs)"
  using assms(2)
proof (induction fs arbitrary: s)
  case (Cons f fs)
  show ?case using Cons.IH [OF assms(1) [OF Cons.prems, of f]] by simp
qed simp

lemma replaceTypeOfField_ok:
  assumes "index_sound s"
  obtains s' b where "replaceTypeOfField s name t = Inr (s', b)" "index_sound s'" "b \<longleftrightarrow> schema_contains s name"
    "size_exact s \<Longrightarrow> size_exact s'" "map fieldName (schemaFields s') = map fieldName (schemaFields s)"
    "nameToField s' = nameToField s"
proof (cases "nameToField s name")
  case None
  then show thesis using that [of s False] assms by (simp add: replaceTypeOfField_def schema_contains_def)
next
  case (Some i)
  then have i: "i < length (schemaFields s)" using assms by (simp add: index_sound_def)
  let ?s = "s\<lparr>sizeOfSchemaInBytes := sizeOfSchemaInBytes s - ucast (getSizeInBytes (fieldType (schemaFields s ! i))) + ucast (getSizeInBytes t),
              schemaFields := (schemaFields s)[i := (schemaFields s ! i)\<lparr>fieldType := t\<rparr>]\<rparr>"
  have names: "map fieldName (schemaFields ?s) = map fieldName (schemaFields s)"
    using i by (simp add: map_update list_update_same_conv)
  moreover have "index_sound ?s" using assms i by (auto simp: index_sound_def nth_list_update)
  moreover have "size_exact s \<Longrightarrow> size_exact ?s" using i by (simp add: size_exact_def fieldSizes_update)
  ultimately show thesis using that [of ?s True] Some i by (simp add: replaceTypeOfField_def schema_contains_def)
qed

lemma renameField_ok:
  assumes "index_sound s"
  obtains s' b where "renameField s old new = Inr (s', b)" "index_sound s'" "b \<longleftrightarrow> schema_contains s old"
    "size_exact s \<Longrightarrow> size_exact s'"
proof (cases "nameToField s old")
  case None
  then show thesis using that [of s False] assms by (simp add: renameField_def schema_contains_def)
next
  case (Some i)
  then have i: "i < length (schemaFields s)" "fieldName (schemaFields s ! i) = old" using assms by (auto simp: index_sound_def)
  let ?s = "s\<lparr>schemaFields := (schemaFields s)[i := (schemaFields s ! i)\<lparr>fieldName := new\<rparr>],
              nameToField := index_emplace new i ((nameToField s)(old := None))\<rparr>"
  have "index_sound ?s"
    unfolding index_sound_def
  proof (intro allI impI)
    fix n j assume n: "nameToField ?s n = Some j"
    then have "n = new \<and> j = i \<or> nameToField s n = Some j \<and> n \<noteq> old"
      by (auto simp: index_emplace_def split: option.splits if_splits)
    then show "j < length (schemaFields ?s) \<and> fieldName (schemaFields ?s ! j) = n"
      using assms i by (auto simp: index_sound_def nth_list_update)
  qed
  moreover have "size_exact s \<Longrightarrow> size_exact ?s" using i(1) by (simp add: size_exact_def fieldSizes_update)
  ultimately show thesis using that [of ?s True] Some i(1) by (simp add: renameField_def schema_contains_def)
qed

section \<open>Properties\<close>

text \<open>The schemas that sequences of the operations build.\<close>

inductive built :: "Schema \<Rightarrow> bool" where
  new: "built (newSchema layout)"
| add: "built s \<Longrightarrow> built (addField s name type)"
| replace: "built s \<Longrightarrow> replaceTypeOfField s name type = Inr (s', b) \<Longrightarrow> built s'"
| append: "built s \<Longrightarrow> built other \<Longrightarrow> built (appendFieldsFromOtherSchema s other)"
| rename: "built s \<Longrightarrow> renameField s old new = Inr (s', b) \<Longrightarrow> built s'"

lemma newSchema_inv [simp]: "index_complete (newSchema layout)" "index_sound (newSchema layout)" "size_exact (newSchema layout)"
  by (simp_all add: index_complete_def index_sound_def size_exact_def newSchema_def)

lemma append_inv:
  assumes "index_sound s" "size_exact s" "size_exact other"
  shows "index_sound (appendFieldsFromOtherSchema s other)" "size_exact (appendFieldsFromOtherSchema s other)"
  unfolding append_as_addField [OF assms(3)]
  using foldl_addField [of index_sound, OF addField_sound assms(1)] foldl_addField [of size_exact, OF addField_size assms(2)]
  by blast+

lemma built_inv: "built s \<Longrightarrow> index_sound s \<and> size_exact s"
proof (induction rule: built.induct)
  case (replace s name type s' b)
  obtain s'' b' where "replaceTypeOfField s name type = Inr (s'', b')" "index_sound s''" "size_exact s \<Longrightarrow> size_exact s''"
    using replaceTypeOfField_ok [of s name type] replace.IH by metis
  then show ?case using replace by simp
next
  case (rename s old new s' b)
  obtain s'' b' where "renameField s old new = Inr (s'', b')" "index_sound s''" "size_exact s \<Longrightarrow> size_exact s''"
    using renameField_ok [of s old new] rename.IH by metis
  then show ?case using rename by simp
qed (simp_all add: addField_sound addField_size append_inv)

text \<open>C21. Whatever sequence of \<open>addField\<close>, \<open>replaceTypeOfField\<close>, \<open>appendFieldsFromOtherSchema\<close> and
  \<open>renameField\<close> builds a schema, every entry of its name index points at a field of that name, its size
  is the sum of its field sizes modulo \<open>2^64\<close>, and a lookup, a replacement and a renaming return without
  an out-of-range access.\<close>

theorem built_schema_consistent:
  assumes "built s"
  shows "(\<forall>n i. nameToField s n = Some i \<longrightarrow> i < length (schemaFields s) \<and> fieldName (schemaFields s ! i) = n)
       \<and> sizeOfSchemaInBytes s = sum_list (map (\<lambda>f. ucast (getSizeInBytes (fieldType f))) (schemaFields s))
       \<and> (\<exists>r. getFieldByName s name = Inr r)
       \<and> (\<exists>s'. replaceTypeOfField s name t = Inr (s', schema_contains s name))
       \<and> (\<exists>s'. renameField s name new = Inr (s', schema_contains s name))"
proof -
  have s: "index_sound s" "size_exact s" using built_inv [OF assms] by auto
  then have "\<exists>r. getFieldByName s name = Inr r"
    by (auto simp: getFieldByName_def index_sound_def Let_def split: option.splits)
  moreover have "\<exists>s'. replaceTypeOfField s name t = Inr (s', schema_contains s name)"
    by (rule replaceTypeOfField_ok [OF s(1), of name t]) auto
  moreover have "\<exists>s'. renameField s name new = Inr (s', schema_contains s name)"
    by (rule renameField_ok [OF s(1), of name new]) auto
  ultimately show ?thesis using s by (simp add: index_sound_def size_exact_def fieldSizes_def)
qed

theorem built_schema_consistent_witness:
  "sizeOfSchemaInBytes (addField (newSchema ROW_LAYOUT) ''s$id'' UINT64)
     = sum_list (map (\<lambda>f. ucast (getSizeInBytes (fieldType f))) (schemaFields (addField (newSchema ROW_LAYOUT) ''s$id'' UINT64)))"
  using built_schema_consistent [OF built.add [OF built.new], of ROW_LAYOUT "''s$id''" UINT64] by blast

lemma suffixMatches_filter: "suffixMatches name fs = filter (\<lambda>f. suffix name (fieldName f)) fs"
proof (induction fs)
  case (Cons f fs)
  have "length name \<le> length (fieldName f) \<and> drop (length (fieldName f) - length name) (fieldName f) = name
      \<longleftrightarrow> suffix name (fieldName f)"
    by (auto simp: suffix_def intro: exI [of _ "take (length (fieldName f) - length name) (fieldName f)"])
      (metis append_take_drop_id)
  then show ?case using Cons by simp
qed simp

lemma indexOf_find:
  "indexOf n (map fieldName fs) = Some i \<Longrightarrow> find (\<lambda>f. fieldName f = n) fs = Some (fs ! i)"
  by (induction fs arbitrary: i) (auto split: if_splits)

lemma hd_filter_find: "find P xs = (if filter P xs \<noteq> [] then Some (hd (filter P xs)) else None)"
  by (induction xs) auto

lemma getFieldByName_lookup:
  assumes "index_complete s"
  shows "getFieldByName s name = Inr (case find (\<lambda>f. fieldName f = name) (schemaFields s) of
           Some f \<Rightarrow> Some f | None \<Rightarrow> find (\<lambda>f. suffix name (fieldName f)) (schemaFields s))"
proof (cases "nameToField s name")
  case None
  then have "indexOf name (map fieldName (schemaFields s)) = None" using assms by (simp add: index_complete_def)
  then have "find (\<lambda>f. fieldName f = name) (schemaFields s) = None" by (auto simp: indexOf_None find_None_iff)
  then show ?thesis using None
    by (simp add: getFieldByName_def Let_def suffixMatches_filter hd_filter_find [of "\<lambda>f. suffix name (fieldName f)"])
next
  case (Some i)
  then have "indexOf name (map fieldName (schemaFields s)) = Some i" using assms by (simp add: index_complete_def)
  then show ?thesis using Some indexOf_find indexOf_Some by (fastforce simp: getFieldByName_def)
qed



text \<open>The fallback compares characters, not name parts: \<open>id\<close> also finds \<open>s$grid\<close>. Of two matches it returns
  the first.\<close>

lemma suffix_match_ignores_separator:
  "getFieldByName (addField (addField (newSchema ROW_LAYOUT) ''s$grid'' UINT64) ''s$id'' UINT32) ''id''
     = Inr (Some \<lparr>fieldName = ''s$grid'', fieldType = UINT64\<rparr>)"
  by (simp add: getFieldByName_def addField_def newSchema_def index_emplace_def)

text \<open>Renaming a field to a name that another field has removes the old entry and adds none. Renaming the
  other field away then leaves a schema that has a field of the name but does not contain it.\<close>

lemma rename_loses_index:
  "andThen (renameField (addField (addField (newSchema ROW_LAYOUT) ''a'' UINT64) ''b'' UINT32) ''a'' ''b'') (\<lambda>(s, _).
     andThen (renameField s ''b'' ''c'') (\<lambda>(s, _). Inr (getFieldNames s, schema_contains s ''b'')))
   = Inr ([''b'', ''c''], False)"
  by (simp add: renameField_def addField_def newSchema_def index_emplace_def getFieldNames_def schema_contains_def andThen_def)

lemma renameField_complete:
  assumes "index_complete s" "distinct (getFieldNames s)" "new \<notin> set (getFieldNames s)" "renameField s old new = Inr (s', b)"
  shows "index_complete s' \<and> distinct (getFieldNames s')"
proof (cases "nameToField s old")
  case None
  then show ?thesis using assms by (simp add: renameField_def)
next
  case (Some i)
  let ?names = "map fieldName (schemaFields s)"
  have i: "i < length ?names" "?names ! i = old"
    using Some assms(1) indexOf_Some by (fastforce simp: index_complete_def)+
  have s': "schemaFields s' = (schemaFields s)[i := (schemaFields s ! i)\<lparr>fieldName := new\<rparr>]"
    "nameToField s' = index_emplace new i ((nameToField s)(old := None))"
    using Some assms(4) i by (auto simp: renameField_def)
  have names': "map fieldName (schemaFields s') = ?names[i := new]" using s' by (simp add: map_update)
  have d: "distinct (?names[i := new])" using assms(2,3) by (simp add: getFieldNames_def distinct_list_update)
  have new: "nameToField s new = None" using assms(1,3) by (simp add: index_complete_def getFieldNames_def indexOf_None)
  have "nameToField s' n = indexOf n (?names[i := new])" for n
  proof (cases "n \<in> set (?names[i := new])")
    case True
    then obtain j where j: "j < length ?names" "?names[i := new] ! j = n" by (auto simp: in_set_conv_nth)
    then have "indexOf n (?names[i := new]) = Some j" using indexOf_distinct [OF d, of j] by simp
    moreover have "nameToField s' n = Some j"
    proof (cases "j = i")
      case True
      then show ?thesis using s'(2) j i new by (simp add: index_emplace_def)
    next
      case False
      then have nj: "?names ! j = n" "n \<noteq> old" using j i assms(2) nth_eq_iff_index_eq [of ?names i j] by (auto simp: getFieldNames_def)
      moreover have "indexOf n ?names = Some j"
        using indexOf_distinct [of ?names j] assms(2) j(1) nj by (simp add: getFieldNames_def)
      moreover have "n \<noteq> new" using nj j assms(3) nth_mem by (force simp: getFieldNames_def)
      ultimately show ?thesis using s'(2) assms(1) by (simp add: index_emplace_def index_complete_def split: option.split)
    qed
    ultimately show ?thesis by simp
  next
    case False
    then have "n \<noteq> new" using i by (metis length_list_update nth_list_update_eq nth_mem)
    moreover have "n \<noteq> old \<Longrightarrow> n \<notin> set ?names"
      using False i by (metis in_set_conv_nth length_list_update nth_list_update_neq)
    ultimately have "nameToField s' n = None"
      using s'(2) assms(1) by (auto simp: index_emplace_def index_complete_def indexOf_None split: option.split)
    then show ?thesis using False indexOf_None [of n "?names[i := new]"] by simp
  qed
  then show ?thesis using names' d by (auto simp: index_complete_def getFieldNames_def)
qed

lemma append_complete:
  "index_complete s \<Longrightarrow> size_exact other \<Longrightarrow> index_complete (appendFieldsFromOtherSchema s other)"
  unfolding append_as_addField using foldl_addField [of index_complete, OF addField_complete] by blast

lemma deserializeFields_foldl:
  assumes "\<forall>f \<in> set fs. fieldType f \<noteq> VARSIZED_POINTER_REP"
  shows "deserializeFields (map (\<lambda>f. (fieldName f, serializeDataType (fieldType f))) fs) s =
     Inr (foldl (\<lambda>s f. addField s (fieldName f) (fieldType f)) s fs)"
  using assms by (induction fs arbitrary: s) (simp_all add: serializeDataType_roundtrip)

text \<open>A schema with a complete index and an exact size is determined by its fields and its layout.\<close>

lemma schema_from_fields:
  assumes "index_complete s" "size_exact s"
  shows "s = (foldl (\<lambda>s f. addField s (fieldName f) (fieldType f)) (newSchema ROW_LAYOUT) (schemaFields s))
    \<lparr>memoryLayoutType := memoryLayoutType s\<rparr>"
proof -
  let ?fold = "foldl (\<lambda>s f. addField s (fieldName f) (fieldType f))"
  have fs: "schemaFields (?fold t fs) = schemaFields t @ fs" for t fs
    by (induction fs arbitrary: t) (simp_all add: addField_def)
  let ?t = "?fold (newSchema ROW_LAYOUT) (schemaFields s)"
  have "schemaFields ?t = schemaFields s" by (simp add: fs newSchema_def)
  moreover have "index_complete ?t" "size_exact ?t"
    using foldl_addField [of index_complete, OF addField_complete] foldl_addField [of size_exact, OF addField_size] by auto
  ultimately show ?thesis using assms by (simp add: index_complete_def size_exact_def)
qed



end
