(* ===== verification/LogicalFunctions.thy ===== *)
theory LogicalFunctions
  imports Descriptors Schemas
begin

text \<open>
  Logical functions, the expressions of a query (\<open>src/nes-logical-operators/src/Functions\<close>), except the
  spatio-temporal ones under \<open>Meos\<close>.

  A function is a node with its class, its data type, the string member some classes have (a field name, a new
  field name, a constant) and its function members. The virtual methods of a class are a \<open>FunctionClass\<close>: one
  definition per class, in which a method gets the results of the recursive calls on the members as an
  argument. \<open>vtable\<close> selects the class, and the functions \<open>withInferredDataType\<close>, \<open>lf_equals\<close>, \<open>explain\<close>,
  \<open>serialize\<close> and \<open>deserializeFunction\<close> are the recursive calls through \<open>LogicalFunction\<close>
  (\<open>LogicalFunction.cpp\<close>, \<open>FunctionSerializationUtil.cpp\<close>).
\<close>

section \<open>Functions\<close>

datatype FunctionKind =
    Absolute | Add | Ceil | Div | Exp | Floor | Mod | Mul | Pow | Round | Sqrt | Sub
  | And | Equals | Negate | Or | Greater | GreaterEquals | Less | LessEquals
  | CastToType | Concat | ConstantValue | FieldAccess | FieldAssignment | Rename

datatype LogicalFunction =
  LogicalFunction (kindOf: FunctionKind) (getDataType: DataType) (payload: string) (members: "LogicalFunction list")

datatype ExplainVerbosity = Debug | Short

record LogicalFunctionRegistryArguments =
  argConfig :: Config
  argChildren :: "LogicalFunction list"
  argDataType :: DataType

text \<open>\<open>equalsOf\<close> gets two matrices: entry \<open>i, j\<close> of the first is member \<open>i\<close> of this \<open>==\<close> member \<open>j\<close> of the other,
  of the second member \<open>j\<close> of the other \<open>==\<close> member \<open>i\<close> of this.\<close>

record FunctionClass =
  NAME :: string
  childrenOf :: "LogicalFunction \<Rightarrow> LogicalFunction list"
  withChildrenOf :: "LogicalFunction \<Rightarrow> LogicalFunction list \<Rightarrow> LogicalFunction result"
  inferOf :: "LogicalFunction \<Rightarrow> LogicalFunction result list \<Rightarrow> Schema \<Rightarrow> LogicalFunction result"
  equalsOf :: "LogicalFunction \<Rightarrow> LogicalFunction \<Rightarrow> bool list list \<Rightarrow> bool list list \<Rightarrow> bool"
  explainOf :: "ExplainVerbosity \<Rightarrow> LogicalFunction \<Rightarrow> string list \<Rightarrow> string"
  serializeOf :: "LogicalFunction \<Rightarrow> SerializableFunction list \<Rightarrow> SerializableFunction"
  registerOf :: "LogicalFunctionRegistryArguments \<Rightarrow> LogicalFunction result"

definition withDataType :: "LogicalFunction \<Rightarrow> DataType \<Rightarrow> LogicalFunction" where
  "withDataType f dataType = LogicalFunction (kindOf f) dataType (payload f) (members f)"

definition withMembers :: "LogicalFunction \<Rightarrow> LogicalFunction list \<Rightarrow> LogicalFunction" where
  "withMembers f ms = LogicalFunction (kindOf f) (getDataType f) (payload f) ms"

definition showDataType :: "DataType \<Rightarrow> string" where
  "showDataType t = ''DataType(type: '' @ enum_name t @ '')''"

fun sequence :: "'a result list \<Rightarrow> 'a list result" where
  "sequence [] = Inr []"
| "sequence (r # rs) = andThen r (\<lambda>x. andThen (sequence rs) (\<lambda>xs. Inr (x # xs)))"

section \<open>What the classes share\<close>

definition joinOrUndefined :: "DataType \<Rightarrow> DataType \<Rightarrow> DataType result" where
  "joinOrUndefined l r = andThen (join l r) (\<lambda>t. Inr (case t of Some t \<Rightarrow> t | None \<Rightarrow> UNDEFINED))"

definition newJoined :: "FunctionKind \<Rightarrow> LogicalFunction \<Rightarrow> LogicalFunction \<Rightarrow> LogicalFunction result" where
  "newJoined kind l r = andThen (joinOrUndefined (getDataType l) (getDataType r)) (\<lambda>t. Inr (LogicalFunction kind t [] [l, r]))"

definition newBoolean :: "FunctionKind \<Rightarrow> LogicalFunction list \<Rightarrow> LogicalFunction result" where
  "newBoolean kind ms = andThen (provideDataTypeOf BOOLEAN) (\<lambda>t. Inr (LogicalFunction kind t [] ms))"

text \<open>\<open>children[i]\<close> beyond the end is undefined behaviour; the classes that check the number of children first do
  not reach it.\<close>

definition twoChildren :: "LogicalFunction list \<Rightarrow> (LogicalFunction \<times> LogicalFunction) result" where
  "twoChildren children = (case children of l # r # _ \<Rightarrow> Inr (l, r) | _ \<Rightarrow> Inl UndefinedBehaviour)"

definition withJoinedChildren :: "LogicalFunction \<Rightarrow> LogicalFunction list \<Rightarrow> LogicalFunction result" where
  "withJoinedChildren f children =
     andThen (twoChildren children) (\<lambda>(l, r).
     andThen (joinOrUndefined (getDataType l) (getDataType r)) (\<lambda>t. Inr (withDataType (withMembers f [l, r]) t)))"

definition withTwoJoinedChildren :: "LogicalFunction \<Rightarrow> LogicalFunction list \<Rightarrow> LogicalFunction result" where
  "withTwoJoinedChildren f children = andThen (PRECONDITION (length children = 2)) (\<lambda>_. withJoinedChildren f children)"

definition withTwoChildren :: "LogicalFunction \<Rightarrow> LogicalFunction list \<Rightarrow> LogicalFunction result" where
  "withTwoChildren f children =
     andThen (PRECONDITION (length children = 2)) (\<lambda>_.
     andThen (twoChildren children) (\<lambda>(l, r). Inr (withMembers f [l, r])))"

definition withOneChild :: "LogicalFunction \<Rightarrow> LogicalFunction list \<Rightarrow> LogicalFunction result" where
  "withOneChild f children = andThen (PRECONDITION (length children = 1)) (\<lambda>_. Inr (withMembers f [hd children]))"

definition inferThen ::
  "(LogicalFunction \<Rightarrow> LogicalFunction list \<Rightarrow> LogicalFunction result)
     \<Rightarrow> LogicalFunction \<Rightarrow> LogicalFunction result list \<Rightarrow> Schema \<Rightarrow> LogicalFunction result" where
  "inferThen withChildren f inferred schema = andThen (sequence inferred) (withChildren f)"

definition simpleMatch :: "LogicalFunction \<Rightarrow> LogicalFunction \<Rightarrow> bool list list \<Rightarrow> bool list list \<Rightarrow> bool" where
  "simpleMatch this other eq qe \<longleftrightarrow> eq ! 0 ! 0 \<and> eq ! 1 ! 1"

definition commutativeMatch :: "LogicalFunction \<Rightarrow> LogicalFunction \<Rightarrow> bool list list \<Rightarrow> bool list list \<Rightarrow> bool" where
  "commutativeMatch this other eq qe \<longleftrightarrow> eq ! 0 ! 0 \<and> eq ! 1 ! 1 \<or> eq ! 0 ! 1 \<and> eq ! 1 ! 0"

definition childMatch :: "LogicalFunction \<Rightarrow> LogicalFunction \<Rightarrow> bool list list \<Rightarrow> bool list list \<Rightarrow> bool" where
  "childMatch this other eq qe \<longleftrightarrow> eq ! 0 ! 0"

definition explainBinary :: "string \<Rightarrow> string \<Rightarrow> ExplainVerbosity \<Rightarrow> LogicalFunction \<Rightarrow> string list \<Rightarrow> string" where
  "explainBinary name symbol verbosity f cs =
     (if verbosity = Debug
      then name @ ''LogicalFunction('' @ cs ! 0 @ '' '' @ symbol @ '' '' @ cs ! 1 @ '' : '' @ showDataType (getDataType f) @ '')''
      else cs ! 0 @ '' '' @ symbol @ '' '' @ cs ! 1)"

definition explainInfix :: "string \<Rightarrow> ExplainVerbosity \<Rightarrow> LogicalFunction \<Rightarrow> string list \<Rightarrow> string" where
  "explainInfix symbol verbosity f cs = cs ! 0 @ '' '' @ symbol @ '' '' @ cs ! 1"

definition explainUnary :: "string \<Rightarrow> string \<Rightarrow> ExplainVerbosity \<Rightarrow> LogicalFunction \<Rightarrow> string list \<Rightarrow> string" where
  "explainUnary name short verbosity f cs =
     (if verbosity = Debug then name @ ''LogicalFunction('' @ cs ! 0 @ '' : '' @ showDataType (getDataType f) @ '')''
      else short @ ''('' @ cs ! 0 @ '')'')"

definition explainCall :: "string \<Rightarrow> ExplainVerbosity \<Rightarrow> LogicalFunction \<Rightarrow> string list \<Rightarrow> string" where
  "explainCall name verbosity f cs = name @ ''('' @ cs ! 0 @ '', '' @ cs ! 1 @ '')''"

definition serializeWith :: "string \<Rightarrow> LogicalFunction \<Rightarrow> SerializableFunction list \<Rightarrow> SerializableFunction" where
  "serializeWith name f cs = SerializableFunction name (serializeDataType (getDataType f)) [] cs"

definition registerBinary ::
  "(LogicalFunction \<Rightarrow> LogicalFunction \<Rightarrow> LogicalFunction result) \<Rightarrow> LogicalFunctionRegistryArguments \<Rightarrow> LogicalFunction result" where
  "registerBinary construct arguments =
     andThen (PRECONDITION (length (argChildren arguments) = 2)) (\<lambda>_. construct (argChildren arguments ! 0) (argChildren arguments ! 1))"

definition registerUnary :: "(LogicalFunction \<Rightarrow> LogicalFunction result) \<Rightarrow> LogicalFunctionRegistryArguments \<Rightarrow> LogicalFunction result" where
  "registerUnary construct arguments =
     andThen (PRECONDITION (length (argChildren arguments) = 1)) (\<lambda>_. construct (hd (argChildren arguments)))"

definition configString :: "LogicalFunctionRegistryArguments \<Rightarrow> string \<Rightarrow> string result" where
  "configString arguments key =
     (case argConfig arguments key of None \<Rightarrow> Inl PreconditionViolated | Some v \<Rightarrow> getString v)"

section \<open>Arithmetic\<close>

definition AbsoluteLogicalFunction :: FunctionClass where
  "AbsoluteLogicalFunction =
     \<lparr>NAME = ''Absolute'',
      childrenOf = members,
      withChildrenOf = withOneChild,
      inferOf = inferThen withOneChild,
      equalsOf = childMatch,
      explainOf = explainUnary ''Absolute'' ''ABS'',
      serializeOf = serializeWith ''Absolute'',
      registerOf = registerUnary (\<lambda>c. Inr (LogicalFunction Absolute (getDataType c) [] [c]))\<rparr>"

text \<open>The second comparison of \<open>AddLogicalFunction::operator==\<close> reads the right operand twice.\<close>

definition AddLogicalFunction :: FunctionClass where
  "AddLogicalFunction =
     \<lparr>NAME = ''Add'',
      childrenOf = members,
      withChildrenOf = withTwoJoinedChildren,
      inferOf = inferThen withTwoJoinedChildren,
      equalsOf = (\<lambda>this other eq qe. eq ! 0 ! 0 \<and> eq ! 1 ! 1 \<or> eq ! 1 ! 1 \<and> eq ! 1 ! 0),
      explainOf = explainBinary ''Add'' ''+'',
      serializeOf = serializeWith ''Add'',
      registerOf = registerBinary (newJoined Add)\<rparr>"

definition CeilLogicalFunction :: FunctionClass where
  "CeilLogicalFunction =
     \<lparr>NAME = ''Ceil'',
      childrenOf = members,
      withChildrenOf = withOneChild,
      inferOf = inferThen withOneChild,
      equalsOf = childMatch,
      explainOf = explainUnary ''Ceil'' ''CEIL'',
      serializeOf = serializeWith ''Ceil'',
      registerOf = registerUnary (\<lambda>c. Inr (LogicalFunction Ceil (getDataType c) [] [c]))\<rparr>"

text \<open>The constructor of a division takes the type of the dividend; \<open>withChildren\<close> joins the types.\<close>

definition DivLogicalFunction :: FunctionClass where
  "DivLogicalFunction =
     \<lparr>NAME = ''Div'',
      childrenOf = members,
      withChildrenOf = withTwoJoinedChildren,
      inferOf = inferThen withTwoJoinedChildren,
      equalsOf = simpleMatch,
      explainOf = explainBinary ''Div'' ''/'',
      serializeOf = serializeWith ''Div'',
      registerOf = registerBinary (\<lambda>l r. Inr (LogicalFunction Div (getDataType l) [] [l, r]))\<rparr>"

definition ExpLogicalFunction :: FunctionClass where
  "ExpLogicalFunction =
     \<lparr>NAME = ''Exp'',
      childrenOf = members,
      withChildrenOf = withOneChild,
      inferOf = inferThen withOneChild,
      equalsOf = childMatch,
      explainOf = explainUnary ''Exp'' ''EXP'',
      serializeOf = serializeWith ''Exp'',
      registerOf = registerUnary (\<lambda>c. Inr (LogicalFunction Exp (getDataType c) [] [c]))\<rparr>"

definition FloorLogicalFunction :: FunctionClass where
  "FloorLogicalFunction =
     \<lparr>NAME = ''Floor'',
      childrenOf = members,
      withChildrenOf = withOneChild,
      inferOf = inferThen withOneChild,
      equalsOf = childMatch,
      explainOf = explainUnary ''Floor'' ''FLOOR'',
      serializeOf = serializeWith ''Floor'',
      registerOf = registerUnary (\<lambda>c. Inr (LogicalFunction Floor (getDataType c) [] [c]))\<rparr>"

definition ModuloLogicalFunction :: FunctionClass where
  "ModuloLogicalFunction =
     \<lparr>NAME = ''Mod'',
      childrenOf = members,
      withChildrenOf = withTwoJoinedChildren,
      inferOf = inferThen withTwoJoinedChildren,
      equalsOf = simpleMatch,
      explainOf = explainBinary ''Modulo'' ''%'',
      serializeOf = serializeWith ''Mod'',
      registerOf = registerBinary (newJoined Mod)\<rparr>"

definition MulLogicalFunction :: FunctionClass where
  "MulLogicalFunction =
     \<lparr>NAME = ''Mul'',
      childrenOf = members,
      withChildrenOf = withTwoJoinedChildren,
      inferOf = inferThen withTwoJoinedChildren,
      equalsOf = commutativeMatch,
      explainOf = explainBinary ''Mul'' ''*'',
      serializeOf = serializeWith ''Mul'',
      registerOf = registerBinary (newJoined Mul)\<rparr>"

definition PowLogicalFunction :: FunctionClass where
  "PowLogicalFunction =
     \<lparr>NAME = ''Pow'',
      childrenOf = members,
      withChildrenOf = withJoinedChildren,
      inferOf = inferThen withJoinedChildren,
      equalsOf = commutativeMatch,
      explainOf = explainCall ''POW'',
      serializeOf = serializeWith ''Pow'',
      registerOf = registerBinary (newJoined Pow)\<rparr>"

definition RoundLogicalFunction :: FunctionClass where
  "RoundLogicalFunction =
     \<lparr>NAME = ''Round'',
      childrenOf = members,
      withChildrenOf = withOneChild,
      inferOf = inferThen withOneChild,
      equalsOf = childMatch,
      explainOf = explainUnary ''Round'' ''ROUND'',
      serializeOf = serializeWith ''Round'',
      registerOf = registerUnary (\<lambda>c. Inr (LogicalFunction Round (getDataType c) [] [c]))\<rparr>"

definition SqrtLogicalFunction :: FunctionClass where
  "SqrtLogicalFunction =
     \<lparr>NAME = ''Sqrt'',
      childrenOf = members,
      withChildrenOf = withOneChild,
      inferOf = inferThen withOneChild,
      equalsOf = childMatch,
      explainOf = explainUnary ''Sqrt'' ''SQRT'',
      serializeOf = serializeWith ''Sqrt'',
      registerOf = registerUnary (\<lambda>c. Inr (LogicalFunction Sqrt (getDataType c) [] [c]))\<rparr>"

definition SubLogicalFunction :: FunctionClass where
  "SubLogicalFunction =
     \<lparr>NAME = ''Sub'',
      childrenOf = members,
      withChildrenOf = withTwoJoinedChildren,
      inferOf = inferThen withTwoJoinedChildren,
      equalsOf = simpleMatch,
      explainOf = explainBinary ''Sub'' ''-'',
      serializeOf = serializeWith ''Sub'',
      registerOf = registerBinary (newJoined Sub)\<rparr>"

section \<open>Boolean functions and comparisons\<close>

text \<open>\<open>AndLogicalFunction::withInferredDataType\<close> checks the type the left operand had before the inference, twice;
  \<open>serialize\<close> writes the right operand first.\<close>

definition inferAnd :: "LogicalFunction \<Rightarrow> LogicalFunction result list \<Rightarrow> Schema \<Rightarrow> LogicalFunction result" where
  "inferAnd f inferred schema =
     andThen (sequence inferred) (\<lambda>newChildren.
     andThen (INVARIANT (isType (getDataType (members f ! 0)) BOOLEAN)) (\<lambda>_.
     andThen (INVARIANT (isType (getDataType (members f ! 0)) BOOLEAN)) (\<lambda>_. withTwoChildren f newChildren)))"

definition AndLogicalFunction :: FunctionClass where
  "AndLogicalFunction =
     \<lparr>NAME = ''And'',
      childrenOf = members,
      withChildrenOf = withTwoChildren,
      inferOf = inferAnd,
      equalsOf = commutativeMatch,
      explainOf = explainInfix ''AND'',
      serializeOf = (\<lambda>f cs. serializeWith ''And'' f [cs ! 1, cs ! 0]),
      registerOf = registerBinary (\<lambda>l r. newBoolean And [l, r])\<rparr>"

definition EqualsLogicalFunction :: FunctionClass where
  "EqualsLogicalFunction =
     \<lparr>NAME = ''Equals'',
      childrenOf = members,
      withChildrenOf = withTwoChildren,
      inferOf = inferThen withTwoChildren,
      equalsOf = commutativeMatch,
      explainOf = explainInfix ''='',
      serializeOf = serializeWith ''Equals'',
      registerOf = registerBinary (\<lambda>l r. newBoolean Equals [l, r])\<rparr>"

definition inferNegate :: "LogicalFunction \<Rightarrow> LogicalFunction result list \<Rightarrow> Schema \<Rightarrow> LogicalFunction result" where
  "inferNegate f inferred schema =
     andThen (hd inferred) (\<lambda>newChild.
       if \<not> isType (getDataType newChild) BOOLEAN then Inl CannotInferSchema else withOneChild f [newChild])"

definition NegateLogicalFunction :: FunctionClass where
  "NegateLogicalFunction =
     \<lparr>NAME = ''Negate'',
      childrenOf = members,
      withChildrenOf = withOneChild,
      inferOf = inferNegate,
      equalsOf = childMatch,
      explainOf = (\<lambda>verbosity f cs. ''NOT('' @ cs ! 0 @ '')''),
      serializeOf = serializeWith ''Negate'',
      registerOf = registerUnary (\<lambda>c. newBoolean Negate [c])\<rparr>"

definition inferOr :: "LogicalFunction \<Rightarrow> LogicalFunction result list \<Rightarrow> Schema \<Rightarrow> LogicalFunction result" where
  "inferOr f inferred schema =
     andThen (sequence inferred) (\<lambda>children.
     andThen (INVARIANT (isType (getDataType (members f ! 0)) BOOLEAN)) (\<lambda>_.
     andThen (INVARIANT (isType (getDataType (members f ! 1)) BOOLEAN)) (\<lambda>_. withTwoChildren f children)))"

definition OrLogicalFunction :: FunctionClass where
  "OrLogicalFunction =
     \<lparr>NAME = ''Or'',
      childrenOf = members,
      withChildrenOf = withTwoChildren,
      inferOf = inferOr,
      equalsOf = commutativeMatch,
      explainOf = explainInfix ''OR'',
      serializeOf = serializeWith ''Or'',
      registerOf = registerBinary (\<lambda>l r. newBoolean Or [l, r])\<rparr>"

definition GreaterLogicalFunction :: FunctionClass where
  "GreaterLogicalFunction =
     \<lparr>NAME = ''Greater'',
      childrenOf = members,
      withChildrenOf = withTwoChildren,
      inferOf = inferThen withTwoChildren,
      equalsOf = commutativeMatch,
      explainOf = explainInfix ''>'',
      serializeOf = serializeWith ''Greater'',
      registerOf = registerBinary (\<lambda>l r. newBoolean Greater [l, r])\<rparr>"

definition GreaterEqualsLogicalFunction :: FunctionClass where
  "GreaterEqualsLogicalFunction =
     \<lparr>NAME = ''GreaterEquals'',
      childrenOf = members,
      withChildrenOf = withTwoChildren,
      inferOf = inferThen withTwoChildren,
      equalsOf = commutativeMatch,
      explainOf = explainInfix ''>='',
      serializeOf = serializeWith ''GreaterEquals'',
      registerOf = registerBinary (\<lambda>l r. newBoolean GreaterEquals [l, r])\<rparr>"

definition LessLogicalFunction :: FunctionClass where
  "LessLogicalFunction =
     \<lparr>NAME = ''Less'',
      childrenOf = members,
      withChildrenOf = withTwoChildren,
      inferOf = inferThen withTwoChildren,
      equalsOf = simpleMatch,
      explainOf = explainInfix ''<'',
      serializeOf = serializeWith ''Less'',
      registerOf = registerBinary (\<lambda>l r. newBoolean Less [l, r])\<rparr>"

definition LessEqualsLogicalFunction :: FunctionClass where
  "LessEqualsLogicalFunction =
     \<lparr>NAME = ''LessEquals'',
      childrenOf = members,
      withChildrenOf = withTwoChildren,
      inferOf = inferThen withTwoChildren,
      equalsOf = commutativeMatch,
      explainOf = explainInfix ''<='',
      serializeOf = serializeWith ''LessEquals'',
      registerOf = registerBinary (\<lambda>l r. newBoolean LessEquals [l, r])\<rparr>"

section \<open>Casts, concatenation and constants\<close>

text \<open>A cast does not serialise its child, and does not infer its type.\<close>

definition CastToTypeLogicalFunction :: FunctionClass where
  "CastToTypeLogicalFunction =
     \<lparr>NAME = ''CastToType'',
      childrenOf = members,
      withChildrenOf = withOneChild,
      inferOf = (\<lambda>f inferred schema. Inr f),
      equalsOf = (\<lambda>this other eq qe. (getDataType other = getDataType this \<and> qe ! 0 ! 0) \<and> eq ! 0 ! 0),
      explainOf = (\<lambda>verbosity f cs. ''Cast to '' @ showDataType (getDataType f) @ '')''),
      serializeOf = (\<lambda>f cs. serializeWith ''CastToType'' f []),
      registerOf = (\<lambda>arguments. registerUnary (\<lambda>c. Inr (LogicalFunction CastToType (argDataType arguments) [] [c])) arguments)\<rparr>"

definition ConcatLogicalFunction :: FunctionClass where
  "ConcatLogicalFunction =
     \<lparr>NAME = ''Concat'',
      childrenOf = members,
      withChildrenOf = withJoinedChildren,
      inferOf = inferThen withJoinedChildren,
      equalsOf = commutativeMatch,
      explainOf = explainCall ''CONCAT'',
      serializeOf = serializeWith ''Concat'',
      registerOf = registerBinary (newJoined Concat)\<rparr>"

definition ConstantValueLogicalFunction :: FunctionClass where
  "ConstantValueLogicalFunction =
     \<lparr>NAME = ''ConstantValue'',
      childrenOf = members,
      withChildrenOf = (\<lambda>f children. Inr f),
      inferOf = (\<lambda>f inferred schema. Inr f),
      equalsOf = (\<lambda>this other eq qe. payload this = payload other),
      explainOf = (\<lambda>verbosity f cs.
        if verbosity = Debug then ''ConstantValueLogicalFunction('' @ payload f @ '' : '' @ showDataType (getDataType f) @ '')''
        else payload f),
      serializeOf = (\<lambda>f cs.
        SerializableFunction ''ConstantValue'' (serializeDataType (getDataType f))
          [(''constantValueAsString'', descriptorConfigTypeToProto (ConfigString (payload f)))] []),
      registerOf = (\<lambda>arguments.
        andThen (configString arguments ''constantValueAsString'') (\<lambda>s. Inr (LogicalFunction ConstantValue (argDataType arguments) s [])))\<rparr>"

section \<open>Fields\<close>

definition newFieldAccess :: "DataType \<Rightarrow> string \<Rightarrow> LogicalFunction" where
  "newFieldAccess dataType name = LogicalFunction FieldAccess dataType name []"

definition withFieldName :: "LogicalFunction \<Rightarrow> string \<Rightarrow> LogicalFunction" where
  "withFieldName f name = LogicalFunction (kindOf f) (getDataType f) name (members f)"

definition fieldAccessEquals :: "LogicalFunction \<Rightarrow> LogicalFunction \<Rightarrow> bool" where
  "fieldAccessEquals lhs rhs \<longleftrightarrow> payload rhs = payload lhs \<and> getDataType rhs = getDataType lhs"

definition inferFieldAccess :: "LogicalFunction \<Rightarrow> LogicalFunction result list \<Rightarrow> Schema \<Rightarrow> LogicalFunction result" where
  "inferFieldAccess f inferred schema =
     andThen (getFieldByName schema (payload f)) (\<lambda>existingField.
       case existingField of
         None \<Rightarrow> Inl CannotInferSchema
       | Some field \<Rightarrow> Inr (withFieldName (withDataType f (fieldType field)) (fieldName field)))"

definition FieldAccessLogicalFunction :: FunctionClass where
  "FieldAccessLogicalFunction =
     \<lparr>NAME = ''FieldAccess'',
      childrenOf = members,
      withChildrenOf = (\<lambda>f children. Inr f),
      inferOf = inferFieldAccess,
      equalsOf = (\<lambda>this other eq qe. fieldAccessEquals this other),
      explainOf = (\<lambda>verbosity f cs.
        if verbosity = Debug then ''FieldAccessLogicalFunction('' @ payload f @ showDataType (getDataType f) @ '')'' else payload f),
      serializeOf = (\<lambda>f cs.
        SerializableFunction ''FieldAccess'' (serializeDataType (getDataType f))
          [(''FieldName'', descriptorConfigTypeToProto (ConfigString (payload f)))] []),
      registerOf = (\<lambda>arguments.
        andThen (configString arguments ''FieldName'') (\<lambda>name.
        andThen (PRECONDITION (name \<noteq> [])) (\<lambda>_. Inr (newFieldAccess (argDataType arguments) name))))\<rparr>"

text \<open>The members of a field assignment are the field access and the assigned function.\<close>

definition inferAssignedField :: "LogicalFunction \<Rightarrow> LogicalFunction \<Rightarrow> Schema \<Rightarrow> LogicalFunction result" where
  "inferAssignedField fieldAccess assignment schema =
     andThen (getFieldByName schema (payload fieldAccess)) (\<lambda>existingField.
       case existingField of
         Some field \<Rightarrow>
           andThen (join (getDataType assignment) (getDataType fieldAccess)) (\<lambda>t.
             case t of
               Some t \<Rightarrow> Inr (withDataType (withFieldName fieldAccess (fieldName field)) t)
             | None \<Rightarrow> Inl TypeInferenceException)
       | None \<Rightarrow>
           if CHR ''$'' \<in> set (payload fieldAccess) then Inr (withFieldName fieldAccess (payload fieldAccess))
           else andThen (getQualifierNameForSystemGeneratedFieldsWithSeparator schema) (\<lambda>q.
             Inr (withFieldName fieldAccess (q @ payload fieldAccess))))"

definition inferFieldAssignment :: "LogicalFunction \<Rightarrow> LogicalFunction result list \<Rightarrow> Schema \<Rightarrow> LogicalFunction result" where
  "inferFieldAssignment f inferred schema =
     andThen (inferred ! 1) (\<lambda>assignment.
     andThen (inferAssignedField (members f ! 0) assignment schema) (\<lambda>fieldAccess.
       let fieldAccess =
             (if isType (getDataType fieldAccess) UNDEFINED then withDataType fieldAccess (getDataType assignment)
              else if getDataType assignment \<noteq> getDataType fieldAccess then withDataType fieldAccess (getDataType assignment)
              else fieldAccess)
       in Inr (withDataType (withMembers f [fieldAccess, assignment]) (getDataType assignment))))"

definition FieldAssignmentLogicalFunction :: FunctionClass where
  "FieldAssignmentLogicalFunction =
     \<lparr>NAME = ''FieldAssignment'',
      childrenOf = (\<lambda>f. []),
      withChildrenOf = (\<lambda>f children. Inr f),
      inferOf = inferFieldAssignment,
      equalsOf = (\<lambda>this other eq qe. fieldAccessEquals (members this ! 0) (members other ! 0) \<and> eq ! 1 ! 1),
      explainOf = (\<lambda>verbosity f cs.
        if verbosity = Debug then ''FieldAssignmentLogicalFunction('' @ cs ! 0 @ '' = '' @ cs ! 1 @ '')'' else cs ! 0 @ '' = '' @ cs ! 1),
      serializeOf = serializeWith ''FieldAssignment'',
      registerOf = (\<lambda>arguments.
        andThen (PRECONDITION (length (argChildren arguments) = 2)) (\<lambda>_.
        andThen (PRECONDITION (kindOf (argChildren arguments ! 0) = FieldAccess)) (\<lambda>_.
          Inr (LogicalFunction FieldAssignment (getDataType (argChildren arguments ! 1)) []
                [argChildren arguments ! 0, argChildren arguments ! 1]))))\<rparr>"

text \<open>\<open>fieldName.substr(0, fieldName.find_last_of(ATTRIBUTE_NAME_SEPARATOR) + 1)\<close>, empty without a separator.\<close>

definition qualifierOf :: "string \<Rightarrow> string" where
  "qualifierOf name = rev (dropWhile (\<lambda>c. c \<noteq> CHR ''$'') (rev name))"

definition inferRename :: "LogicalFunction \<Rightarrow> LogicalFunction result list \<Rightarrow> Schema \<Rightarrow> LogicalFunction result" where
  "inferRename f inferred schema =
     andThen (hd inferred) (\<lambda>child.
     andThen (getFieldByName schema (payload child)) (\<lambda>fieldAttribute.
       case fieldAttribute of
         None \<Rightarrow> Inl FieldNotFound
       | Some field \<Rightarrow>
           let newFieldName = payload f;
               name = (if CHR ''$'' \<notin> set newFieldName then qualifierOf (payload child) @ newFieldName else payload child);
               copy = withFieldName (withDataType f (fieldType field)) name
           in if name = newFieldName then Inr copy
              else andThen (getFieldByName schema newFieldName) (\<lambda>newFieldAttribute.
                case newFieldAttribute of Some _ \<Rightarrow> Inl FieldAlreadyExists | None \<Rightarrow> Inr copy)))"

definition RenameLogicalFunction :: FunctionClass where
  "RenameLogicalFunction =
     \<lparr>NAME = ''Rename'',
      childrenOf = members,
      withChildrenOf = (\<lambda>f children.
        case children of
          [] \<Rightarrow> Inl UndefinedBehaviour
        | c # _ \<Rightarrow> if kindOf c = FieldAccess then Inr (withMembers f [c]) else Inl InvalidDynamicCast),
      inferOf = inferRename,
      equalsOf = (\<lambda>this other eq qe. fieldAccessEquals (members other ! 0) (members this ! 0) \<and> payload this = payload other),
      explainOf = (\<lambda>verbosity f cs.
        if verbosity = Debug then ''FieldRenameFunction('' @ cs ! 0 @ '' => '' @ payload f @ '' : '' @ showDataType (getDataType f) @ '')''
        else ''FieldRename('' @ cs ! 0 @ '' => '' @ payload f @ '')''),
      serializeOf = (\<lambda>f cs.
        SerializableFunction ''Rename'' (serializeDataType (getDataType f))
          [(''NewFieldName'', descriptorConfigTypeToProto (ConfigString (payload f)))] cs),
      registerOf = (\<lambda>arguments.
        andThen (PRECONDITION (argConfig arguments ''NewFieldName'' \<noteq> None)) (\<lambda>_.
        andThen (PRECONDITION (length (argChildren arguments) = 1)) (\<lambda>_.
        andThen (PRECONDITION (kindOf (hd (argChildren arguments)) = FieldAccess)) (\<lambda>_.
        andThen (configString arguments ''NewFieldName'') (\<lambda>newFieldName.
        andThen (PRECONDITION (newFieldName \<noteq> [])) (\<lambda>_.
          Inr (LogicalFunction Rename (getDataType (hd (argChildren arguments))) newFieldName [hd (argChildren arguments)])))))))\<rparr>"

section \<open>Dispatch\<close>

fun vtable :: "FunctionKind \<Rightarrow> FunctionClass" where
  "vtable Absolute = AbsoluteLogicalFunction"
| "vtable Add = AddLogicalFunction"
| "vtable Ceil = CeilLogicalFunction"
| "vtable Div = DivLogicalFunction"
| "vtable Exp = ExpLogicalFunction"
| "vtable Floor = FloorLogicalFunction"
| "vtable Mod = ModuloLogicalFunction"
| "vtable Mul = MulLogicalFunction"
| "vtable Pow = PowLogicalFunction"
| "vtable Round = RoundLogicalFunction"
| "vtable Sqrt = SqrtLogicalFunction"
| "vtable Sub = SubLogicalFunction"
| "vtable And = AndLogicalFunction"
| "vtable Equals = EqualsLogicalFunction"
| "vtable Negate = NegateLogicalFunction"
| "vtable Or = OrLogicalFunction"
| "vtable Greater = GreaterLogicalFunction"
| "vtable GreaterEquals = GreaterEqualsLogicalFunction"
| "vtable Less = LessLogicalFunction"
| "vtable LessEquals = LessEqualsLogicalFunction"
| "vtable CastToType = CastToTypeLogicalFunction"
| "vtable Concat = ConcatLogicalFunction"
| "vtable ConstantValue = ConstantValueLogicalFunction"
| "vtable FieldAccess = FieldAccessLogicalFunction"
| "vtable FieldAssignment = FieldAssignmentLogicalFunction"
| "vtable Rename = RenameLogicalFunction"

definition functionKinds :: "FunctionKind list" where
  "functionKinds =
     [Absolute, Add, Ceil, Div, Exp, Floor, Mod, Mul, Pow, Round, Sqrt, Sub, And,
      Equals, Negate, Or, Greater, GreaterEquals, Less, LessEquals, CastToType, Concat, ConstantValue, FieldAccess, FieldAssignment, Rename]"

definition getType :: "LogicalFunction \<Rightarrow> string" where
  "getType f = NAME (vtable (kindOf f))"

definition getChildren :: "LogicalFunction \<Rightarrow> LogicalFunction list" where
  "getChildren f = childrenOf (vtable (kindOf f)) f"

definition withChildren :: "LogicalFunction \<Rightarrow> LogicalFunction list \<Rightarrow> LogicalFunction result" where
  "withChildren f children = withChildrenOf (vtable (kindOf f)) f children"

fun withInferredDataType :: "LogicalFunction \<Rightarrow> Schema \<Rightarrow> LogicalFunction result" where
  "withInferredDataType (LogicalFunction k t p ms) schema =
     inferOf (vtable k) (LogicalFunction k t p ms) (map (\<lambda>m. withInferredDataType m schema) ms) schema"

function lf_equals :: "LogicalFunction \<Rightarrow> LogicalFunction \<Rightarrow> bool" where
  "lf_equals this other =
     (kindOf this = kindOf other \<and>
      equalsOf (vtable (kindOf this)) this other
        (map (\<lambda>m. map (\<lambda>n. lf_equals m n) (members other)) (members this))
        (map (\<lambda>m. map (\<lambda>n. lf_equals n m) (members other)) (members this)))"
  by pat_completeness auto

lemma size_member: "m \<in> set (members f) \<Longrightarrow> size m < size f"
  by (cases f) (auto simp: less_Suc_eq_le dest: size_list_estimation' [of _ _ "size m" size])

termination lf_equals
  by (relation "measure (\<lambda>(this, other). size this + size other)") (auto dest!: size_member)

declare lf_equals.simps [simp del]

fun explain :: "ExplainVerbosity \<Rightarrow> LogicalFunction \<Rightarrow> string" where
  "explain verbosity (LogicalFunction k t p ms) =
     explainOf (vtable k) verbosity (LogicalFunction k t p ms) (map (explain verbosity) ms)"

fun serialize :: "LogicalFunction \<Rightarrow> SerializableFunction" where
  "serialize (LogicalFunction k t p ms) = serializeOf (vtable k) (LogicalFunction k t p ms) (map serialize ms)"

definition logicalFunctionRegistry :: "(LogicalFunctionRegistryArguments \<Rightarrow> LogicalFunction result) registry result" where
  "logicalFunctionRegistry = registerAll (map (\<lambda>k. (NAME (vtable k), registerOf (vtable k))) functionKinds) Map.empty"

definition registry_createFunction :: "string \<Rightarrow> LogicalFunctionRegistryArguments \<Rightarrow> LogicalFunction option result" where
  "registry_createFunction name arguments = andThen logicalFunctionRegistry (\<lambda>r. registry_create r name arguments)"

fun deserializeFunction :: "SerializableFunction \<Rightarrow> LogicalFunction result" where
  "deserializeFunction (SerializableFunction functionType dataType cfg cs) =
     andThen (sequence (map deserializeFunction cs)) (\<lambda>deserializedChildren.
     andThen (deserializeDataType dataType) (\<lambda>t.
     andThen (configFromProto cfg) (\<lambda>functionDescriptorConfig.
     andThen (registry_createFunction functionType
        \<lparr>argConfig = functionDescriptorConfig, argChildren = deserializedChildren, argDataType = t\<rparr>) (\<lambda>function.
       case function of Some f \<Rightarrow> Inr f | None \<Rightarrow> Inl CannotDeserialize))))"

definition tryProvide :: "string \<Rightarrow> LogicalFunction list \<Rightarrow> LogicalFunction option result" where
  "tryProvide name arguments =
     registry_createFunction name \<lparr>argConfig = Map.empty, argChildren = arguments, argDataType = UNDEFINED\<rparr>"

definition provide :: "string \<Rightarrow> LogicalFunction list \<Rightarrow> LogicalFunction result" where
  "provide name arguments =
     andThen (tryProvide name arguments) (\<lambda>f. case f of Some f \<Rightarrow> Inr f | None \<Rightarrow> Inl FunctionNotImplemented)"

end
