(* ===== verification/Expressions.thy ===== *)
theory Expressions
  imports LogicalFunctions
begin

text \<open>
  Properties of the logical functions: lookup in the registry, type inference, equality and the serialised form.

  \<open>well_formed\<close> is what the C++ classes guarantee by their members: the number of function members of each class,
  which of them are field accesses, and which classes have a string member.
\<close>

section \<open>Well-formed functions\<close>

definition unaryKinds :: "FunctionKind list" where
  "unaryKinds = [Absolute, Ceil, Exp, Floor, Round, Sqrt]"

definition joinedKinds :: "FunctionKind list" where
  "joinedKinds = [Add, Div, Mod, Mul, Pow, Sub, Concat]"

definition booleanKinds :: "FunctionKind list" where
  "booleanKinds = [And, Equals, Or, Greater, GreaterEquals, Less, LessEquals]"

definition arity :: "FunctionKind \<Rightarrow> nat" where
  "arity k =
     (if k \<in> set unaryKinds \<or> k \<in> {Negate, CastToType, Rename} then 1
      else if k \<in> {ConstantValue, FieldAccess} then 0 else 2)"

fun well_formed :: "LogicalFunction \<Rightarrow> bool" where
  "well_formed (LogicalFunction k t p ms) \<longleftrightarrow>
     length ms = arity k
     \<and> (if k \<in> {FieldAssignment, Rename} then kindOf (ms ! 0) = FieldAccess else True)
     \<and> (if k \<in> {FieldAccess, Rename, ConstantValue} then True else p = [])
     \<and> list_all well_formed ms"

lemmas class_defs = AbsoluteLogicalFunction_def AddLogicalFunction_def CeilLogicalFunction_def DivLogicalFunction_def
  ExpLogicalFunction_def FloorLogicalFunction_def ModuloLogicalFunction_def MulLogicalFunction_def PowLogicalFunction_def
  RoundLogicalFunction_def SqrtLogicalFunction_def SubLogicalFunction_def AndLogicalFunction_def EqualsLogicalFunction_def
  NegateLogicalFunction_def OrLogicalFunction_def GreaterLogicalFunction_def GreaterEqualsLogicalFunction_def
  LessLogicalFunction_def LessEqualsLogicalFunction_def CastToTypeLogicalFunction_def ConcatLogicalFunction_def
  ConstantValueLogicalFunction_def FieldAccessLogicalFunction_def FieldAssignmentLogicalFunction_def RenameLogicalFunction_def

lemmas kinds_defs = unaryKinds_def joinedKinds_def booleanKinds_def

lemma kind_cases:
  obtains "k \<in> set unaryKinds" | "k \<in> set joinedKinds" | "k \<in> set booleanKinds" | "k = Negate" | "k = CastToType"
    | "k = ConstantValue" | "k = FieldAccess" | "k = FieldAssignment" | "k = Rename"
  by (cases k) (simp_all add: kinds_defs)

lemma arity_simps [simp]:
  "k \<in> set unaryKinds \<Longrightarrow> arity k = 1" "k \<in> set joinedKinds \<Longrightarrow> arity k = 2" "k \<in> set booleanKinds \<Longrightarrow> arity k = 2"
  "arity Negate = 1" "arity CastToType = 1" "arity Rename = 1" "arity ConstantValue = 0" "arity FieldAccess = 0"
  "arity FieldAssignment = 2"
  by (auto simp: arity_def kinds_defs)

lemma length_2: "length xs = 2 \<Longrightarrow> \<exists>a b. xs = [a, b]"
  by (cases xs; cases "tl xs") auto

lemma length_1: "length xs = 1 \<Longrightarrow> \<exists>a. xs = [a]"
  by (cases xs) auto

text \<open>The methods the classes of a group share.\<close>

lemma unary_class:
  assumes "k \<in> set unaryKinds"
  shows "inferOf (vtable k) = inferThen withOneChild" "equalsOf (vtable k) = childMatch"
    "serializeOf (vtable k) = serializeWith (NAME (vtable k))"
    "registerOf (vtable k) = registerUnary (\<lambda>c. Inr (LogicalFunction k (getDataType c) [] [c]))"
  using assms by (auto simp: kinds_defs class_defs)

lemma joined_class:
  assumes "k \<in> set joinedKinds"
  shows "inferOf (vtable k) \<in> {inferThen withTwoJoinedChildren, inferThen withJoinedChildren}"
    "serializeOf (vtable k) = serializeWith (NAME (vtable k))"
    "registerOf (vtable k) = registerBinary (if k = Div then \<lambda>l r. Inr (LogicalFunction Div (getDataType l) [] [l, r]) else newJoined k)"
  using assms by (auto simp: kinds_defs class_defs)

lemma boolean_class:
  assumes "k \<in> set booleanKinds"
  shows "inferOf (vtable k) \<in> {inferThen withTwoChildren, inferAnd, inferOr}"
    "k \<notin> {And, Or} \<Longrightarrow> inferOf (vtable k) = inferThen withTwoChildren"
    "serializeOf (vtable k) = (\<lambda>f cs. serializeWith (NAME (vtable k)) f (if k = And then [cs ! 1, cs ! 0] else cs))"
    "registerOf (vtable k) = registerBinary (\<lambda>l r. newBoolean k [l, r])"
  using assms by (auto simp: kinds_defs class_defs)

lemma sequence_Inr: "sequence rs = Inr xs \<longleftrightarrow> list_all2 (\<lambda>r x. r = Inr x) rs xs"
proof (induction rs arbitrary: xs)
  case (Cons r rs)
  then show ?case by (cases xs) (auto simp: andThen_eq_Inr)
qed auto

lemma joinOrUndefined_total: "\<exists>t. joinOrUndefined a b = Inr t"
  using join_total [of a b] by (auto simp: joinOrUndefined_def)

lemma sequence_two:
  "sequence rs = Inr xs \<Longrightarrow> length rs = 2 \<Longrightarrow> \<exists>x y. xs = [x, y] \<and> rs = [Inr x, Inr y]"
  by (auto simp: sequence_Inr list_all2_Cons1 dest!: length_2)

lemma sequence_one: "sequence rs = Inr xs \<Longrightarrow> length rs = 1 \<Longrightarrow> \<exists>x. xs = [x] \<and> rs = [Inr x]"
  using length_1 [of rs] by (auto simp: sequence_Inr list_all2_Cons1)

section \<open>Lookup by name\<close>

lemma names_ascii: "list_all (\<lambda>k. isAsciiString (NAME (vtable k))) functionKinds"
  by code_simp

lemma names_distinct: "distinct (map (\<lambda>k. map toupper (NAME (vtable k))) functionKinds)"
  by code_simp

lemma in_functionKinds: "k \<in> set functionKinds"
  by (cases k) (simp_all add: functionKinds_def)

lemma registry_lookup:
  obtains r where "logicalFunctionRegistry = Inr r"
    "\<And>k. r (map toupper (NAME (vtable k))) = Some (registerOf (vtable k))"
    "\<And>n. (\<And>k. n \<noteq> map toupper (NAME (vtable k))) \<Longrightarrow> r n = None"
proof -
  let ?entries = "map (\<lambda>k. (NAME (vtable k), registerOf (vtable k))) functionKinds"
  obtain r where r: "logicalFunctionRegistry = Inr r"
    "\<And>n. r n = map_of (map (\<lambda>(k, f). (map toupper k, f)) ?entries) n"
    using registerAll_lookup [of ?entries Map.empty] names_ascii
    by (auto simp: logicalFunctionRegistry_def list.pred_map comp_def)
  have "r (map toupper (NAME (vtable k))) = Some (registerOf (vtable k))" for k
    unfolding r(2) using names_distinct in_functionKinds [of k] by (intro map_of_is_SomeI) (auto simp: comp_def)
  moreover have "r n = None" if "\<And>k. n \<noteq> map toupper (NAME (vtable k))" for n
    unfolding r(2) using that by (force simp: map_of_eq_None_iff)
  ultimately show thesis using that r(1) by blast
qed

lemma create_registered:
  assumes "isAsciiString n" "map toupper n = map toupper (NAME (vtable k))"
  shows "registry_createFunction n args = andThen (registerOf (vtable k) args) (\<lambda>f. Inr (Some f))"
proof -
  obtain r where r: "logicalFunctionRegistry = Inr r" "r (map toupper (NAME (vtable k))) = Some (registerOf (vtable k))"
    using registry_lookup by metis
  show ?thesis using assms r(2)
    by (simp add: r(1) registry_createFunction_def registry_create_def toUpperCase_def PRECONDITION_def)
qed

lemma create_unregistered:
  assumes "isAsciiString n" "\<And>k. map toupper n \<noteq> map toupper (NAME (vtable k))"
  shows "registry_createFunction n args = Inr None"
proof -
  obtain r where r: "logicalFunctionRegistry = Inr r" "r (map toupper n) = None"
    using registry_lookup assms(2) by metis
  show ?thesis using assms(1) r(2)
    by (simp add: r(1) registry_createFunction_def registry_create_def toUpperCase_def PRECONDITION_def)
qed

lemma create_by_name [simp]:
  "registry_createFunction (NAME (vtable k)) args = andThen (registerOf (vtable k) args) (\<lambda>f. Inr (Some f))"
  using create_registered names_ascii in_functionKinds [of k] by (simp add: list_all_iff)

section \<open>Equality\<close>

lemma binary_equals:
  assumes "k \<in> set joinedKinds \<union> set booleanKinds" "eq ! 0 ! 0" "eq ! 1 ! 1"
  shows "equalsOf (vtable k) f g eq qe"
  using assms by (auto simp: kinds_defs class_defs simpleMatch_def commutativeMatch_def)

lemma lf_equals_simps:
  "lf_equals (LogicalFunction k t p ms) (LogicalFunction k' t' p' ms') \<longleftrightarrow>
     k = k' \<and> equalsOf (vtable k) (LogicalFunction k t p ms) (LogicalFunction k' t' p' ms')
        (map (\<lambda>m. map (lf_equals m) ms') ms) (map (\<lambda>m. map (\<lambda>n. lf_equals n m) ms') ms)"
  by (subst lf_equals.simps) simp

lemma lf_equals_kind: "lf_equals f g \<Longrightarrow> kindOf f = kindOf g"
  by (simp add: lf_equals.simps [of f g])

lemma lf_equals_FieldAccess: "lf_equals f g \<Longrightarrow> kindOf f = FieldAccess \<Longrightarrow> payload g = payload f \<and> getDataType g = getDataType f"
  by (simp add: lf_equals.simps [of f g] FieldAccessLogicalFunction_def fieldAccessEquals_def)

lemma lf_equals_node:
  assumes "length ms = arity k" "list_all2 lf_equals ms ms'" "k = FieldAccess \<Longrightarrow> t' = t"
    "k = CastToType \<Longrightarrow> t' = t \<and> list_all2 lf_equals ms' ms"
    "k \<in> {FieldAssignment, Rename} \<Longrightarrow> kindOf (ms ! 0) = FieldAccess"
  shows "lf_equals (LogicalFunction k t p ms) (LogicalFunction k t' p ms')"
proof -
  have len: "length ms' = arity k" using assms(1,2) by (simp add: list_all2_lengthD)
  have eqs: "i < arity k \<Longrightarrow> lf_equals (ms ! i) (ms' ! i)" for i using assms(1,2) by (simp add: list_all2_nthD)
  have field: "payload (ms' ! 0) = payload (ms ! 0) \<and> getDataType (ms' ! 0) = getDataType (ms ! 0)"
    if "k \<in> {FieldAssignment, Rename}"
    using lf_equals_FieldAccess [OF eqs [of 0]] assms(5) that by (auto simp: arity_def)
  show ?thesis
    apply (subst lf_equals.simps, simp)
    using assms len eqs field
    by (cases k rule: kind_cases)
      (auto intro!: binary_equals simp: unary_class childMatch_def class_defs fieldAccessEquals_def list_all2_nthD)
qed

lemma lf_equals_swapped_And:
  assumes "lf_equals a a'" "lf_equals b b'"
  shows "lf_equals (LogicalFunction And t p [a, b]) (LogicalFunction And t' p' [b', a'])"
  using assms by (subst lf_equals.simps) (simp add: AndLogicalFunction_def commutativeMatch_def)



section \<open>The serialised form\<close>

fun serialisable :: "LogicalFunction \<Rightarrow> bool" where
  "serialisable (LogicalFunction k t p ms) \<longleftrightarrow>
     k \<noteq> CastToType
     \<and> (if k = FieldAccess then p \<noteq> [] \<and> t \<noteq> VARSIZED_POINTER_REP else if k = Rename then p \<noteq> [] else True)
     \<and> list_all serialisable ms"

lemma deserializeDataType_total: "\<exists>t'. deserializeDataType (serializeDataType t) = Inr t'"
  using serializeDataType_roundtrip [of t] pointer_rep_not_serialised by (cases "t = VARSIZED_POINTER_REP") auto

lemma deserialize_named:
  assumes "sequence (map deserializeFunction cs) = Inr ms" "deserializeDataType d = Inr t" "configFromProto cfg = Inr c"
  shows "deserializeFunction (SerializableFunction (NAME (vtable k)) d cfg cs) =
     registerOf (vtable k) \<lparr>argConfig = c, argChildren = ms, argDataType = t\<rparr>"
  using assms by (cases "registerOf (vtable k) \<lparr>argConfig = c, argChildren = ms, argDataType = t\<rparr>") simp_all

lemmas register_simps = registerUnary_def registerBinary_def newJoined_def newBoolean_def PRECONDITION_def configString_def
  getString_def newFieldAccess_def

lemma register_node:
  assumes "length ms = arity k" "k \<noteq> CastToType" "k \<in> {FieldAccess, Rename} \<Longrightarrow> p \<noteq> []"
    "k \<notin> {FieldAccess, Rename, ConstantValue} \<Longrightarrow> p = []" "k \<in> {FieldAssignment, Rename} \<Longrightarrow> kindOf (ms ! 0) = FieldAccess"
    "k = ConstantValue \<Longrightarrow> c ''constantValueAsString'' = Some (ConfigString p)"
    "k = FieldAccess \<Longrightarrow> c ''FieldName'' = Some (ConfigString p)"
    "k = Rename \<Longrightarrow> c ''NewFieldName'' = Some (ConfigString p)"
  shows "\<exists>t'. registerOf (vtable k) \<lparr>argConfig = c, argChildren = ms, argDataType = t\<rparr> = Inr (LogicalFunction k t' p ms)
    \<and> (k = FieldAccess \<longrightarrow> t' = t)"
proof (cases "arity k = 2")
  case True
  then obtain a b where ms: "ms = [a, b]" using assms(1) length_2 [of ms] by auto
  obtain j where "joinOrUndefined (getDataType a) (getDataType b) = Inr j" using joinOrUndefined_total by blast
  then show ?thesis using assms True ms
    by (cases k rule: kind_cases)
      (auto simp: joined_class boolean_class register_simps FieldAssignmentLogicalFunction_def kinds_defs)
next
  case False
  then have "ms = [] \<or> (\<exists>a. ms = [a])" using assms(1) length_1 [of ms] by (auto simp: arity_def split: if_splits)
  then show ?thesis using assms False
    by (cases k rule: kind_cases)
      (auto simp: unary_class register_simps NegateLogicalFunction_def ConstantValueLogicalFunction_def
        FieldAccessLogicalFunction_def RenameLogicalFunction_def kinds_defs)
qed

lemma serialize_node:
  assumes "length ms = arity k" "k \<noteq> CastToType"
  obtains cfg where
    "serialize (LogicalFunction k t p ms) =
       SerializableFunction (NAME (vtable k)) (serializeDataType t) (map (\<lambda>(k, v). (k, descriptorConfigTypeToProto v)) cfg)
         (map serialize (if k = And then rev ms else ms))"
    "k = ConstantValue \<Longrightarrow> cfg = [(''constantValueAsString'', ConfigString p)]"
    "k = FieldAccess \<Longrightarrow> cfg = [(''FieldName'', ConfigString p)]"
    "k = Rename \<Longrightarrow> cfg = [(''NewFieldName'', ConfigString p)]"
proof (cases k rule: kind_cases)
  case 3
  then obtain a b where "ms = [a, b]" using assms(1) length_2 [of ms] by auto
  with 3 show thesis using that [of "[]"] by (auto simp: boolean_class serializeWith_def kinds_defs)
next
  case 6
  then show thesis using assms that [of "[(''constantValueAsString'', ConfigString p)]"] by (simp add: class_defs)
next
  case 7
  then show thesis using assms that [of "[(''FieldName'', ConfigString p)]"] by (simp add: class_defs)
next
  case 9
  then show thesis using assms that [of "[(''NewFieldName'', ConfigString p)]"] by (simp add: class_defs)
qed (use assms that [of "[]"] in \<open>auto simp: class_defs kinds_defs serializeWith_def\<close>)

lemma roundtrip_node:
  assumes wf: "well_formed (LogicalFunction k t p ms)" "serialisable (LogicalFunction k t p ms)"
    and ms': "list_all2 (\<lambda>m m'. deserializeFunction (serialize m) = Inr m' \<and> lf_equals m m') ms ms'"
  shows "\<exists>f'. deserializeFunction (serialize (LogicalFunction k t p ms)) = Inr f' \<and> lf_equals (LogicalFunction k t p ms) f'"
proof -
  have len: "length ms = arity k" "length ms' = arity k" "k \<noteq> CastToType"
    using wf ms' by (auto simp: list_all2_lengthD)
  let ?ms = "if k = And then rev ms else ms" and ?ms' = "if k = And then rev ms' else ms'"
  have "list_all2 (\<lambda>m m'. deserializeFunction (serialize m) = Inr m') ?ms ?ms'"
    using ms' by (auto elim: list_all2_mono)
  then have seq: "sequence (map deserializeFunction (map serialize ?ms)) = Inr ?ms'"
    by (simp add: sequence_Inr list.rel_map del: list.map)
  have kind: "kindOf (?ms' ! 0) = FieldAccess" if "k \<in> {FieldAssignment, Rename}"
    using that wf ms' len list_all2_nthD [OF ms', of 0] lf_equals_kind [of "ms ! 0" "ms' ! 0"] by (auto simp: arity_def)
  obtain cfg where ser: "serialize (LogicalFunction k t p ms) = SerializableFunction (NAME (vtable k)) (serializeDataType t)
      (map (\<lambda>(k, v). (k, descriptorConfigTypeToProto v)) cfg) (map serialize ?ms)"
    and cfg: "k = ConstantValue \<Longrightarrow> cfg = [(''constantValueAsString'', ConfigString p)]"
    "k = FieldAccess \<Longrightarrow> cfg = [(''FieldName'', ConfigString p)]" "k = Rename \<Longrightarrow> cfg = [(''NewFieldName'', ConfigString p)]"
    by (rule serialize_node [OF len(1,3), of t p]) (rule that; simp)
  obtain td where td: "deserializeDataType (serializeDataType t) = Inr td" using deserializeDataType_total by blast
  have "\<exists>t'. registerOf (vtable k) \<lparr>argConfig = map_of cfg, argChildren = ?ms', argDataType = td\<rparr> = Inr (LogicalFunction k t' p ?ms')
      \<and> (k = FieldAccess \<longrightarrow> t' = td)"
    by (rule register_node) (use wf len kind cfg in \<open>auto split: if_splits\<close>)
  then obtain t' where t': "deserializeFunction (serialize (LogicalFunction k t p ms)) = Inr (LogicalFunction k t' p ?ms')"
      "k = FieldAccess \<Longrightarrow> t' = td"
    unfolding ser deserialize_named [OF seq td configFromProto_map] by blast
  have "k = FieldAccess \<Longrightarrow> td = t" using wf(2) serializeDataType_roundtrip [of t] td by auto
  then have t: "k = FieldAccess \<Longrightarrow> t' = t" using t'(2) by simp
  have eq: "list_all2 lf_equals ms ms'" using ms' by (auto elim: list_all2_mono)
  have "lf_equals (LogicalFunction k t p ms) (LogicalFunction k t' p ?ms')"
  proof (cases "k = And")
    case True
    then obtain a b where "ms = [a, b]" using len(1) length_2 [of ms] by (auto simp: arity_def kinds_defs)
    then show ?thesis using True eq by (auto simp: list_all2_Cons1 intro: lf_equals_swapped_And)
  next
    case False
    have "lf_equals (LogicalFunction k t p ms) (LogicalFunction k t' p ms')"
      by (rule lf_equals_node [OF len(1) eq]) (use wf(1) len(3) t in \<open>auto split: if_splits\<close>)
    with False show ?thesis by simp
  qed
  with t'(1) show ?thesis by blast
qed





section \<open>Type inference\<close>

fun typed :: "Schema \<Rightarrow> LogicalFunction \<Rightarrow> bool" where
  "typed schema (LogicalFunction k t p ms) \<longleftrightarrow>
     (if k = FieldAccess then \<lparr>fieldName = p, fieldType = t\<rparr> \<in> set (schemaFields schema)
      else if k \<in> set joinedKinds
        then joinOrUndefined (getDataType (ms ! 0)) (getDataType (ms ! 1)) = Inr t \<and> list_all (typed schema) ms
      else if k = Negate then getDataType (ms ! 0) = BOOLEAN \<and> list_all (typed schema) ms
      else if k = FieldAssignment
        then getDataType (ms ! 0) = t \<and> getDataType (ms ! 1) = t \<and> list_all id (tl (map (typed schema) ms))
      else if k = Rename then list_ex (\<lambda>field. fieldType field = t) (schemaFields schema)
      else if k = CastToType then True
      else list_all (typed schema) ms)"

lemma infer_unary:
  assumes "inferThen withOneChild (LogicalFunction k t p ms) rs schema = Inr f'" "length rs = 1"
  shows "\<exists>a. rs = [Inr a] \<and> f' = LogicalFunction k t p [a]"
proof -
  obtain xs where "sequence rs = Inr xs" "withOneChild (LogicalFunction k t p ms) xs = Inr f'"
    using assms(1) by (auto simp: inferThen_def andThen_eq_Inr)
  then show ?thesis using sequence_one [of rs xs] assms(2) by (auto simp: withOneChild_def PRECONDITION_def withMembers_def)
qed

lemma infer_joined:
  assumes "g \<in> {inferThen withTwoJoinedChildren, inferThen withJoinedChildren}" "g (LogicalFunction k t p ms) rs schema = Inr f'"
    "length rs = 2"
  shows "\<exists>a b j. rs = [Inr a, Inr b] \<and> joinOrUndefined (getDataType a) (getDataType b) = Inr j \<and> f' = LogicalFunction k j p [a, b]"
proof -
  obtain xs where xs: "sequence rs = Inr xs" using assms(1,2) by (auto simp: inferThen_def andThen_eq_Inr)
  then obtain a b where ab: "xs = [a, b]" "rs = [Inr a, Inr b]" using sequence_two [OF xs assms(3)] by auto
  obtain j where "joinOrUndefined (getDataType a) (getDataType b) = Inr j" using joinOrUndefined_total by blast
  then show ?thesis using assms(1,2) ab
    by (auto simp: inferThen_def withTwoJoinedChildren_def withJoinedChildren_def PRECONDITION_def twoChildren_def
        withMembers_def withDataType_def)
qed

lemma infer_boolean:
  assumes "g \<in> {inferThen withTwoChildren, inferAnd, inferOr}" "g (LogicalFunction k t p ms) rs schema = Inr f'" "length rs = 2"
  shows "\<exists>a b. rs = [Inr a, Inr b] \<and> f' = LogicalFunction k t p [a, b]"
proof -
  obtain xs where xs: "sequence rs = Inr xs"
    using assms(1,2) by (auto simp: inferThen_def inferAnd_def inferOr_def andThen_eq_Inr)
  then obtain a b where "xs = [a, b]" "rs = [Inr a, Inr b]" using sequence_two [OF xs assms(3)] by auto
  then show ?thesis using assms(1,2)
    by (auto simp: inferThen_def inferAnd_def inferOr_def withTwoChildren_def PRECONDITION_def INVARIANT_def twoChildren_def
        withMembers_def split: if_splits)
qed

lemma getFieldByName_member: "index_sound s \<Longrightarrow> getFieldByName s n = Inr (Some f) \<Longrightarrow> f \<in> set (schemaFields s)"
  by (auto simp: getFieldByName_def index_sound_def Let_def suffixMatches_filter split: option.splits if_splits)
    (metis filter_is_subset list.set_sel(1) subsetD)

lemma withDataType_same: "getDataType f = t \<Longrightarrow> withDataType f t = f"
  by (cases f) (auto simp: withDataType_def)

lemma infer_assignment:
  assumes "inferFieldAssignment (LogicalFunction k t p ms) rs schema = Inr f'"
    "kindOf (ms ! 0) = FieldAccess" "well_formed (ms ! 0)"
  shows "\<exists>a b. rs ! 1 = Inr b \<and> kindOf a = FieldAccess \<and> well_formed a \<and> getDataType a = getDataType b
     \<and> f' = LogicalFunction k (getDataType b) p [a, b]"
proof -
  obtain b fa where b: "rs ! 1 = Inr b" and fa: "inferAssignedField (ms ! 0) b schema = Inr fa"
    and f': "f' = withDataType (withMembers (LogicalFunction k t p ms) [withDataType fa (getDataType b), b]) (getDataType b)"
    using assms(1) by (auto simp: inferFieldAssignment_def andThen_eq_Inr Let_def withDataType_same split: if_splits)
  have "kindOf fa = FieldAccess" "members fa = []"
    using fa assms(2,3)
    by (cases "ms ! 0"; auto simp: inferAssignedField_def andThen_eq_Inr withDataType_def withFieldName_def
        split: option.splits if_splits)+
  then show ?thesis using b f' by (auto simp: withDataType_def withMembers_def)
qed

lemma infer_rename:
  assumes "inferRename (LogicalFunction k t p ms) rs schema = Inr f'" "index_sound schema"
  shows "\<exists>field p'. field \<in> set (schemaFields schema) \<and> f' = LogicalFunction k (fieldType field) p' ms"
proof -
  obtain c field where "getFieldByName schema (payload c) = Inr (Some field)" "\<exists>p'. f' = LogicalFunction k (fieldType field) p' ms"
    using assms(1)
    by (auto simp: inferRename_def andThen_eq_Inr Let_def withDataType_def withFieldName_def split: option.splits if_splits)
  then show ?thesis using getFieldByName_member [OF assms(2)] by blast
qed

lemma inference_node:
  assumes wf: "well_formed (LogicalFunction k t p ms)" and schema: "index_sound schema"
    and IH: "\<And>m m'. m \<in> set ms \<Longrightarrow> withInferredDataType m schema = Inr m' \<Longrightarrow> well_formed m' \<and> kindOf m' = kindOf m \<and> typed schema m'"
    and f': "withInferredDataType (LogicalFunction k t p ms) schema = Inr f'"
  shows "well_formed f' \<and> kindOf f' = k \<and> typed schema f'"
proof -
  let ?rs = "map (\<lambda>m. withInferredDataType m schema) ms"
  have len: "length ms = arity k" "length ?rs = arity k" using wf by auto
  have infer: "inferOf (vtable k) (LogicalFunction k t p ms) ?rs schema = Inr f'" using f' by simp
  have child: "well_formed m' \<and> typed schema m'" if "?rs ! i = Inr m'" "i < arity k" for i m'
    using IH [of "ms ! i" m'] that len by simp
  show ?thesis
  proof (cases k rule: kind_cases)
    case 1
    then show ?thesis using infer_unary [of k t p ms ?rs schema f'] infer len(2) wf child [of 0]
      by (auto simp: unary_class kinds_defs)
  next
    case 2
    then show ?thesis using infer_joined [OF joined_class(1) infer] len(2) wf child [of 0] child [of 1]
      by (auto simp: kinds_defs)
  next
    case 3
    then show ?thesis using infer_boolean [OF boolean_class(1) infer] len(2) wf child [of 0] child [of 1]
      by (auto simp: kinds_defs)
  next
    case 4
    then obtain m where m: "ms = [m]" using len(1) length_1 [of ms] by auto
    then show ?thesis using 4 infer wf IH [of m]
      by (auto simp: NegateLogicalFunction_def inferNegate_def andThen_eq_Inr withOneChild_def withMembers_def PRECONDITION_def
          isType_def kinds_defs split: if_splits)
  next
    case 5
    then show ?thesis using infer wf by (auto simp: CastToTypeLogicalFunction_def kinds_defs)
  next
    case 6
    then show ?thesis using infer wf by (auto simp: ConstantValueLogicalFunction_def kinds_defs)
  next
    case 7
    then show ?thesis using infer wf getFieldByName_member [OF schema]
      by (auto simp: FieldAccessLogicalFunction_def inferFieldAccess_def andThen_eq_Inr withDataType_def withFieldName_def
          split: option.splits)
  next
    case 8
    then have "kindOf (ms ! 0) = FieldAccess" "well_formed (ms ! 0)" using wf by (auto simp: list_all_length)
    then show ?thesis using 8 infer infer_assignment [of k t p ms ?rs schema f'] len child [of 1] wf
      by (auto simp: FieldAssignmentLogicalFunction_def kinds_defs)
  next
    case 9
    then show ?thesis using infer infer_rename [OF _ schema, of k t p ms ?rs f'] wf
      by (auto simp: RenameLogicalFunction_def kinds_defs list_ex_iff)
  qed
qed



section \<open>The type of an arithmetic expression\<close>

fun leaves :: "LogicalFunction \<Rightarrow> LogicalFunction list" where
  "leaves (LogicalFunction k t p ms) = (if ms = [] then [LogicalFunction k t p ms] else concat (map leaves ms))"

fun arithmetic :: "LogicalFunction \<Rightarrow> bool" where
  "arithmetic (LogicalFunction k t p ms) \<longleftrightarrow>
     k \<in> {FieldAccess, ConstantValue} \<and> ms = [] \<or> k \<in> {Add, Div, Mod, Mul, Pow, Sub} \<and> length ms = 2 \<and> list_all arithmetic ms"

definition inferredType :: "Schema \<Rightarrow> LogicalFunction \<Rightarrow> DataType result" where
  "inferredType schema f = andThen (withInferredDataType f schema) (\<lambda>f'. Inr (getDataType f'))"

lemma inferredType_binary:
  assumes "k \<in> {Add, Div, Mod, Mul, Pow, Sub}" "inferredType schema a = Inr s" "inferredType schema b = Inr t" "isNumeric s" "isNumeric t"
  shows "inferredType schema (LogicalFunction k u p [a, b]) = Inr (usualArithmeticConversion s t)"
proof -
  obtain a' b' where ab: "withInferredDataType a schema = Inr a'" "getDataType a' = s"
    "withInferredDataType b schema = Inr b'" "getDataType b' = t"
    using assms(2,3) by (auto simp: inferredType_def andThen_eq_Inr)
  have "joinOrUndefined s t = Inr (usualArithmeticConversion s t)"
    using join_numeric [OF assms(4,5)] by (simp add: joinOrUndefined_def)
  then show ?thesis using assms(1) ab
    by (auto simp: inferredType_def class_defs inferThen_def withTwoJoinedChildren_def withJoinedChildren_def PRECONDITION_def
        twoChildren_def withDataType_def)
qed

lemma inferredType_leaves:
  assumes "arithmetic f" "sequence (map (inferredType schema) (leaves f)) = Inr ts" "list_all isNumeric ts"
  shows "leaves f \<noteq> [] \<and> inferredType schema f = Inr (numeric_join.joinAll ts)"
  using assms
proof (induction f arbitrary: ts)
  case (LogicalFunction k t p ms)
  show ?case
  proof (cases "ms = []")
    case True
    then show ?thesis using LogicalFunction.prems by (auto simp: andThen_eq_Inr)
  next
    case False
    then obtain a b where ms: "ms = [a, b]" and k: "k \<in> {Add, Div, Mod, Mul, Pow, Sub}"
      using LogicalFunction.prems(1) length_2 [of ms] by auto
    obtain ts1 ts2 where ts: "ts = ts1 @ ts2" "sequence (map (inferredType schema) (leaves a)) = Inr ts1"
      "sequence (map (inferredType schema) (leaves b)) = Inr ts2"
      using LogicalFunction.prems(2) ms by (auto simp: sequence_Inr list_all2_append1)
    have num: "list_all isNumeric ts1" "list_all isNumeric ts2" using LogicalFunction.prems(3) ts(1) by auto
    have a: "leaves a \<noteq> []" "inferredType schema a = Inr (numeric_join.joinAll ts1)"
      using LogicalFunction.IH [of a ts1] LogicalFunction.prems(1) ms ts(2) num(1) by auto
    have b: "leaves b \<noteq> []" "inferredType schema b = Inr (numeric_join.joinAll ts2)"
      using LogicalFunction.IH [of b ts2] LogicalFunction.prems(1) ms ts(3) num(2) by auto
    have ne: "ts1 \<noteq> []" "ts2 \<noteq> []" using a(1) b(1) ts by (auto simp: sequence_Inr)
    have sub: "set ts1 \<subseteq> numericTypes" "set ts2 \<subseteq> numericTypes" using num by (auto simp: list_all_iff numericTypes_iff)
    have "isNumeric (numeric_join.joinAll ts1)" "isNumeric (numeric_join.joinAll ts2)"
      using numeric_join.joinAll_closed sub ne by (auto simp flip: numericTypes_iff)
    then have "inferredType schema (LogicalFunction k t p [a, b])
        = Inr (usualArithmeticConversion (numeric_join.joinAll ts1) (numeric_join.joinAll ts2))"
      by (rule inferredType_binary [OF k a(2) b(2)])
    also have "usualArithmeticConversion (numeric_join.joinAll ts1) (numeric_join.joinAll ts2) = numeric_join.joinAll ts"
      using numeric_join.joinAll_append sub ne ts(1) by simp
    finally show ?thesis using ms a(1) by simp
  qed
qed

text \<open>C20. The type of an arithmetic expression does not depend on its shape: two expressions built with \<open>+ - * / %\<close>
  and \<open>POW\<close> from the same fields and constants, in any order and any association, infer the same numeric type
  whenever all those leaves infer numeric types.\<close>

theorem arithmetic_type_order_free:
  assumes "arithmetic e" "arithmetic e'" "mset (leaves e) = mset (leaves e')"
    "\<forall>l \<in> set (leaves e). \<exists>t. inferredType schema l = Inr t \<and> isNumeric t"
  shows "\<exists>t. isNumeric t \<and> inferredType schema e = Inr t \<and> inferredType schema e' = Inr t"
proof -
  obtain g where g: "\<forall>l \<in> set (leaves e). inferredType schema l = Inr (g l) \<and> isNumeric (g l)" using assms(4) by metis
  have same: "set (leaves e) = set (leaves e')" using assms(3) by (rule mset_eq_setD)
  let ?ts = "map g (leaves e)" and ?ts' = "map g (leaves e')"
  have "sequence (map (inferredType schema) (leaves e)) = Inr ?ts" "sequence (map (inferredType schema) (leaves e')) = Inr ?ts'"
    "list_all isNumeric ?ts" "list_all isNumeric ?ts'"
    using g same by (auto simp: sequence_Inr list_all2_conv_all_nth list_all_iff)
  note types = inferredType_leaves [OF assms(1) this(1,3)] inferredType_leaves [OF assms(2) this(2,4)]
  have sub: "set ?ts \<subseteq> numericTypes" using g by (auto simp: numericTypes_iff)
  have "numeric_join.joinAll ?ts = numeric_join.joinAll ?ts'"
    using assms(3) sub by (intro numeric_join.joinAll_mset) auto
  moreover have "isNumeric (numeric_join.joinAll ?ts)"
    using numeric_join.joinAll_closed [OF sub] types(1) by (simp add: numericTypes_iff)
  ultimately show ?thesis using types by auto
qed

theorem arithmetic_type_order_free_witness:
  "\<exists>t. isNumeric t \<and>
     inferredType (newSchema ROW_LAYOUT) (LogicalFunction Add UNDEFINED [] [LogicalFunction ConstantValue INT8 ''1'' [], LogicalFunction ConstantValue UINT64 ''2'' []]) = Inr t \<and>
     inferredType (newSchema ROW_LAYOUT) (LogicalFunction Sub UNDEFINED [] [LogicalFunction ConstantValue UINT64 ''2'' [], LogicalFunction ConstantValue INT8 ''1'' []]) = Inr t"
  by (rule arithmetic_type_order_free)
    (auto simp: inferredType_def ConstantValueLogicalFunction_def type_defs)

section \<open>Inference is idempotent\<close>

fun stable :: "LogicalFunction \<Rightarrow> bool" where
  "stable (LogicalFunction k t p ms) \<longleftrightarrow> k \<notin> {And, Or, FieldAssignment, Rename} \<and> list_all stable ms"

lemma find_again: "find P xs = Some x \<Longrightarrow> (\<And>y. n y = n x \<Longrightarrow> P y) \<Longrightarrow> find (\<lambda>y. n y = n x) xs = Some x"
  by (induction xs) (auto split: if_splits)

lemma getFieldByName_again:
  assumes "index_complete s" "getFieldByName s n = Inr (Some f)"
  shows "getFieldByName s (fieldName f) = Inr (Some f)"
proof -
  have "find (\<lambda>g. fieldName g = n) (schemaFields s) = Some f \<and> fieldName f = n \<or> find (\<lambda>g. suffix n (fieldName g)) (schemaFields s) = Some f \<and> suffix n (fieldName f)"
    using assms getFieldByName_lookup [OF assms(1), of n] by (auto split: option.splits simp: find_Some_iff)
  then have "find (\<lambda>g. fieldName g = fieldName f) (schemaFields s) = Some f"
    by (elim disjE conjE) (erule find_again [where n = fieldName], simp)+
  then show ?thesis using getFieldByName_lookup [OF assms(1)] by simp
qed

lemma infer_again_node:
  assumes "stable (LogicalFunction k t p ms)" "well_formed (LogicalFunction k t p ms)" "index_complete schema"
    and IH: "\<And>m m'. m \<in> set ms \<Longrightarrow> withInferredDataType m schema = Inr m' \<Longrightarrow> withInferredDataType m' schema = Inr m'"
    and f': "withInferredDataType (LogicalFunction k t p ms) schema = Inr f'"
  shows "withInferredDataType f' schema = Inr f'"
proof -
  let ?rs = "map (\<lambda>m. withInferredDataType m schema) ms"
  have len: "length ms = arity k" "length ?rs = arity k" using assms(2) by auto
  have infer: "inferOf (vtable k) (LogicalFunction k t p ms) ?rs schema = Inr f'" using f' by simp
  have child: "withInferredDataType m' schema = Inr m'" if "?rs ! i = Inr m'" "i < arity k" for i m'
    using IH [of "ms ! i" m'] that len by simp
  show ?thesis
  proof (cases k rule: kind_cases)
    case 1
    then obtain a where "?rs = [Inr a]" "f' = LogicalFunction k t p [a]"
      using infer_unary [of k t p ms ?rs schema f'] infer len(2) by (auto simp: unary_class)
    then show ?thesis using 1 child [of 0 a]
      by (simp add: unary_class inferThen_def withOneChild_def PRECONDITION_def withMembers_def)
  next
    case 2
    then obtain a b j where "?rs = [Inr a, Inr b]" "joinOrUndefined (getDataType a) (getDataType b) = Inr j"
      "f' = LogicalFunction k j p [a, b]"
      using infer_joined [OF joined_class(1) infer] len(2) by auto
    then show ?thesis using 2 joined_class(1) [OF 2] child [of 0 a] child [of 1 b]
      by (auto simp: inferThen_def withTwoJoinedChildren_def withJoinedChildren_def PRECONDITION_def twoChildren_def
          withMembers_def withDataType_def)
  next
    case 3
    have k: "k \<notin> {And, Or}" using assms(1) by simp
    obtain a b where "?rs = [Inr a, Inr b]" "f' = LogicalFunction k t p [a, b]"
      using infer_boolean [OF boolean_class(1) infer] 3 len(2) by auto
    then show ?thesis using boolean_class(2) [OF 3 k] child [of 0 a] child [of 1 b] 3
      by (simp add: inferThen_def withTwoChildren_def PRECONDITION_def twoChildren_def withMembers_def)
  next
    case 4
    then obtain m where "ms = [m]" using len(1) length_1 [of ms] by auto
    then show ?thesis using 4 infer IH [of m]
      by (auto simp: NegateLogicalFunction_def inferNegate_def andThen_eq_Inr withOneChild_def withMembers_def PRECONDITION_def
          split: if_splits)
  next
    case 7
    then show ?thesis using infer getFieldByName_again [OF assms(3)]
      by (auto simp: FieldAccessLogicalFunction_def inferFieldAccess_def andThen_eq_Inr withDataType_def withFieldName_def
          split: option.splits)
  qed (use assms(1) infer in \<open>auto simp: CastToTypeLogicalFunction_def ConstantValueLogicalFunction_def\<close>)
qed



section \<open>What the code does not do\<close>

text \<open>The comparison of sums reads the right operand twice: \<open>a + b == b + b\<close> holds and \<open>b + b == a + b\<close> does not.\<close>

lemma add_equality_not_symmetric:
  "lf_equals (LogicalFunction Add INT32 [] [newFieldAccess INT32 ''a'', newFieldAccess INT32 ''b''])
     (LogicalFunction Add INT32 [] [newFieldAccess INT32 ''b'', newFieldAccess INT32 ''b''])
   \<and> \<not> lf_equals (LogicalFunction Add INT32 [] [newFieldAccess INT32 ''b'', newFieldAccess INT32 ''b''])
     (LogicalFunction Add INT32 [] [newFieldAccess INT32 ''a'', newFieldAccess INT32 ''b''])"
  by (simp add: lf_equals_simps AddLogicalFunction_def FieldAccessLogicalFunction_def newFieldAccess_def fieldAccessEquals_def)

text \<open>\<open>a > b == b > a\<close> holds, and so it does for \<open>>=\<close> and \<open><=\<close>, and for a power and a concatenation.\<close>

lemma order_comparison_commutes:
  "list_all (\<lambda>k. lf_equals (LogicalFunction k t [] [newFieldAccess INT32 ''a'', newFieldAccess INT32 ''b''])
     (LogicalFunction k t [] [newFieldAccess INT32 ''b'', newFieldAccess INT32 ''a''])) [Greater, GreaterEquals, LessEquals, Pow, Concat]"
  by (simp add: lf_equals_simps class_defs newFieldAccess_def fieldAccessEquals_def commutativeMatch_def)

text \<open>A conjunction of boolean fields fails the type check before its field types are inferred.\<close>

lemma and_checks_old_types:
  "let schema = addField (addField (newSchema ROW_LAYOUT) ''s$a'' BOOLEAN) ''s$b'' BOOLEAN
   in withInferredDataType (LogicalFunction And BOOLEAN [] [newFieldAccess UNDEFINED ''a'', newFieldAccess UNDEFINED ''b'']) schema
      = Inl InvariantViolated"
  by (simp add: newFieldAccess_def class_defs inferFieldAccess_def inferAnd_def getFieldByName_def addField_def
      newSchema_def index_emplace_def withDataType_def withFieldName_def isType_def INVARIANT_def)

text \<open>A unary function keeps the type it had when it was built, which is undefined for an unresolved field.\<close>

lemma absolute_type_not_inferred:
  "inferredType (addField (newSchema ROW_LAYOUT) ''s$a'' INT32) (LogicalFunction Absolute UNDEFINED [] [newFieldAccess UNDEFINED ''a''])
     = Inr UNDEFINED"
  by (simp add: inferredType_def newFieldAccess_def class_defs inferFieldAccess_def getFieldByName_def addField_def
      newSchema_def index_emplace_def withDataType_def withFieldName_def inferThen_def withOneChild_def PRECONDITION_def withMembers_def)

text \<open>A cast is serialised without its child, so no cast can be deserialised.\<close>

lemma cast_not_deserialisable: "deserializeFunction (serialize (LogicalFunction CastToType t [] [c])) = Inl PreconditionViolated"
proof -
  have ser: "serialize (LogicalFunction CastToType t [] [c]) = SerializableFunction (NAME (vtable CastToType)) (serializeDataType t) [] []"
    by (simp add: CastToTypeLogicalFunction_def serializeWith_def)
  obtain td where td: "deserializeDataType (serializeDataType t) = Inr td" using deserializeDataType_total by blast
  show ?thesis unfolding ser
    using deserialize_named [of "[]" "[]" "serializeDataType t" td "[]" Map.empty CastToType] td
    by (simp add: CastToTypeLogicalFunction_def registerUnary_def PRECONDITION_def del: deserializeFunction.simps)
qed

text \<open>Renaming a field to a qualified name leaves it with its old name.\<close>

lemma qualified_rename_ignored:
  "map_sum id payload (withInferredDataType (LogicalFunction Rename INT32 ''s$new'' [newFieldAccess INT32 ''s$old'']) (addField (newSchema ROW_LAYOUT) ''s$old'' INT32))
     = Inr ''s$old''"
  by (simp add: newFieldAccess_def class_defs inferFieldAccess_def inferRename_def getFieldByName_def addField_def
      newSchema_def index_emplace_def withDataType_def withFieldName_def Let_def)

text \<open>A division whose types were inferred changes its type when it is serialised and read back.\<close>

lemma div_type_lost:
  "let f = LogicalFunction Div INT64 [] [LogicalFunction ConstantValue INT32 ''1'' [], LogicalFunction ConstantValue INT64 ''2'' []]
   in withInferredDataType f s = Inr f \<and> map_sum id getDataType (deserializeFunction (serialize f)) = Inr INT32"
proof -
  let ?one = "LogicalFunction ConstantValue INT32 ''1'' []" and ?two = "LogicalFunction ConstantValue INT64 ''2'' []"
  have infer: "withInferredDataType (LogicalFunction Div INT64 [] [?one, ?two]) s = Inr (LogicalFunction Div INT64 [] [?one, ?two])"
    by (simp add: class_defs inferThen_def withTwoJoinedChildren_def PRECONDITION_def withJoinedChildren_def twoChildren_def
        joinOrUndefined_def join_def type_defs withDataType_def withMembers_def)
  have const: "deserializeFunction (serialize (LogicalFunction ConstantValue t v [])) = Inr (LogicalFunction ConstantValue t v [])"
    if t: "t \<noteq> VARSIZED_POINTER_REP" for t v
  proof -
    have "serialize (LogicalFunction ConstantValue t v []) = SerializableFunction (NAME (vtable ConstantValue)) (serializeDataType t)
        (map (\<lambda>(k, v). (k, descriptorConfigTypeToProto v)) [(''constantValueAsString'', ConfigString v)]) []"
      by (simp add: ConstantValueLogicalFunction_def)
    then show ?thesis
      using deserialize_named [OF _ serializeDataType_roundtrip [OF t] configFromProto_map [of "[(''constantValueAsString'', ConfigString v)]"],
          of "[]" "[]" ConstantValue]
      by (simp add: ConstantValueLogicalFunction_def register_simps del: deserializeFunction.simps)
  qed
  have ser: "serialize (LogicalFunction Div INT64 [] [?one, ?two]) =
      SerializableFunction (NAME (vtable Div)) (serializeDataType INT64) [] [serialize ?one, serialize ?two]"
    by (simp add: DivLogicalFunction_def serializeWith_def)
  have one: "deserializeFunction (serialize ?one) = Inr ?one" and two: "deserializeFunction (serialize ?two) = Inr ?two"
    by (rule const, simp)+
  have seq: "sequence (map deserializeFunction [serialize ?one, serialize ?two]) = Inr [?one, ?two]"
    by (simp only: list.map one two sequence.simps andThen_simps)
  have "deserializeFunction (serialize (LogicalFunction Div INT64 [] [?one, ?two])) = Inr (LogicalFunction Div INT32 [] [?one, ?two])"
    unfolding ser deserialize_named [OF seq serializeDataType_roundtrip [of INT64, simplified] configFromProto.simps(1)]
    by (simp add: DivLogicalFunction_def register_simps)
  then show ?thesis by (simp only: Let_def infer map_sum.simps LogicalFunction.sel simp_thms)
qed

end
