(* ===== verification/MemoryLayouts.thy ===== *)
theory MemoryLayouts
  imports Schemas
begin

text \<open>
  Memory layouts (\<open>src/nes-memory/MemoryLayout\<close>): where a field of a tuple lies in a tuple buffer, for a row and a
  column layout.

  \<open>RowLayout\<close> and \<open>ColumnLayout\<close> extend the record \<open>MemoryLayout\<close> as the classes extend the base class. All sizes
  and offsets are 64-bit and wrap; \<open>fits\<close> says that the size of a tuple does not wrap.
\<close>

section \<open>State\<close>

record MemoryLayout =
  bufferSize :: u64
  layoutSchema :: Schema
  recordSize :: u64
  capacity :: u64
  physicalFieldSizes :: "u64 list"
  physicalTypes :: "DataType list"
  nameFieldIndexMap :: "string \<rightharpoonup> u64"
  keyFieldNames :: "string list"

record RowLayout = MemoryLayout +
  fieldOffSets :: "u64 list"

record ColumnLayout = MemoryLayout +
  columnOffsets :: "u64 list"

section \<open>Construction\<close>

fun addPhysicalFields :: "Field list \<Rightarrow> u64 \<Rightarrow> MemoryLayout \<Rightarrow> MemoryLayout" where
  "addPhysicalFields [] fieldIndex l = l"
| "addPhysicalFields (field # rest) fieldIndex l =
     (let physicalFieldSizeInBytes = ucast (getSizeInBytes (fieldType field))
      in addPhysicalFields rest (fieldIndex + 1)
           (l\<lparr>physicalFieldSizes := physicalFieldSizes l @ [physicalFieldSizeInBytes],
              physicalTypes := physicalTypes l @ [fieldType field],
              recordSize := recordSize l + physicalFieldSizeInBytes,
              nameFieldIndexMap := (nameFieldIndexMap l)(fieldName field \<mapsto> fieldIndex)\<rparr>))"

definition newMemoryLayout :: "u64 \<Rightarrow> Schema \<Rightarrow> MemoryLayout" where
  "newMemoryLayout bufSize schema =
     (let l = addPhysicalFields (schemaFields schema) 0
           \<lparr>bufferSize = bufSize, layoutSchema = schema, recordSize = 0, capacity = 0, physicalFieldSizes = [], physicalTypes = [],
            nameFieldIndexMap = Map.empty, keyFieldNames = []\<rparr>
      in l\<lparr>capacity := (if recordSize l > 0 then bufSize div recordSize l else 0)\<rparr>)"

fun rowOffsets :: "u64 list \<Rightarrow> u64 \<Rightarrow> u64 list" where
  "rowOffsets [] offsetCounter = []"
| "rowOffsets (fieldSize # rest) offsetCounter = offsetCounter # rowOffsets rest (offsetCounter + fieldSize)"

definition newRowLayout :: "u64 \<Rightarrow> Schema \<Rightarrow> RowLayout" where
  "newRowLayout bufSize schema =
     (let l = newMemoryLayout bufSize schema in MemoryLayout.extend l (RowLayout.fields (rowOffsets (physicalFieldSizes l) 0)))"

fun columnOffsetsOf :: "u64 \<Rightarrow> u64 list \<Rightarrow> u64 \<Rightarrow> u64 list" where
  "columnOffsetsOf cap [] offsetCounter = []"
| "columnOffsetsOf cap (fieldSize # rest) offsetCounter =
     offsetCounter # columnOffsetsOf cap rest (offsetCounter + fieldSize * cap)"

definition newColumnLayout :: "u64 \<Rightarrow> Schema \<Rightarrow> ColumnLayout" where
  "newColumnLayout bufSize schema =
     (let l = newMemoryLayout bufSize schema
      in MemoryLayout.extend l (ColumnLayout.fields (columnOffsetsOf (capacity l) (physicalFieldSizes l) 0)))"

section \<open>Access\<close>

text \<open>\<open>std::vector::operator[]\<close> beyond the end is undefined behaviour.\<close>

definition getFieldSize :: "'a MemoryLayout_scheme \<Rightarrow> u64 \<Rightarrow> u64 result" where
  "getFieldSize l fieldIndex =
     (if unat fieldIndex < length (physicalFieldSizes l) then Inr (physicalFieldSizes l ! unat fieldIndex) else Inl UndefinedBehaviour)"

definition getPhysicalType :: "'a MemoryLayout_scheme \<Rightarrow> u64 \<Rightarrow> DataType result" where
  "getPhysicalType l fieldIndex =
     (if unat fieldIndex < length (physicalTypes l) then Inr (physicalTypes l ! unat fieldIndex) else Inl UndefinedBehaviour)"

definition getFieldIndexFromName :: "'a MemoryLayout_scheme \<Rightarrow> string \<Rightarrow> u64 option" where
  "getFieldIndexFromName l name = nameFieldIndexMap l name"

definition setBufferSize :: "'a MemoryLayout_scheme \<Rightarrow> u64 \<Rightarrow> 'a MemoryLayout_scheme" where
  "setBufferSize l bufSize = l\<lparr>bufferSize := bufSize\<rparr>"

definition setKeyFieldNames :: "'a MemoryLayout_scheme \<Rightarrow> string list \<Rightarrow> 'a MemoryLayout_scheme" where
  "setKeyFieldNames l keyFields = l\<lparr>keyFieldNames := keyFieldNames l @ keyFields\<rparr>"

definition row_fieldOffset :: "RowLayout \<Rightarrow> u64 \<Rightarrow> u64 result" where
  "row_fieldOffset l fieldIndex =
     andThen (PRECONDITION (unat fieldIndex < length (fieldOffSets l))) (\<lambda>_. Inr (fieldOffSets l ! unat fieldIndex))"

definition row_getFieldOffset :: "RowLayout \<Rightarrow> u64 \<Rightarrow> u64 \<Rightarrow> u64 result" where
  "row_getFieldOffset l tupleIndex fieldIndex =
     (if unat fieldIndex \<ge> length (fieldOffSets l) then Inl CannotAccessBuffer
      else if tupleIndex \<ge> capacity l then Inl CannotAccessBuffer
      else Inr (tupleIndex * recordSize l + fieldOffSets l ! unat fieldIndex))"

definition getColumnOffset :: "ColumnLayout \<Rightarrow> u64 \<Rightarrow> u64 result" where
  "getColumnOffset l fieldIndex =
     andThen (PRECONDITION (unat fieldIndex < length (columnOffsets l))) (\<lambda>_. Inr (columnOffsets l ! unat fieldIndex))"

definition column_getFieldOffset :: "ColumnLayout \<Rightarrow> u64 \<Rightarrow> u64 \<Rightarrow> u64 result" where
  "column_getFieldOffset l tupleIndex fieldIndex =
     (if unat fieldIndex \<ge> length (physicalFieldSizes l) then Inl CannotAccessBuffer
      else if tupleIndex \<ge> capacity l then Inl CannotAccessBuffer
      else andThen (getColumnOffset l fieldIndex) (\<lambda>c. Inr (tupleIndex * physicalFieldSizes l ! unat fieldIndex + c)))"

section \<open>The layout of a schema\<close>

definition sizesOf :: "Schema \<Rightarrow> nat list" where
  "sizesOf schema = map (\<lambda>f. unat (getSizeInBytes (fieldType f))) (schemaFields schema)"

definition fits :: "Schema \<Rightarrow> bool" where
  "fits schema \<longleftrightarrow> sum_list (sizesOf schema) < 2 ^ 64 \<and> length (schemaFields schema) < 2 ^ 64"

lemma addPhysicalFields_fields:
  "physicalFieldSizes (addPhysicalFields fs i l) = physicalFieldSizes l @ map (\<lambda>f. ucast (getSizeInBytes (fieldType f))) fs"
  "physicalTypes (addPhysicalFields fs i l) = physicalTypes l @ map fieldType fs"
  "recordSize (addPhysicalFields fs i l) = recordSize l + sum_list (map (\<lambda>f. ucast (getSizeInBytes (fieldType f))) fs)"
  "layoutSchema (addPhysicalFields fs i l) = layoutSchema l" "bufferSize (addPhysicalFields fs i l) = bufferSize l"
  by (induction fs arbitrary: i l) (simp_all add: Let_def algebra_simps)

lemma unat_field_size: "unat (ucast (getSizeInBytes t) :: u64) = unat (getSizeInBytes t)"
  by (cases t) simp_all

lemma unat_sum_list_u64:
  "sum_list (map unat ws) < 2 ^ 64 \<Longrightarrow> unat (sum_list ws :: u64) = sum_list (map unat ws)"
  by (induction ws) (simp_all add: unat_add_u64)

lemma newMemoryLayout_fields:
  assumes "fits schema"
  shows "map unat (physicalFieldSizes (newMemoryLayout b schema)) = sizesOf schema"
    "unat (recordSize (newMemoryLayout b schema)) = sum_list (sizesOf schema)"
    "unat (capacity (newMemoryLayout b schema)) = unat b div sum_list (sizesOf schema)"
    "physicalTypes (newMemoryLayout b schema) = map fieldType (schemaFields schema)"
    "layoutSchema (newMemoryLayout b schema) = schema" "bufferSize (newMemoryLayout b schema) = b"
proof -
  let ?ws = "map (\<lambda>f. ucast (getSizeInBytes (fieldType f)) :: u64) (schemaFields schema)"
  have sizes: "map unat ?ws = sizesOf schema" by (simp add: sizesOf_def unat_field_size comp_def)
  then show "map unat (physicalFieldSizes (newMemoryLayout b schema)) = sizesOf schema"
    by (simp add: newMemoryLayout_def Let_def addPhysicalFields_fields)
  have rec: "recordSize (newMemoryLayout b schema) = sum_list ?ws"
    by (simp add: newMemoryLayout_def Let_def addPhysicalFields_fields)
  moreover have sum: "unat (sum_list ?ws) = sum_list (sizesOf schema)"
    using assms sizes unat_sum_list_u64 [of ?ws] by (simp add: fits_def)
  ultimately show "unat (recordSize (newMemoryLayout b schema)) = sum_list (sizesOf schema)" by simp
  show "unat (capacity (newMemoryLayout b schema)) = unat b div sum_list (sizesOf schema)"
  proof (cases "sum_list ?ws = 0")
    case True
    then have "sum_list (sizesOf schema) = 0" using sum by (metis unat_0)
    then show ?thesis using True by (simp add: newMemoryLayout_def Let_def addPhysicalFields_fields del: sum_list_eq_0_iff)
  next
    case False
    then show ?thesis using sum by (simp add: newMemoryLayout_def Let_def addPhysicalFields_fields unat_div word_gt_0)
  qed
qed (simp_all add: newMemoryLayout_def Let_def addPhysicalFields_fields)

lemma rowOffsets_nth:
  "i < length ws \<Longrightarrow> unat c + sum_list (map unat ws) < 2 ^ 64 \<Longrightarrow>
     unat (rowOffsets ws c ! i) = unat c + sum_list (take i (map unat ws))"
proof (induction ws arbitrary: c i)
  case (Cons w ws)
  then have "unat (c + w) = unat c + unat w" by (intro unat_add_u64) simp
  then show ?case using Cons by (cases i) auto
qed simp

lemma columnOffsetsOf_nth:
  "i < length ws \<Longrightarrow> unat c + sum_list (map unat ws) * unat cap < 2 ^ 64 \<Longrightarrow>
     unat (columnOffsetsOf cap ws c ! i) = unat c + sum_list (take i (map unat ws)) * unat cap"
proof (induction ws arbitrary: c i)
  case (Cons w ws)
  then have "unat w * unat cap < 2 ^ 64" "unat c + unat w * unat cap < 2 ^ 64" by (simp_all add: add_mult_distrib)
  then have "unat (c + w * cap) = unat c + unat w * unat cap" by (simp add: unat_add_u64 unat_mult_u64)
  then show ?case using Cons by (cases i) (auto simp: add_mult_distrib)
qed simp

lemma offsets_length: "length (rowOffsets ws c) = length ws" "length (columnOffsetsOf cap ws c) = length ws"
  by (induction ws arbitrary: c) simp_all

section \<open>Cells of a buffer\<close>

lemma prefix_step: "f < length ss \<Longrightarrow> sum_list (take f ss) + ss ! f = sum_list (take (Suc f) ss)" for ss :: "nat list"
  by (simp add: take_Suc_conv_app_nth)

lemma prefix_mono: "f \<le> g \<Longrightarrow> sum_list (take f ss) \<le> sum_list (take g ss)" for ss :: "nat list"
  using take_add [of f "g - f" ss] by simp

lemma prefix_total: "sum_list (take f ss) \<le> sum_list ss" for ss :: "nat list"
  using arg_cong [OF append_take_drop_id [of f ss], of sum_list] by (simp del: append_take_drop_id)

lemma row_cell_bound:
  fixes ss :: "nat list"
  assumes "t < cap" "f < length ss"
  shows "t * sum_list ss + sum_list (take f ss) + ss ! f \<le> cap * sum_list ss"
proof -
  have "sum_list (take f ss) + ss ! f \<le> sum_list ss" using prefix_step [OF assms(2)] prefix_total [of "Suc f" ss] by simp
  then have "t * sum_list ss + sum_list (take f ss) + ss ! f \<le> Suc t * sum_list ss" by simp
  also have "\<dots> \<le> cap * sum_list ss" using assms(1) by (intro mult_le_mono1) simp
  finally show ?thesis .
qed

lemma column_cell_bound:
  fixes ss :: "nat list"
  assumes "t < cap" "f < length ss"
  shows "t * ss ! f + sum_list (take f ss) * cap + ss ! f \<le> sum_list (take (Suc f) ss) * cap"
proof -
  have "t * ss ! f + ss ! f \<le> ss ! f * cap" using assms(1) mult_le_mono1 [of "Suc t" cap "ss ! f"] by (simp add: mult.commute)
  moreover have "sum_list (take (Suc f) ss) * cap = sum_list (take f ss) * cap + ss ! f * cap"
    by (simp only: prefix_step [OF assms(2), symmetric] add_mult_distrib)
  ultimately show ?thesis by linarith
qed

text \<open>What a layout promises its users: a cell for every field of every tuple up to the capacity, inside the buffer
  and apart from all others.\<close>

locale field_cells =
  fixes valid :: "'l \<Rightarrow> bool"
    and cellSizes :: "'l \<Rightarrow> nat list"
    and tuples :: "'l \<Rightarrow> nat"
    and bufferBound :: "'l \<Rightarrow> nat"
    and address :: "'l \<Rightarrow> u64 \<Rightarrow> u64 \<Rightarrow> u64 result"
  assumes in_buffer: "valid l \<Longrightarrow> unat t < tuples l \<Longrightarrow> unat f < length (cellSizes l) \<Longrightarrow>
      \<exists>a. address l t f = Inr a \<and> unat a + cellSizes l ! unat f \<le> bufferBound l"
    and disjoint: "valid l \<Longrightarrow> unat t < tuples l \<Longrightarrow> unat f < length (cellSizes l) \<Longrightarrow>
      unat t' < tuples l \<Longrightarrow> unat f' < length (cellSizes l) \<Longrightarrow> (t, f) \<noteq> (t', f') \<Longrightarrow>
      address l t f = Inr a \<Longrightarrow> address l t' f' = Inr a' \<Longrightarrow>
      unat a + cellSizes l ! unat f \<le> unat a' \<or> unat a' + cellSizes l ! unat f' \<le> unat a"
begin

lemma cell:
  assumes "valid l" "unat t < tuples l" "unat f < length (cellSizes l)"
  obtains a where "address l t f = Inr a" "unat a + cellSizes l ! unat f \<le> bufferBound l"
  using in_buffer [OF assms] by blast

end

definition schemaSizes :: "'a MemoryLayout_scheme \<Rightarrow> nat list" where
  "schemaSizes l = sizesOf (layoutSchema l)"

definition row_valid :: "RowLayout \<Rightarrow> bool" where
  "row_valid l \<longleftrightarrow> fits (layoutSchema l) \<and> l = newRowLayout (bufferSize l) (layoutSchema l)"

definition column_valid :: "ColumnLayout \<Rightarrow> bool" where
  "column_valid l \<longleftrightarrow> fits (layoutSchema l) \<and> l = newColumnLayout (bufferSize l) (layoutSchema l)"

lemma capacity_bound: "fits schema \<Longrightarrow> unat (capacity (newMemoryLayout b schema)) * sum_list (sizesOf schema) \<le> unat b"
  by (simp add: newMemoryLayout_fields)

lemma newRowLayout_fields:
  "physicalFieldSizes (newRowLayout b s) = physicalFieldSizes (newMemoryLayout b s)" "recordSize (newRowLayout b s) = recordSize (newMemoryLayout b s)"
  "capacity (newRowLayout b s) = capacity (newMemoryLayout b s)" "physicalTypes (newRowLayout b s) = physicalTypes (newMemoryLayout b s)"
  "layoutSchema (newRowLayout b s) = layoutSchema (newMemoryLayout b s)" "bufferSize (newRowLayout b s) = bufferSize (newMemoryLayout b s)"
  "fieldOffSets (newRowLayout b s) = rowOffsets (physicalFieldSizes (newMemoryLayout b s)) 0"
  by (simp_all add: newRowLayout_def Let_def MemoryLayout.defs RowLayout.defs)

lemma newColumnLayout_fields:
  "physicalFieldSizes (newColumnLayout b s) = physicalFieldSizes (newMemoryLayout b s)" "recordSize (newColumnLayout b s) = recordSize (newMemoryLayout b s)"
  "capacity (newColumnLayout b s) = capacity (newMemoryLayout b s)" "physicalTypes (newColumnLayout b s) = physicalTypes (newMemoryLayout b s)"
  "layoutSchema (newColumnLayout b s) = layoutSchema (newMemoryLayout b s)" "bufferSize (newColumnLayout b s) = bufferSize (newMemoryLayout b s)"
  "columnOffsets (newColumnLayout b s) = columnOffsetsOf (capacity (newMemoryLayout b s)) (physicalFieldSizes (newMemoryLayout b s)) 0"
  by (simp_all add: newColumnLayout_def Let_def MemoryLayout.defs ColumnLayout.defs)

text \<open>The offsets as natural numbers.\<close>

lemma row_offset:
  assumes "fits s" "f < length (sizesOf s)" "t < unat (capacity (newMemoryLayout b s))" "t = unat tw"
  shows "unat (tw * recordSize (newRowLayout b s) + fieldOffSets (newRowLayout b s) ! f) = t * sum_list (sizesOf s) + sum_list (take f (sizesOf s))"
    "unat (fieldOffSets (newRowLayout b s) ! f) = sum_list (take f (sizesOf s))"
proof -
  note l = newMemoryLayout_fields [OF assms(1), of b]
  have len: "length (physicalFieldSizes (newMemoryLayout b s)) = length (sizesOf s)" using l(1) by (metis length_map)
  show off: "unat (fieldOffSets (newRowLayout b s) ! f) = sum_list (take f (sizesOf s))"
    using rowOffsets_nth [of f "physicalFieldSizes (newMemoryLayout b s)" 0] assms(1,2) len l(1)
    by (simp add: newRowLayout_fields fits_def)
  have "t * sum_list (sizesOf s) + sum_list (take f (sizesOf s)) + sizesOf s ! f \<le> unat b"
    using row_cell_bound [OF assms(3,2)] capacity_bound [OF assms(1), of b] by simp
  then have "t * sum_list (sizesOf s) + sum_list (take f (sizesOf s)) < 2 ^ 64" by (intro le_unat_u64 [of _ b]) linarith
  then show "unat (tw * recordSize (newRowLayout b s) + fieldOffSets (newRowLayout b s) ! f) = t * sum_list (sizesOf s) + sum_list (take f (sizesOf s))"
    using off l(2) assms(4) by (simp add: unat_add_u64 unat_mult_u64 newRowLayout_fields)
qed

lemma column_offset:
  assumes "fits s" "f < length (sizesOf s)" "t < unat (capacity (newMemoryLayout b s))" "t = unat tw"
  shows "unat (tw * physicalFieldSizes (newColumnLayout b s) ! f + columnOffsets (newColumnLayout b s) ! f)
      = t * sizesOf s ! f + sum_list (take f (sizesOf s)) * unat (capacity (newMemoryLayout b s))"
proof -
  let ?cap = "unat (capacity (newMemoryLayout b s))"
  note l = newMemoryLayout_fields [OF assms(1), of b]
  have len: "length (physicalFieldSizes (newMemoryLayout b s)) = length (sizesOf s)" using l(1) by (metis length_map)
  have cap: "sum_list (sizesOf s) * ?cap \<le> unat b" using capacity_bound [OF assms(1), of b] by (simp add: mult.commute)
  have off: "unat (columnOffsets (newColumnLayout b s) ! f) = sum_list (take f (sizesOf s)) * ?cap"
    using columnOffsetsOf_nth [of f "physicalFieldSizes (newMemoryLayout b s)" 0 "capacity (newMemoryLayout b s)"] assms(2) len l(1) cap unat_u64_less [of b]
    by (simp add: newColumnLayout_fields)
  have fsize: "unat (physicalFieldSizes (newMemoryLayout b s) ! f) = sizesOf s ! f" using l(1) len assms(2) by (metis nth_map)
  have "t * sizesOf s ! f + sum_list (take f (sizesOf s)) * ?cap + sizesOf s ! f \<le> sum_list (sizesOf s) * ?cap"
    using column_cell_bound [OF assms(3,2)] mult_le_mono1 [OF prefix_total [of "Suc f" "sizesOf s"], of ?cap] by linarith
  then have "t * sizesOf s ! f + sum_list (take f (sizesOf s)) * ?cap < 2 ^ 64" using cap by (intro le_unat_u64 [of _ b]) linarith
  then show ?thesis using off fsize assms(4) by (simp add: unat_add_u64 unat_mult_u64 newColumnLayout_fields)
qed

lemma row_address:
  assumes "row_valid l" "unat t < unat (capacity l)" "unat f < length (schemaSizes l)"
  shows "\<exists>a. row_getFieldOffset l t f = Inr a \<and> unat a = unat t * sum_list (schemaSizes l) + sum_list (take (unat f) (schemaSizes l))"
proof -
  obtain b s where l: "l = newRowLayout b s" "fits s" and ss: "schemaSizes l = sizesOf s"
    using assms(1) by (metis row_valid_def schemaSizes_def)
  have len: "length (fieldOffSets l) = length (sizesOf s)"
    using newMemoryLayout_fields(1) [OF l(2), of b] by (metis l(1) newRowLayout_fields(7) offsets_length(1) length_map)
  have "t < capacity l" using assms(2) by (simp add: word_less_nat_alt)
  then show ?thesis using row_offset(1) [OF l(2), of "unat f" "unat t" b t] assms(2,3) ss len l(1)
    by (auto simp: row_getFieldOffset_def newRowLayout_fields)
qed

lemma column_address:
  assumes "column_valid l" "unat t < unat (capacity l)" "unat f < length (schemaSizes l)"
  shows "\<exists>a. column_getFieldOffset l t f = Inr a \<and>
    unat a = unat t * schemaSizes l ! unat f + sum_list (take (unat f) (schemaSizes l)) * unat (capacity l)"
proof -
  obtain b s where l: "l = newColumnLayout b s" "fits s" and ss: "schemaSizes l = sizesOf s"
    using assms(1) by (metis column_valid_def schemaSizes_def)
  have len: "length (columnOffsets l) = length (sizesOf s)" "length (physicalFieldSizes l) = length (sizesOf s)"
    using newMemoryLayout_fields(1) [OF l(2), of b]
    by (metis l(1) newColumnLayout_fields(7) offsets_length(2) length_map, metis l(1) newColumnLayout_fields(1) length_map)
  have "t < capacity l" using assms(2) by (simp add: word_less_nat_alt)
  then show ?thesis using column_offset [OF l(2), of "unat f" "unat t" b t] assms(2,3) ss len l(1)
    by (auto simp: column_getFieldOffset_def getColumnOffset_def PRECONDITION_def newColumnLayout_fields)
qed

lemma layout_capacity:
  "row_valid l \<Longrightarrow> unat (capacity l) * sum_list (schemaSizes l) \<le> unat (bufferSize l)"
  "column_valid c \<Longrightarrow> unat (capacity c) * sum_list (schemaSizes c) \<le> unat (bufferSize c)"
  using capacity_bound by (metis row_valid_def schemaSizes_def newRowLayout_fields(3), metis column_valid_def schemaSizes_def newColumnLayout_fields(3))

lemma row_cells_apart:
  fixes ss :: "nat list"
  assumes "f < length ss" "f' < length ss" "t < t' \<or> t = t' \<and> f < f'"
  shows "t * sum_list ss + sum_list (take f ss) + ss ! f \<le> t' * sum_list ss + sum_list (take f' ss)"
proof (cases "t < t'")
  case True
  then have "Suc t * sum_list ss \<le> t' * sum_list ss" by (intro mult_le_mono1) simp
  then show ?thesis using prefix_step [OF assms(1)] prefix_total [of "Suc f" ss] by simp
next
  case False
  then show ?thesis using assms(3) prefix_step [OF assms(1)] prefix_mono [of "Suc f" f' ss] by simp
qed

lemma column_cells_apart:
  fixes ss :: "nat list"
  assumes "f < length ss" "f' < length ss" "t < cap" "f < f' \<or> f = f' \<and> t < t'"
  shows "t * ss ! f + sum_list (take f ss) * cap + ss ! f \<le> t' * ss ! f' + sum_list (take f' ss) * cap"
proof (cases "f < f'")
  case True
  then have "sum_list (take (Suc f) ss) * cap \<le> sum_list (take f' ss) * cap" by (intro mult_le_mono1 prefix_mono) simp
  then show ?thesis using column_cell_bound [OF assms(3,1)] by linarith
next
  case False
  then have "f = f'" "Suc t \<le> t'" using assms(4) by auto
  then show ?thesis using mult_le_mono1 [of "Suc t" t' "ss ! f"] by simp
qed

interpretation row_cells: field_cells row_valid schemaSizes "\<lambda>l. unat (capacity l)" "\<lambda>l. unat (bufferSize l)" row_getFieldOffset
proof
  fix l and t f :: u64 assume c: "row_valid l" "unat t < unat (capacity l)" "unat f < length (schemaSizes l)"
  then show "\<exists>a. row_getFieldOffset l t f = Inr a \<and> unat a + schemaSizes l ! unat f \<le> unat (bufferSize l)"
    using row_address [OF c] row_cell_bound [OF c(2,3)] layout_capacity(1) [OF c(1)] by force
  fix t' f' a a' :: u64 assume c': "unat t' < unat (capacity l)" "unat f' < length (schemaSizes l)" "(t, f) \<noteq> (t', f')"
    "row_getFieldOffset l t f = Inr a" "row_getFieldOffset l t' f' = Inr a'"
  then have "unat t < unat t' \<or> unat t = unat t' \<and> unat f < unat f' \<or> unat t' < unat t \<or> unat t' = unat t \<and> unat f' < unat f"
    by (auto simp: word_unat_eq_iff)
  then show "unat a + schemaSizes l ! unat f \<le> unat a' \<or> unat a' + schemaSizes l ! unat f' \<le> unat a"
    using row_address [OF c] row_address [OF c(1) c'(1,2)] c'(4,5)
      row_cells_apart [OF c(3) c'(2), of "unat t" "unat t'"] row_cells_apart [OF c'(2) c(3), of "unat t'" "unat t"] by force
qed

interpretation column_cells: field_cells column_valid schemaSizes "\<lambda>l. unat (capacity l)" "\<lambda>l. unat (bufferSize l)" column_getFieldOffset
proof
  fix l and t f :: u64 assume c: "column_valid l" "unat t < unat (capacity l)" "unat f < length (schemaSizes l)"
  have "sum_list (take (Suc (unat f)) (schemaSizes l)) * unat (capacity l) \<le> sum_list (schemaSizes l) * unat (capacity l)"
    by (rule mult_le_mono1 [OF prefix_total])
  also have "\<dots> \<le> unat (bufferSize l)" using layout_capacity(2) [OF c(1)] by (simp only: mult.commute)
  finally have "sum_list (take (Suc (unat f)) (schemaSizes l)) * unat (capacity l) \<le> unat (bufferSize l)" .
  then show "\<exists>a. column_getFieldOffset l t f = Inr a \<and> unat a + schemaSizes l ! unat f \<le> unat (bufferSize l)"
    using column_address [OF c] column_cell_bound [OF c(2,3)] by (elim exE conjE, intro exI conjI) (assumption, linarith)
  fix t' f' a a' :: u64 assume c': "unat t' < unat (capacity l)" "unat f' < length (schemaSizes l)" "(t, f) \<noteq> (t', f')"
    "column_getFieldOffset l t f = Inr a" "column_getFieldOffset l t' f' = Inr a'"
  then have order: "(unat f < unat f' \<or> unat f = unat f' \<and> unat t < unat t') \<or> (unat f' < unat f \<or> unat f' = unat f \<and> unat t' < unat t)"
    by (auto simp: word_unat_eq_iff)
  have "unat a = unat t * schemaSizes l ! unat f + sum_list (take (unat f) (schemaSizes l)) * unat (capacity l)"
    "unat a' = unat t' * schemaSizes l ! unat f' + sum_list (take (unat f') (schemaSizes l)) * unat (capacity l)"
    using column_address [OF c] column_address [OF c(1) c'(1,2)] c'(4,5) by auto
  with order show "unat a + schemaSizes l ! unat f \<le> unat a' \<or> unat a' + schemaSizes l ! unat f' \<le> unat a"
    using column_cells_apart [OF c(3) c'(2) c(2), of "unat t'"] column_cells_apart [OF c'(2) c(3) c'(1), of "unat t"] by metis
qed

text \<open>C22. In a row layout and in a column layout of any schema and buffer size, the offset of a field of a tuple below
  the capacity lies with the whole field inside the buffer, no 64-bit sum or product wraps on the way, and the
  fields of all tuples are pairwise disjoint; an index beyond the fields or the capacity raises
  \<open>CannotAccessBuffer\<close>.\<close>

theorem layout_cells:
  assumes "fits schema"
    and l: "l = newRowLayout b schema" and c: "c = newColumnLayout b schema"
  shows "(unat t < unat (capacity l) \<and> unat f < length (schemaFields schema) \<longrightarrow>
      (\<exists>a. row_getFieldOffset l t f = Inr a \<and> unat a + sizesOf schema ! unat f \<le> unat b \<and>
        (\<forall>t' f' a'. unat t' < unat (capacity l) \<and> unat f' < length (schemaFields schema) \<and> (t, f) \<noteq> (t', f') \<and>
           row_getFieldOffset l t' f' = Inr a' \<longrightarrow> unat a + sizesOf schema ! unat f \<le> unat a' \<or> unat a' + sizesOf schema ! unat f' \<le> unat a)))
     \<and> (unat t < unat (capacity c) \<and> unat f < length (schemaFields schema) \<longrightarrow>
      (\<exists>a. column_getFieldOffset c t f = Inr a \<and> unat a + sizesOf schema ! unat f \<le> unat b \<and>
        (\<forall>t' f' a'. unat t' < unat (capacity c) \<and> unat f' < length (schemaFields schema) \<and> (t, f) \<noteq> (t', f') \<and>
           column_getFieldOffset c t' f' = Inr a' \<longrightarrow> unat a + sizesOf schema ! unat f \<le> unat a' \<or> unat a' + sizesOf schema ! unat f' \<le> unat a)))
     \<and> (\<not> (unat t < unat (capacity l) \<and> unat f < length (schemaFields schema)) \<longrightarrow>
          row_getFieldOffset l t f = Inl CannotAccessBuffer \<and> column_getFieldOffset c t f = Inl CannotAccessBuffer)"
proof -
  have ss: "schemaSizes l = sizesOf schema" "schemaSizes c = sizesOf schema" "bufferSize l = b" "bufferSize c = b" "length (sizesOf schema) = length (schemaFields schema)"
    and valid: "row_valid l" "column_valid c"
    using assms newMemoryLayout_fields(5,6) [OF assms(1), of b]
    by (auto simp: schemaSizes_def newRowLayout_fields newColumnLayout_fields row_valid_def column_valid_def sizesOf_def)
  have len: "length (fieldOffSets l) = length (schemaFields schema)" "length (physicalFieldSizes c) = length (schemaFields schema)"
    and cap: "capacity l = capacity c"
    using arg_cong [OF newMemoryLayout_fields(1) [OF assms(1), of b], of length] l c ss(5)
    by (auto simp: newRowLayout_fields newColumnLayout_fields offsets_length)
  show ?thesis
    apply (intro conjI impI)
    subgoal using row_cells.in_buffer [OF valid(1), of t f] row_cells.disjoint [OF valid(1), of t f] ss by (simp, blast)
    subgoal using column_cells.in_buffer [OF valid(2), of t f] column_cells.disjoint [OF valid(2), of t f] ss by (simp, blast)
    using len cap by (auto simp: row_getFieldOffset_def column_getFieldOffset_def word_le_nat_alt not_less)
qed

theorem layout_cells_witness:
  "let schema = addField (addField (newSchema ROW_LAYOUT) ''s$id'' UINT64) ''s$n'' UINT32
   in (\<exists>a. row_getFieldOffset (newRowLayout 100 schema) 1 1 = Inr a \<and> unat a + 4 \<le> 100)
    \<and> (\<exists>a. column_getFieldOffset (newColumnLayout 100 schema) 1 1 = Inr a \<and> unat a + 4 \<le> 100)"
proof -
  let ?s = "addField (addField (newSchema ROW_LAYOUT) ''s$id'' UINT64) ''s$n'' UINT32"
  have s: "sizesOf ?s = [8, 4]" "length (schemaFields ?s) = 2" by (simp_all add: sizesOf_def addField_def newSchema_def)
  then have fits: "fits ?s" by (simp add: fits_def)
  then have "unat (capacity (newRowLayout 100 ?s)) = 8" "unat (capacity (newColumnLayout 100 ?s)) = 8"
    by (simp_all add: newRowLayout_fields newColumnLayout_fields newMemoryLayout_fields s)
  then show ?thesis using layout_cells [OF fits refl refl, where b = 100 and t = 1 and f = 1] s by (auto simp: Let_def)
qed

end
