(* ===== verification/MemoryProvider.thy ===== *)
theory MemoryProvider
  imports MemoryLayouts
begin

text \<open>
  Records in tuple buffers (\<open>src/nes-nautilus/src/Nautilus/Interface/MemoryProvider\<close>, with \<open>VarVal\<close>, \<open>Record\<close> and
  \<open>VariableSizedData\<close> under \<open>src/nes-nautilus/src/Nautilus\<close>, and the child buffers of
  \<open>src/nes-memory/TupleBufferImpl.cpp\<close>).

  A buffer is its bytes and its child buffers. A value is a scalar of a type with its bit pattern, or the memory a
  variable-sized value points to: four bytes of length and the content. An access outside the bytes of a buffer is
  undefined behaviour. Conversions from and to floating-point numbers are a parameter.
\<close>

section \<open>Values and buffers\<close>

datatype VarVal = Scalar DataType nat | VariableSizedData u32 "byte list"

type_synonym varRecord = "string \<rightharpoonup> VarVal"

record RecordBuffer =
  bufferBytes :: "byte list"
  children :: "byte list list"

definition record_read :: "varRecord \<Rightarrow> string \<Rightarrow> VarVal result" where
  "record_read r name = (case r name of None \<Rightarrow> Inl FieldNotFound | Some v \<Rightarrow> Inr v)"

definition record_write :: "varRecord \<Rightarrow> string \<Rightarrow> VarVal \<Rightarrow> varRecord" where
  "record_write r name v = r(name \<mapsto> v)"

definition peek :: "byte list \<Rightarrow> u64 \<Rightarrow> nat \<Rightarrow> byte list result" where
  "peek mem a n = (if unat a + n \<le> length mem then Inr (take n (drop (unat a) mem)) else Inl UndefinedBehaviour)"

definition poke :: "byte list \<Rightarrow> u64 \<Rightarrow> byte list \<Rightarrow> byte list result" where
  "poke mem a bs =
     (if unat a + length bs \<le> length mem then Inr (take (unat a) mem @ bs @ drop (unat a + length bs) mem) else Inl UndefinedBehaviour)"

section \<open>Scalars\<close>

definition scalarTypes :: "DataType list" where
  "scalarTypes = [BOOLEAN, INT8, INT16, INT32, INT64, UINT8, UINT16, UINT32, UINT64, FLOAT32, FLOAT64]"

definition sizeOfType :: "DataType \<Rightarrow> nat" where
  "sizeOfType t = unat (getSizeInBytes t)"

definition readVarValFromMemory :: "byte list \<Rightarrow> u64 \<Rightarrow> DataType \<Rightarrow> VarVal result" where
  "readVarValFromMemory mem memRef type =
     (if type \<in> set scalarTypes
      then andThen (peek mem memRef (sizeOfType type)) (\<lambda>bs. Inr (Scalar type (littleEndian bs)))
      else Inl UnknownDataType)"

text \<open>\<open>static_cast\<close> between the C++ types.\<close>

definition castScalar :: "(DataType \<Rightarrow> DataType \<Rightarrow> nat \<Rightarrow> nat) \<Rightarrow> DataType \<Rightarrow> DataType \<Rightarrow> nat \<Rightarrow> nat" where
  "castScalar convertFloat t t' v =
     (if t = t' then v
      else if isFloat t \<or> isFloat t' then convertFloat t t' v
      else if t' = BOOLEAN then (if v = 0 then 0 else 1)
      else nat ((if isSignedInteger t then signedOf (sizeOfType t) v else int v) mod 256 ^ sizeOfType t'))"

definition castToType :: "(DataType \<Rightarrow> DataType \<Rightarrow> nat \<Rightarrow> nat) \<Rightarrow> VarVal \<Rightarrow> DataType \<Rightarrow> VarVal result" where
  "castToType convertFloat v type =
     (case v of
        VariableSizedData _ _ \<Rightarrow> Inl UnknownOperation
      | Scalar t bits \<Rightarrow> if type \<in> set scalarTypes then Inr (Scalar type (castScalar convertFloat t type bits)) else Inl UnknownDataType)"

definition writeToMemory :: "byte list \<Rightarrow> u64 \<Rightarrow> VarVal \<Rightarrow> byte list result" where
  "writeToMemory mem memRef v =
     (case v of
        VariableSizedData _ _ \<Rightarrow> Inl UnknownOperation
      | Scalar t bits \<Rightarrow> poke mem memRef (bytesOf (sizeOfType t) bits))"

section \<open>Variable-sized values\<close>

text \<open>\<open>isValid\<close> has two preconditions that exclude each other.\<close>

definition isValid :: "u32 \<Rightarrow> byte list option \<Rightarrow> bool result" where
  "isValid varSize ptr =
     andThen (PRECONDITION (varSize > 0 \<and> ptr \<noteq> None)) (\<lambda>_.
     andThen (PRECONDITION (varSize = 0 \<and> ptr = None)) (\<lambda>_. Inr (varSize > 0 \<and> ptr \<noteq> None)))"

definition fromPointer :: "byte list \<Rightarrow> VarVal result" where
  "fromPointer mem = andThen (readBytes 4 mem) (\<lambda>n. Inr (VariableSizedData (of_nat n) mem))"

definition storeChildBuffer :: "RecordBuffer \<Rightarrow> byte list \<Rightarrow> RecordBuffer \<times> u32" where
  "storeChildBuffer b child = (b\<lparr>children := children b @ [child]\<rparr>, of_nat (length (children b @ [child]) - 1))"

text \<open>The index is a \<open>uint32_t\<close> up to the control block, whose parameter is a \<open>uint16_t\<close>.\<close>

definition loadChildBuffer :: "RecordBuffer \<Rightarrow> u32 \<Rightarrow> byte list result" where
  "loadChildBuffer b childIndex =
     (let index = unat (ucast childIndex :: 16 word)
      in andThen (PRECONDITION (index < length (children b))) (\<lambda>_. Inr (children b ! index)))"

definition storeAssociatedTextValueProxy :: "bool \<Rightarrow> RecordBuffer \<Rightarrow> byte list \<Rightarrow> u32 \<Rightarrow> (RecordBuffer \<times> u32) result" where
  "storeAssociatedTextValueProxy bufferAvailable b textValue varSize =
     andThen (readBytes 4 textValue) (\<lambda>n.
     andThen (PRECONDITION (n = unat varSize)) (\<lambda>_.
       if \<not> bufferAvailable then Inl BufferAllocationFailure
       else if 4 + unat varSize \<le> length textValue
       then Inr (storeChildBuffer b (bytesOf 4 (unat varSize) @ take (unat varSize) (drop 4 textValue)))
       else Inl UndefinedBehaviour))"

section \<open>Fields\<close>

definition loadValue :: "DataType \<Rightarrow> RecordBuffer \<Rightarrow> u64 \<Rightarrow> VarVal result" where
  "loadValue physicalType b fieldReference =
     (if physicalType \<noteq> VARSIZED then readVarValFromMemory (bufferBytes b) fieldReference physicalType
      else andThen (peek (bufferBytes b) fieldReference 4) (\<lambda>bs.
           andThen (loadChildBuffer b (of_nat (littleEndian bs))) fromPointer))"

text \<open>\<open>storeValueFunctionMap\<close> has an empty function for the undefined type.\<close>

definition storeValue ::
  "(DataType \<Rightarrow> DataType \<Rightarrow> nat \<Rightarrow> nat) \<Rightarrow> bool \<Rightarrow> DataType \<Rightarrow> RecordBuffer \<Rightarrow> u64 \<Rightarrow> VarVal \<Rightarrow> RecordBuffer result" where
  "storeValue convertFloat bufferAvailable physicalType b fieldReference v =
     (if physicalType \<noteq> VARSIZED then
        (if physicalType \<in> set scalarTypes
         then andThen (castToType convertFloat v physicalType) (\<lambda>v'.
              andThen (writeToMemory (bufferBytes b) fieldReference v') (\<lambda>mem. Inr (b\<lparr>bufferBytes := mem\<rparr>)))
         else if physicalType = UNDEFINED then Inl BadFunctionCall
         else Inl UnknownDataType)
      else (case v of
              Scalar _ _ \<Rightarrow> Inl UnknownOperation
            | VariableSizedData varSize textValue \<Rightarrow>
                andThen (storeAssociatedTextValueProxy bufferAvailable b textValue varSize) (\<lambda>(b', childIndex).
                andThen (poke (bufferBytes b') fieldReference (bytesOf 4 (unat childIndex))) (\<lambda>mem. Inr (b'\<lparr>bufferBytes := mem\<rparr>)))))"

definition includesField :: "string list \<Rightarrow> string \<Rightarrow> bool" where
  "includesField projections name \<longleftrightarrow> name \<in> set projections"

section \<open>Records\<close>

definition row_calculateFieldAddress :: "RowLayout \<Rightarrow> u64 \<Rightarrow> u64 \<Rightarrow> u64 result" where
  "row_calculateFieldAddress l recordOffset fieldIndex = andThen (row_fieldOffset l fieldIndex) (\<lambda>fieldOffset. Inr (recordOffset + fieldOffset))"

definition column_calculateFieldAddress :: "ColumnLayout \<Rightarrow> u64 \<Rightarrow> u64 \<Rightarrow> u64 result" where
  "column_calculateFieldAddress l recordIndex fieldIndex =
     andThen (getFieldSize l fieldIndex) (\<lambda>s. andThen (getColumnOffset l fieldIndex) (\<lambda>c. Inr (recordIndex * s + c)))"

fun readFields :: "(u64 \<Rightarrow> u64 result) \<Rightarrow> string list \<Rightarrow> RecordBuffer \<Rightarrow> Field list \<Rightarrow> u64 \<Rightarrow> varRecord \<Rightarrow> varRecord result" where
  "readFields addressOf projections b [] i r = Inr r"
| "readFields addressOf projections b (field # rest) i r =
     (if \<not> includesField projections (fieldName field) then readFields addressOf projections b rest (i + 1) r
      else andThen (addressOf i) (\<lambda>a.
           andThen (loadValue (fieldType field) b a) (\<lambda>v.
             readFields addressOf projections b rest (i + 1) (record_write r (fieldName field) v))))"

fun writeFields ::
  "(DataType \<Rightarrow> DataType \<Rightarrow> nat \<Rightarrow> nat) \<Rightarrow> bool \<Rightarrow> (u64 \<Rightarrow> u64 result) \<Rightarrow> varRecord \<Rightarrow> Field list \<Rightarrow> u64 \<Rightarrow> RecordBuffer \<Rightarrow> RecordBuffer result" where
  "writeFields convertFloat bufferAvailable addressOf r [] i b = Inr b"
| "writeFields convertFloat bufferAvailable addressOf r (field # rest) i b =
     andThen (addressOf i) (\<lambda>a.
     andThen (record_read r (fieldName field)) (\<lambda>v.
     andThen (storeValue convertFloat bufferAvailable (fieldType field) b a v) (\<lambda>b'.
       writeFields convertFloat bufferAvailable addressOf r rest (i + 1) b')))"

definition row_readRecord :: "RowLayout \<Rightarrow> string list \<Rightarrow> RecordBuffer \<Rightarrow> u64 \<Rightarrow> varRecord result" where
  "row_readRecord l projections b recordIndex =
     readFields (row_calculateFieldAddress l (recordSize l * recordIndex)) projections b (schemaFields (layoutSchema l)) 0 Map.empty"

definition row_writeRecord ::
  "(DataType \<Rightarrow> DataType \<Rightarrow> nat \<Rightarrow> nat) \<Rightarrow> bool \<Rightarrow> RowLayout \<Rightarrow> u64 \<Rightarrow> RecordBuffer \<Rightarrow> varRecord \<Rightarrow> RecordBuffer result" where
  "row_writeRecord convertFloat bufferAvailable l recordIndex b r =
     writeFields convertFloat bufferAvailable (row_calculateFieldAddress l (recordSize l * recordIndex)) r (schemaFields (layoutSchema l)) 0 b"

definition column_readRecord :: "ColumnLayout \<Rightarrow> string list \<Rightarrow> RecordBuffer \<Rightarrow> u64 \<Rightarrow> varRecord result" where
  "column_readRecord l projections b recordIndex =
     readFields (column_calculateFieldAddress l recordIndex) projections b (schemaFields (layoutSchema l)) 0 Map.empty"

definition column_writeRecord ::
  "(DataType \<Rightarrow> DataType \<Rightarrow> nat \<Rightarrow> nat) \<Rightarrow> bool \<Rightarrow> ColumnLayout \<Rightarrow> u64 \<Rightarrow> RecordBuffer \<Rightarrow> varRecord \<Rightarrow> RecordBuffer result" where
  "column_writeRecord convertFloat bufferAvailable l recordIndex b r =
     writeFields convertFloat bufferAvailable (column_calculateFieldAddress l recordIndex) r (schemaFields (layoutSchema l)) 0 b"

section \<open>Storing one field\<close>

definition value_ok :: "DataType \<Rightarrow> VarVal \<Rightarrow> bool" where
  "value_ok type v =
     (case v of
        Scalar t bits \<Rightarrow> t = type \<and> type \<in> set scalarTypes \<and> bits < 256 ^ sizeOfType type
      | VariableSizedData n mem \<Rightarrow> type = VARSIZED \<and> littleEndian (take 4 mem) = unat n \<and> length mem = 4 + unat n)"

text \<open>\<open>b'\<close> has the same \<open>n\<close> bytes at \<open>a\<close> as \<open>b\<close>, and at least its child buffers.\<close>

definition agree :: "nat \<Rightarrow> nat \<Rightarrow> RecordBuffer \<Rightarrow> RecordBuffer \<Rightarrow> bool" where
  "agree a n b b' \<longleftrightarrow> length (bufferBytes b') = length (bufferBytes b)
     \<and> take n (drop a (bufferBytes b')) = take n (drop a (bufferBytes b)) \<and> take (length (children b)) (children b') = children b"

lemma agree_trans: "agree a n b b' \<Longrightarrow> agree a n b' b'' \<Longrightarrow> agree a n b b''"
  by (auto simp: agree_def) (metis length_take min_def nle_le take_take)

lemma agree_refl [simp]: "agree a n b b"
  by (simp add: agree_def)

lemma length_bytesOf [simp]: "length (bytesOf n v) = n"
  by (simp add: bytesOf_def)

lemma bytesOf_littleEndian: "length bs = n \<Longrightarrow> bytesOf n (littleEndian bs) = bs"
proof (induction bs arbitrary: n)
  case (Cons b bs)
  then obtain m where [simp]: "n = Suc m" "length bs = m" by (cases n) auto
  have b: "unat b < 256" using unsigned_less [of b] by simp
  then have "(unat b + 256 * littleEndian bs) mod 256 = unat b" "(unat b + 256 * littleEndian bs) div 256 = littleEndian bs" by auto
  then show ?case using Cons.IH [of m] by (simp add: bytesOf_Suc)
qed (simp add: bytesOf_def)

lemma poke_ok:
  assumes "unat a + length bs \<le> length mem"
  obtains mem' where "poke mem a bs = Inr mem'" "length mem' = length mem" "take (length bs) (drop (unat a) mem') = bs"
    "\<And>a' n. a' + n \<le> unat a \<or> unat a + length bs \<le> a' \<Longrightarrow> take n (drop a' mem') = take n (drop a' mem)"
proof -
  let ?mem' = "take (unat a) mem @ bs @ drop (unat a + length bs) mem"
  have "take n (drop a' ?mem') = take n (drop a' mem)" if "a' + n \<le> unat a \<or> unat a + length bs \<le> a'" for a' n
  proof (rule nth_equalityI)
    have "length ?mem' = length mem" using assms by simp
    then show "length (take n (drop a' ?mem')) = length (take n (drop a' mem))" by (simp only: length_take length_drop)
    show "take n (drop a' ?mem') ! i = take n (drop a' mem) ! i" if "i < length (take n (drop a' ?mem'))" for i
      using that assms \<open>a' + n \<le> unat a \<or> unat a + length bs \<le> a'\<close> by (auto simp: nth_append)
  qed
  then show thesis using that [of ?mem'] assms by (simp add: poke_def)
qed

lemma scalar_size: "type \<in> set scalarTypes \<Longrightarrow> type \<noteq> VARSIZED \<and> type \<noteq> UNDEFINED"
  by (auto simp: scalarTypes_def)

lemma load_frame:
  assumes "loadValue type b a = Inr v" "agree (unat a) (sizeOfType type) b b'"
  shows "loadValue type b' a = Inr v"
proof (cases "type = VARSIZED")
  case True
  then have four: "sizeOfType type = 4" by (simp add: sizeOfType_def)
  obtain bs where bs: "peek (bufferBytes b) a 4 = Inr bs" "andThen (loadChildBuffer b (of_nat (littleEndian bs))) fromPointer = Inr v"
    using assms(1) True by (auto simp: loadValue_def andThen_eq_Inr)
  have "peek (bufferBytes b') a 4 = Inr bs" using bs(1) assms(2) four by (auto simp: peek_def agree_def split: if_splits)
  moreover have "loadChildBuffer b' i = Inr c" if "loadChildBuffer b i = Inr c" for i c
  proof -
    have i: "unat (ucast i :: 16 word) < length (children b)" "children b ! unat (ucast i :: 16 word) = c"
      using that by (auto simp: loadChildBuffer_def Let_def andThen_eq_Inr PRECONDITION_def split: if_splits)
    have t: "take (length (children b)) (children b') = children b" using assms(2) by (simp add: agree_def)
    then have "length (children b) \<le> length (children b')" by (metis length_take min_def nle_le)
    then show ?thesis using i arg_cong [OF t, of "\<lambda>xs. xs ! unat (ucast i :: 16 word)"] by (simp add: loadChildBuffer_def PRECONDITION_def Let_def)
  qed
  ultimately show ?thesis using True bs(2) by (auto simp: loadValue_def andThen_eq_Inr)
next
  case False
  then show ?thesis using assms by (auto simp: loadValue_def readVarValFromMemory_def peek_def agree_def split: if_splits)
qed

lemma store_ok:
  assumes "value_ok type v" "unat a + sizeOfType type \<le> length (bufferBytes b)" "length (children b) < 65536"
  obtains b' where "storeValue convertFloat True type b a v = Inr b'" "loadValue type b' a = Inr v"
    "length (bufferBytes b') = length (bufferBytes b)" "length (children b') \<le> length (children b) + 1"
    "\<And>a' n. a' + n \<le> unat a \<or> unat a + sizeOfType type \<le> a' \<Longrightarrow> agree a' n b b'"
proof (cases v)
  case (Scalar t bits)
  then have t: "t = type" "type \<in> set scalarTypes" "bits < 256 ^ sizeOfType type" using assms(1) by (auto simp: value_ok_def)
  obtain mem' where mem': "poke (bufferBytes b) a (bytesOf (sizeOfType type) bits) = Inr mem'" "length mem' = length (bufferBytes b)"
    "take (sizeOfType type) (drop (unat a) mem') = bytesOf (sizeOfType type) bits"
    "\<And>a' n. a' + n \<le> unat a \<or> unat a + sizeOfType type \<le> a' \<Longrightarrow> take n (drop a' mem') = take n (drop a' (bufferBytes b))"
    using poke_ok [of a "bytesOf (sizeOfType type) bits" "bufferBytes b"] assms(2) by auto
  have "littleEndian (bytesOf (sizeOfType type) bits) = bits" using littleEndian_bytesOf t(3) by simp
  then show thesis using that [of "b\<lparr>bufferBytes := mem'\<rparr>"] Scalar t mem' assms(2) scalar_size [OF t(2)]
    by (simp add: storeValue_def castToType_def castScalar_def writeToMemory_def loadValue_def readVarValFromMemory_def peek_def agree_def)
next
  case (VariableSizedData n mem)
  then have type: "type = VARSIZED" "littleEndian (take 4 mem) = unat n" "length mem = 4 + unat n" using assms(1) by (auto simp: value_ok_def)
  let ?child = "bytesOf 4 (unat n) @ take (unat n) (drop 4 mem)" and ?index = "of_nat (length (children b)) :: u32"
  let ?b = "b\<lparr>children := children b @ [?child]\<rparr>"
  have four: "sizeOfType type = 4" using type by (simp add: sizeOfType_def)
  have n: "unat n < 256 ^ 4" using unsigned_less [of n] by simp
  obtain mem' where mem': "poke (bufferBytes b) a (bytesOf 4 (unat ?index)) = Inr mem'" "length mem' = length (bufferBytes b)"
    "take 4 (drop (unat a) mem') = bytesOf 4 (unat ?index)"
    "\<And>a' n. a' + n \<le> unat a \<or> unat a + 4 \<le> a' \<Longrightarrow> take n (drop a' mem') = take n (drop a' (bufferBytes b))"
    using poke_ok [of a "bytesOf 4 (unat ?index)" "bufferBytes b"] assms(2) four by auto
  have child: "?child = mem"
    using bytesOf_littleEndian [of "take 4 mem" 4] type(2,3) append_take_drop_id [of 4 mem] by simp
  have store: "storeValue convertFloat True type b a v = Inr (?b\<lparr>bufferBytes := mem'\<rparr>)"
    using VariableSizedData type mem'(1) by (simp add: storeValue_def storeAssociatedTextValueProxy_def readBytes_def PRECONDITION_def storeChildBuffer_def)
  have small: "unat ?index = length (children b)"
    using assms(3) by (simp add: unsigned_of_nat take_bit_nat_eq_self)
  have index: "unat (ucast (of_nat (length (children b)) :: u32) :: 16 word) = length (children b)"
    using assms(3) by (simp add: unsigned_ucast_eq take_bit_nat_eq_self unsigned_of_nat)
  have bytes: "peek mem' a 4 = Inr (bytesOf 4 (length (children b)))" "littleEndian (bytesOf 4 (length (children b))) = length (children b)"
    using mem'(2,3) assms(2,3) four small littleEndian_bytesOf [of 4 "length (children b)"] by (simp_all add: peek_def)
  have "loadValue type (?b\<lparr>bufferBytes := mem'\<rparr>) a = fromPointer mem"
    using type(1) index child bytes by (simp add: loadValue_def loadChildBuffer_def PRECONDITION_def Let_def)
  then have "loadValue type (?b\<lparr>bufferBytes := mem'\<rparr>) a = Inr v"
    using type(2,3) VariableSizedData by (simp add: fromPointer_def readBytes_def)
  then show thesis using that [OF store] mem'(2,4) four by (simp add: agree_def)
qed

section \<open>Records in cells\<close>

text \<open>A layout whose cells have the sizes of the fields holds records: what is written at an index is read there, and
  no other record changes.\<close>

locale record_cells = field_cells valid cellSizes tuples bufferBound address
  for valid :: "'l \<Rightarrow> bool" and cellSizes :: "'l \<Rightarrow> nat list" and tuples :: "'l \<Rightarrow> nat" and bufferBound :: "'l \<Rightarrow> nat"
    and address :: "'l \<Rightarrow> u64 \<Rightarrow> u64 \<Rightarrow> u64 result" +
  fixes layoutFields :: "'l \<Rightarrow> Field list"
  assumes cell_sizes: "valid l \<Longrightarrow> cellSizes l = map (\<lambda>f. sizeOfType (fieldType f)) (layoutFields l)"
    and fields_bound: "valid l \<Longrightarrow> length (layoutFields l) < 2 ^ 64"
begin

lemma field_cell:
  assumes "valid l" "unat t < tuples l" "j < length (layoutFields l)"
  obtains a where "address l t (of_nat j) = Inr a" "unat a + sizeOfType (fieldType (layoutFields l ! j)) \<le> bufferBound l"
proof -
  have j: "unat (of_nat j :: u64) = j" using assms(3) fields_bound [OF assms(1)] by (intro unat_of_nat_u64) simp
  obtain a where "address l t (of_nat j) = Inr a" "unat a + cellSizes l ! j \<le> bufferBound l"
    using in_buffer [OF assms(1,2), of "of_nat j"] j assms(3) cell_sizes [OF assms(1)] by auto
  then show thesis using that assms(3) cell_sizes [OF assms(1)] by simp
qed

lemma field_cells_apart:
  assumes "valid l" "unat t < tuples l" "j < length (layoutFields l)" "unat t' < tuples l" "j' < length (layoutFields l)"
    "t' \<noteq> t \<or> j' \<noteq> j" "address l t (of_nat j) = Inr a" "address l t' (of_nat j') = Inr a'"
  shows "unat a' + sizeOfType (fieldType (layoutFields l ! j')) \<le> unat a \<or> unat a + sizeOfType (fieldType (layoutFields l ! j)) \<le> unat a'"
proof -
  have j: "unat (of_nat j :: u64) = j" "unat (of_nat j' :: u64) = j'"
    using assms(3,5) fields_bound [OF assms(1)] by (auto intro: unat_of_nat_u64)
  then have "(t, of_nat j :: u64) \<noteq> (t', of_nat j')" using assms(6) by auto
  then show ?thesis using disjoint [OF assms(1,2) _ assms(4) _ _ assms(7,8)] j assms(3,5) cell_sizes [OF assms(1)] by auto
qed

lemma write_fields:
  assumes "valid l" "unat t < tuples l" "k \<le> length (layoutFields l)" "length (bufferBytes b) = bufferBound l"
    "\<forall>f \<in> set (layoutFields l). \<exists>v. r (fieldName f) = Some v \<and> value_ok (fieldType f) v"
    "length (children b) + (length (layoutFields l) - k) \<le> 65536"
  shows "\<exists>b'. writeFields convertFloat True (address l t) r (drop k (layoutFields l)) (of_nat k) b = Inr b'
    \<and> length (bufferBytes b') = bufferBound l
    \<and> (\<forall>j a. k \<le> j \<and> j < length (layoutFields l) \<and> address l t (of_nat j) = Inr a \<longrightarrow>
          loadValue (fieldType (layoutFields l ! j)) b' a = Inr (the (r (fieldName (layoutFields l ! j)))))
    \<and> (\<forall>t' j a. unat t' < tuples l \<and> j < length (layoutFields l) \<and> (t' \<noteq> t \<or> j < k) \<and> address l t' (of_nat j) = Inr a \<longrightarrow>
          agree (unat a) (sizeOfType (fieldType (layoutFields l ! j))) b b')"
  using assms
proof (induction "length (layoutFields l) - k" arbitrary: k b)
  case 0
  then show ?case by auto
next
  case (Suc d)
  let ?fs = "layoutFields l"
  have k: "k < length ?fs" "drop k ?fs = ?fs ! k # drop (Suc k) ?fs" using Suc.hyps(2) by (auto simp: Cons_nth_drop_Suc)
  obtain a where a: "address l t (of_nat k) = Inr a" "unat a + sizeOfType (fieldType (?fs ! k)) \<le> length (bufferBytes b)"
    using field_cell [OF Suc.prems(1,2) k(1)] Suc.prems(4) by metis
  obtain v where v: "r (fieldName (?fs ! k)) = Some v" "value_ok (fieldType (?fs ! k)) v"
    using Suc.prems(5) k(1) nth_mem by blast
  have few: "length (children b) < 65536" using Suc.prems(6) k(1) by linarith
  obtain b1 where b1: "storeValue convertFloat True (fieldType (?fs ! k)) b a v = Inr b1" "loadValue (fieldType (?fs ! k)) b1 a = Inr v"
    "length (bufferBytes b1) = length (bufferBytes b)" "length (children b1) \<le> length (children b) + 1"
    "\<And>a' n. a' + n \<le> unat a \<or> unat a + sizeOfType (fieldType (?fs ! k)) \<le> a' \<Longrightarrow> agree a' n b b1"
    using store_ok [OF v(2) a(2) few, where convertFloat = convertFloat] by metis
  have d: "d = length ?fs - Suc k" "Suc k \<le> length ?fs" "length (children b1) + (length ?fs - Suc k) \<le> 65536"
    "length (bufferBytes b1) = bufferBound l"
    using Suc.hyps(2) Suc.prems(4,6) b1(3,4) k(1) by auto
  obtain b' where b': "writeFields convertFloat True (address l t) r (drop (Suc k) ?fs) (of_nat (Suc k)) b1 = Inr b'"
    "length (bufferBytes b') = bufferBound l"
    "\<And>j a. Suc k \<le> j \<Longrightarrow> j < length ?fs \<Longrightarrow> address l t (of_nat j) = Inr a \<Longrightarrow>
       loadValue (fieldType (?fs ! j)) b' a = Inr (the (r (fieldName (?fs ! j))))"
    "\<And>t' j a. unat t' < tuples l \<Longrightarrow> j < length ?fs \<Longrightarrow> t' \<noteq> t \<or> j < Suc k \<Longrightarrow> address l t' (of_nat j) = Inr a \<Longrightarrow>
       agree (unat a) (sizeOfType (fieldType (?fs ! j))) b1 b'"
    using Suc.hyps(1) [OF d(1) Suc.prems(1,2) d(2,4) Suc.prems(5) d(3)] by blast
  have "writeFields convertFloat True (address l t) r (drop k ?fs) (of_nat k) b = Inr b'"
    using b'(1) a(1) v(1) b1(1) by (simp add: k(2) record_read_def add.commute)
  moreover have "loadValue (fieldType (?fs ! j)) b' a' = Inr (the (r (fieldName (?fs ! j))))"
    if "k \<le> j" "j < length ?fs" "address l t (of_nat j) = Inr a'" for j a'
  proof (cases "j = k")
    case True
    then have "agree (unat a) (sizeOfType (fieldType (?fs ! k))) b1 b'" "a' = a"
      using b'(4) [OF Suc.prems(2) k(1) _ a(1)] a(1) that(3) by auto
    then show ?thesis using load_frame [OF b1(2)] True v(1) by simp
  qed (use b'(3) that in auto)
  moreover have "agree (unat a') (sizeOfType (fieldType (?fs ! j))) b b'"
    if "unat t' < tuples l" "j < length ?fs" "t' \<noteq> t \<or> j < k" "address l t' (of_nat j) = Inr a'" for t' j a'
  proof (rule agree_trans)
    have "t' \<noteq> t \<or> j \<noteq> k" using that(3) by auto
    then show "agree (unat a') (sizeOfType (fieldType (?fs ! j))) b b1"
      by (intro b1(5) field_cells_apart [OF Suc.prems(1,2) k(1) that(1,2) _ a(1) that(4)])
    show "agree (unat a') (sizeOfType (fieldType (?fs ! j))) b1 b'" using b'(4) [OF that(1,2) _ that(4)] that(3) by auto
  qed
  ultimately show ?case using b'(2) by blast
qed

lemma read_fields:
  assumes "valid l" "unat t < tuples l" "k \<le> length (layoutFields l)"
    "\<And>j a. j < length (layoutFields l) \<Longrightarrow> address l t (of_nat j) = Inr a \<Longrightarrow>
       loadValue (fieldType (layoutFields l ! j)) b a = Inr (g (fieldName (layoutFields l ! j)))"
  shows "readFields (address l t) projections b (drop k (layoutFields l)) (of_nat k) r0 =
     Inr (\<lambda>n. if n \<in> set projections \<and> n \<in> fieldName ` set (drop k (layoutFields l)) then Some (g n) else r0 n)"
  using assms(3)
proof (induction "length (layoutFields l) - k" arbitrary: k r0)
  case (Suc d)
  let ?fs = "layoutFields l"
  have k: "k < length ?fs" "drop k ?fs = ?fs ! k # drop (Suc k) ?fs" using Suc.hyps(2) by (auto simp: Cons_nth_drop_Suc)
  obtain a where a: "address l t (of_nat k) = Inr a" using field_cell [OF assms(1,2) k(1)] by metis
  have IH: "readFields (address l t) projections b (drop (Suc k) ?fs) (of_nat k + 1) r =
     Inr (\<lambda>n. if n \<in> set projections \<and> n \<in> fieldName ` set (drop (Suc k) ?fs) then Some (g n) else r n)" for r
    using Suc.hyps(1) [of "Suc k" r] Suc.hyps(2) k(1) by (simp add: add.commute)
  show ?case using assms(4) [OF k(1) a] a IH
    by (auto simp: k(2) includesField_def record_write_def fun_eq_iff)
qed simp

lemma read_frame:
  assumes "valid l" "unat t < tuples l" "k \<le> length (layoutFields l)"
    "readFields (address l t) projections b (drop k (layoutFields l)) (of_nat k) r0 = Inr r"
    "\<And>j a. j < length (layoutFields l) \<Longrightarrow> address l t (of_nat j) = Inr a \<Longrightarrow>
       agree (unat a) (sizeOfType (fieldType (layoutFields l ! j))) b b'"
  shows "readFields (address l t) projections b' (drop k (layoutFields l)) (of_nat k) r0 = Inr r"
  using assms(3,4)
proof (induction "length (layoutFields l) - k" arbitrary: k r0)
  case (Suc d)
  let ?fs = "layoutFields l"
  have k: "k < length ?fs" "drop k ?fs = ?fs ! k # drop (Suc k) ?fs" using Suc.hyps(2) by (auto simp: Cons_nth_drop_Suc)
  obtain a where a: "address l t (of_nat k) = Inr a" using field_cell [OF assms(1,2) k(1)] by metis
  have frame: "loadValue (fieldType (?fs ! k)) b' a = Inr v" if "loadValue (fieldType (?fs ! k)) b a = Inr v" for v
    using load_frame [OF that assms(5) [OF k(1) a]] .
  have IH: "readFields (address l t) projections b' (drop (Suc k) ?fs) (of_nat k + 1) r1 = Inr r"
    if "readFields (address l t) projections b (drop (Suc k) ?fs) (of_nat k + 1) r1 = Inr r" for r1
    using Suc.hyps(1) [of "Suc k" r1] Suc.hyps(2) k(1) that by (simp add: add.commute)
  show ?case using Suc.prems(2) a frame IH by (auto simp: k(2) andThen_eq_Inr split: if_splits)
qed simp

lemma write_read:
  assumes "valid l" "unat t < tuples l" "length (bufferBytes b) = bufferBound l"
    "\<forall>f \<in> set (layoutFields l). \<exists>v. r (fieldName f) = Some v \<and> value_ok (fieldType f) v"
    "length (children b) + length (layoutFields l) \<le> 65536"
  shows "\<exists>b'. writeFields convertFloat True (address l t) r (layoutFields l) 0 b = Inr b' \<and> length (bufferBytes b') = bufferBound l
     \<and> readFields (address l t) projections b' (layoutFields l) 0 Map.empty = Inr (r |` (set projections \<inter> fieldName ` set (layoutFields l)))
     \<and> (\<forall>t' r'. unat t' < tuples l \<and> t' \<noteq> t \<and> readFields (address l t') projections b (layoutFields l) 0 Map.empty = Inr r' \<longrightarrow>
          readFields (address l t') projections b' (layoutFields l) 0 Map.empty = Inr r')"
proof -
  let ?fs = "layoutFields l"
  obtain b' where b': "writeFields convertFloat True (address l t) r ?fs 0 b = Inr b'" "length (bufferBytes b') = bufferBound l"
    "\<And>j a. j < length ?fs \<Longrightarrow> address l t (of_nat j) = Inr a \<Longrightarrow>
       loadValue (fieldType (?fs ! j)) b' a = Inr (the (r (fieldName (?fs ! j))))"
    "\<And>t' j a. unat t' < tuples l \<Longrightarrow> j < length ?fs \<Longrightarrow> t' \<noteq> t \<Longrightarrow> address l t' (of_nat j) = Inr a \<Longrightarrow>
       agree (unat a) (sizeOfType (fieldType (?fs ! j))) b b'"
    using write_fields [OF assms(1,2) _ assms(3,4), of 0 convertFloat] assms(5) by (auto simp: Ball_def)
  have "readFields (address l t) projections b' ?fs 0 Map.empty = Inr (\<lambda>n. if n \<in> set projections \<and> n \<in> fieldName ` set ?fs then Some (the (r n)) else None)"
    using read_fields [OF assms(1,2), of 0 b' "\<lambda>n. the (r n)" projections Map.empty] b'(3) by simp
  also have "(\<lambda>n. if n \<in> set projections \<and> n \<in> fieldName ` set ?fs then Some (the (r n)) else None) = r |` (set projections \<inter> fieldName ` set ?fs)"
    using assms(4) by (fastforce simp: restrict_map_def fun_eq_iff)
  finally show ?thesis using b' read_frame [OF assms(1), where k = 0 and b = b and b' = b' and projections = projections] by auto
qed

end

lemma row_address_eq:
  assumes "row_valid l" "unat t < unat (capacity l)" "unat f < length (schemaSizes l)"
  shows "row_calculateFieldAddress l (recordSize l * t) f = row_getFieldOffset l t f"
proof -
  obtain a where "row_getFieldOffset l t f = Inr a" using row_address [OF assms] by blast
  then show ?thesis
    by (auto simp: row_getFieldOffset_def row_calculateFieldAddress_def row_fieldOffset_def PRECONDITION_def mult.commute split: if_splits)
qed

lemma column_address_eq:
  assumes "column_valid l" "unat t < unat (capacity l)" "unat f < length (schemaSizes l)"
  shows "column_calculateFieldAddress l t f = column_getFieldOffset l t f"
proof -
  obtain a where "column_getFieldOffset l t f = Inr a" using column_address [OF assms] by blast
  then show ?thesis
    by (auto simp: column_getFieldOffset_def column_calculateFieldAddress_def getFieldSize_def split: if_splits)
qed

lemma schemaSizes_fields: "schemaSizes l = map (\<lambda>f. sizeOfType (fieldType f)) (schemaFields (layoutSchema l))"
  by (simp add: schemaSizes_def sizesOf_def sizeOfType_def)

interpretation row_records: record_cells row_valid schemaSizes "\<lambda>l. unat (capacity l)" "\<lambda>l. unat (bufferSize l)"
  "\<lambda>l t. row_calculateFieldAddress l (recordSize l * t)" "\<lambda>l. schemaFields (layoutSchema l)"
proof unfold_locales
  fix l and t f t' f' a a' :: u64
  assume c: "row_valid l" "unat t < unat (capacity l)" "unat f < length (schemaSizes l)"
  show "\<exists>a. row_calculateFieldAddress l (recordSize l * t) f = Inr a \<and> unat a + schemaSizes l ! unat f \<le> unat (bufferSize l)"
    using row_cells.in_buffer [OF c] row_address_eq [OF c] by simp
  assume "unat t' < unat (capacity l)" "unat f' < length (schemaSizes l)" "(t, f) \<noteq> (t', f')"
    "row_calculateFieldAddress l (recordSize l * t) f = Inr a" "row_calculateFieldAddress l (recordSize l * t') f' = Inr a'"
  then show "unat a + schemaSizes l ! unat f \<le> unat a' \<or> unat a' + schemaSizes l ! unat f' \<le> unat a"
    using row_cells.disjoint [OF c] row_address_eq c by simp
qed (simp_all add: schemaSizes_fields row_valid_def fits_def)

interpretation column_records: record_cells column_valid schemaSizes "\<lambda>l. unat (capacity l)" "\<lambda>l. unat (bufferSize l)"
  column_calculateFieldAddress "\<lambda>l. schemaFields (layoutSchema l)"
proof unfold_locales
  fix l and t f t' f' a a' :: u64
  assume c: "column_valid l" "unat t < unat (capacity l)" "unat f < length (schemaSizes l)"
  show "\<exists>a. column_calculateFieldAddress l t f = Inr a \<and> unat a + schemaSizes l ! unat f \<le> unat (bufferSize l)"
    using column_cells.in_buffer [OF c] column_address_eq [OF c] by simp
  assume "unat t' < unat (capacity l)" "unat f' < length (schemaSizes l)" "(t, f) \<noteq> (t', f')"
    "column_calculateFieldAddress l t f = Inr a" "column_calculateFieldAddress l t' f' = Inr a'"
  then show "unat a + schemaSizes l ! unat f \<le> unat a' \<or> unat a' + schemaSizes l ! unat f' \<le> unat a"
    using column_cells.disjoint [OF c] column_address_eq c by simp
qed (simp_all add: schemaSizes_fields column_valid_def fits_def)

section \<open>Properties\<close>

text \<open>C14. A record written through the row provider, at any index below the capacity of a buffer of the layout's size,
  is read back with exactly the projected fields, variable-sized ones included, and every other record of the
  buffer reads as before; the writes succeed and stay inside the buffer.\<close>

theorem row_record_roundtrip:
  assumes "fits schema" "l = newRowLayout bufSize schema" "unat i < unat (capacity l)" "length (bufferBytes b) = unat bufSize"
    "\<forall>f \<in> set (schemaFields schema). \<exists>v. r (fieldName f) = Some v \<and> value_ok (fieldType f) v"
    "length (children b) + length (schemaFields schema) \<le> 65536"
  shows "\<exists>b'. row_writeRecord convertFloat True l i b r = Inr b' \<and> length (bufferBytes b') = unat bufSize
     \<and> row_readRecord l projections b' i = Inr (r |` (set projections \<inter> fieldName ` set (schemaFields schema)))
     \<and> (\<forall>j r'. unat j < unat (capacity l) \<and> j \<noteq> i \<and> row_readRecord l projections b j = Inr r' \<longrightarrow> row_readRecord l projections b' j = Inr r')"
proof -
  have "row_valid l" "layoutSchema l = schema" "bufferSize l = bufSize"
    using assms(1,2) newMemoryLayout_fields(5,6) [OF assms(1), of bufSize] by (simp_all add: row_valid_def newRowLayout_fields)
  then show ?thesis using row_records.write_read [of l i b r convertFloat projections] assms(3-)
    by (simp add: row_readRecord_def row_writeRecord_def)
qed

theorem row_record_roundtrip_witness:
  "\<exists>b'. row_writeRecord (\<lambda>t t' v. v) True (newRowLayout 4 (addField (newSchema ROW_LAYOUT) ''a'' UINT8)) 2
         \<lparr>bufferBytes = [0, 0, 0, 0], children = []\<rparr> [''a'' \<mapsto> Scalar UINT8 7] = Inr b'
     \<and> row_readRecord (newRowLayout 4 (addField (newSchema ROW_LAYOUT) ''a'' UINT8)) [''a''] b' 2 = Inr [''a'' \<mapsto> Scalar UINT8 7]"
proof -
  let ?s = "addField (newSchema ROW_LAYOUT) ''a'' UINT8"
  have s: "sizesOf ?s = [1]" "schemaFields ?s = [\<lparr>fieldName = ''a'', fieldType = UINT8\<rparr>]" by (simp_all add: sizesOf_def addField_def newSchema_def)
  then have fits: "fits ?s" by (simp add: fits_def)
  have "unat (capacity (newRowLayout 4 ?s)) = 4" using fits s by (simp add: newRowLayout_fields newMemoryLayout_fields)
  then show ?thesis
    using row_record_roundtrip [OF fits refl, where bufSize = 4 and i = 2 and b = "\<lparr>bufferBytes = [0, 0, 0, 0], children = []\<rparr>"
        and r = "[''a'' \<mapsto> Scalar UINT8 7]" and convertFloat = "\<lambda>t t' v. v" and projections = "[''a'']"] s
    by (auto simp: value_ok_def scalarTypes_def sizeOfType_def)
qed

text \<open>C16. The column provider has the same property.\<close>

theorem column_record_roundtrip:
  assumes "fits schema" "l = newColumnLayout bufSize schema" "unat i < unat (capacity l)" "length (bufferBytes b) = unat bufSize"
    "\<forall>f \<in> set (schemaFields schema). \<exists>v. r (fieldName f) = Some v \<and> value_ok (fieldType f) v"
    "length (children b) + length (schemaFields schema) \<le> 65536"
  shows "\<exists>b'. column_writeRecord convertFloat True l i b r = Inr b' \<and> length (bufferBytes b') = unat bufSize
     \<and> column_readRecord l projections b' i = Inr (r |` (set projections \<inter> fieldName ` set (schemaFields schema)))
     \<and> (\<forall>j r'. unat j < unat (capacity l) \<and> j \<noteq> i \<and> column_readRecord l projections b j = Inr r' \<longrightarrow> column_readRecord l projections b' j = Inr r')"
proof -
  have "column_valid l" "layoutSchema l = schema" "bufferSize l = bufSize"
    using assms(1,2) newMemoryLayout_fields(5,6) [OF assms(1), of bufSize] by (simp_all add: column_valid_def newColumnLayout_fields)
  then show ?thesis using column_records.write_read [of l i b r convertFloat projections] assms(3-)
    by (simp add: column_readRecord_def column_writeRecord_def)
qed

theorem column_record_roundtrip_witness:
  "\<exists>b'. column_writeRecord (\<lambda>t t' v. v) True (newColumnLayout 4 (addField (newSchema ROW_LAYOUT) ''a'' UINT8)) 2
         \<lparr>bufferBytes = [0, 0, 0, 0], children = []\<rparr> [''a'' \<mapsto> Scalar UINT8 7] = Inr b'
     \<and> column_readRecord (newColumnLayout 4 (addField (newSchema ROW_LAYOUT) ''a'' UINT8)) [''a''] b' 2 = Inr [''a'' \<mapsto> Scalar UINT8 7]"
proof -
  let ?s = "addField (newSchema ROW_LAYOUT) ''a'' UINT8"
  have s: "sizesOf ?s = [1]" "schemaFields ?s = [\<lparr>fieldName = ''a'', fieldType = UINT8\<rparr>]" by (simp_all add: sizesOf_def addField_def newSchema_def)
  then have fits: "fits ?s" by (simp add: fits_def)
  have "unat (capacity (newColumnLayout 4 ?s)) = 4" using fits s by (simp add: newColumnLayout_fields newMemoryLayout_fields)
  then show ?thesis
    using column_record_roundtrip [OF fits refl, where bufSize = 4 and i = 2 and b = "\<lparr>bufferBytes = [0, 0, 0, 0], children = []\<rparr>"
        and r = "[''a'' \<mapsto> Scalar UINT8 7]" and convertFloat = "\<lambda>t t' v. v" and projections = "[''a'']"] s
    by (auto simp: value_ok_def scalarTypes_def sizeOfType_def)
qed

text \<open>No variable-sized value is valid: the two preconditions contradict each other.\<close>

lemma isValid_always_fails: "isValid n ptr = Inl PreconditionViolated"
  by (auto simp: isValid_def PRECONDITION_def)

text \<open>The child buffer with index 65536 cannot be loaded; the first one is returned in its place.\<close>

lemma child_index_wraps: "children b = c # cs \<Longrightarrow> loadChildBuffer b 65536 = Inr c"
  by (simp add: loadChildBuffer_def PRECONDITION_def)

end
