(* ===== verification/BufferMemory.thy ===== *)
theory BufferMemory
  imports Prelude "HOL-Library.Multiset"
begin

text \<open>
  Reference-counted tuple buffers and the pools they come from (\<open>src/nes-memory\<close>): the control block of a segment
  and its reference counter (\<open>TupleBufferImpl.cpp\<close>), the handle \<open>TupleBuffer\<close> (\<open>TupleBuffer.cpp\<close>), the global
  \<open>BufferManager\<close> and the \<open>FixedSizeBufferPool\<close>s it gives segments to.

  A segment is its position in \<open>allBuffers\<close>, a pool its position in \<open>localBufferPools\<close>, and a \<open>TupleBuffer\<close> is
  the segment of its control block or \<open>None\<close> for the empty handle; the address and size of a handle are those of
  its segment. The queues are \<open>folly::MPMCQueue\<close>s, which are not part of the sources: the operations the code
  calls are the record \<open>MPMCQueue\<close>, an argument of every definition that uses them, and the locale
  \<open>mpmc_queue\<close> states what their documentation promises of a call that is not overlapped by another. The
  operating system's memory figures and the allocated address are arguments as well.

  \<open>release\<close> calls itself on the children of a buffer. The depth of these calls is bounded by fuel; the number of
  buffers is enough, as every level brings the counter of a further buffer to zero (lemma \<open>release_ok\<close>).
\<close>

unbundle bit_operations_syntax

section \<open>Queues\<close>

record 'q MPMCQueue =
  newQueue :: "nat \<Rightarrow> 'q"
  writeQueue :: "nat \<Rightarrow> 'q \<Rightarrow> bool \<times> 'q"
  readQueue :: "'q \<Rightarrow> (nat \<times> 'q) option"
  sizeQueue :: "'q \<Rightarrow> int"

section \<open>Segments, control blocks and pools\<close>

datatype BufferRecycler = GlobalManager | LocalPool nat

record BufferControlBlock =
  referenceCounter :: u32
  numberOfTuples :: u32
  cbWatermark :: u64
  cbSequenceNumber :: u64
  cbChunkNumber :: u64
  cbLastChunk :: bool
  creationTimestamp :: u64
  cbOriginId :: u64
  children :: "nat list"
  owningBufferRecycler :: "BufferRecycler option"

definition newControlBlock :: BufferControlBlock where
  "newControlBlock =
     \<lparr>referenceCounter = 0, numberOfTuples = 0, cbWatermark = 0, cbSequenceNumber = 0, cbChunkNumber = 0,
      cbLastChunk = True, creationTimestamp = 0, cbOriginId = 0, children = [], owningBufferRecycler = None\<rparr>"

record MemorySegment =
  segmentPtr :: u64
  segmentSize :: u32
  controlBlock :: BufferControlBlock

definition newMemorySegment :: "u64 \<Rightarrow> u32 \<Rightarrow> MemorySegment result" where
  "newMemorySegment ptr sz =
     andThen (INVARIANT (ptr \<noteq> 0)) (\<lambda>_.
     andThen (INVARIANT (sz \<noteq> 0)) (\<lambda>_. Inr \<lparr>segmentPtr = ptr, segmentSize = sz, controlBlock = newControlBlock\<rparr>))"

record 'q FixedSizeBufferPool =
  exclusiveBuffers :: 'q
  numberOfReservedBuffers :: u64
  poolDestroyed :: bool

record 'q BufferManager =
  allBuffers :: "MemorySegment list"
  availableBuffers :: 'q
  numOfAvailableBuffers :: u64
  bufferSize :: u64
  numOfBuffers :: u64
  basePointer :: u64
  allocatedAreaSize :: u64
  localBufferPools :: "'q FixedSizeBufferPool list"
  managerDestroyed :: bool

definition block :: "'q BufferManager \<Rightarrow> nat \<Rightarrow> BufferControlBlock" where
  "block m s = controlBlock (allBuffers m ! s)"

definition updateBlock :: "nat \<Rightarrow> (BufferControlBlock \<Rightarrow> BufferControlBlock) \<Rightarrow> 'q BufferManager \<Rightarrow> 'q BufferManager" where
  "updateBlock s f m =
     m\<lparr>allBuffers := (allBuffers m)[s := (allBuffers m ! s)\<lparr>controlBlock := f (block m s)\<rparr>]\<rparr>"

section \<open>Construction\<close>

definition alignBufferSize :: "u32 \<Rightarrow> u32 \<Rightarrow> u32" where
  "alignBufferSize sz withAlignment =
     (if sz mod withAlignment \<noteq> 0 then sz + (withAlignment - sz mod withAlignment) else sz)"

text \<open>The loop of \<open>initialize\<close> over the remaining segments: \<open>ptr\<close> is the address of the next control block and
  \<open>i\<close> the number of segments already created.\<close>

fun createSegments ::
  "'q MPMCQueue \<Rightarrow> nat \<Rightarrow> u64 \<Rightarrow> u64 \<Rightarrow> u32 \<Rightarrow> nat \<Rightarrow> u64 \<Rightarrow> MemorySegment list \<times> 'q \<Rightarrow> (MemorySegment list \<times> 'q) result" where
  "createSegments q 0 offsetBetweenBuffers controlBlockSize sz i ptr (buffers, available) = Inr (buffers, available)"
| "createSegments q (Suc remaining) offsetBetweenBuffers controlBlockSize sz i ptr (buffers, available) =
     andThen (newMemorySegment (ptr + controlBlockSize) sz) (\<lambda>segment.
     createSegments q remaining offsetBetweenBuffers controlBlockSize sz (Suc i) (ptr + offsetBetweenBuffers)
       (buffers @ [segment], snd (writeQueue q i available)))"

definition initialize ::
  "'q MPMCQueue \<Rightarrow> u64 \<Rightarrow> u64 \<Rightarrow> u32 \<Rightarrow> u64 \<Rightarrow> u32 \<Rightarrow> 'q BufferManager \<Rightarrow> 'q BufferManager result" where
  "initialize q memorySizeInBytes page_size sizeofControlBlock allocated withAlignment m =
     andThen (INVARIANT (bufferSize m * numOfBuffers m < memorySizeInBytes)) (\<lambda>_.
     andThen (if withAlignment > 0 then PRECONDITION (withAlignment AND (withAlignment - 1) = 0) else Inr ()) (\<lambda>_.
     andThen (PRECONDITION ((ucast withAlignment :: u64) \<le> page_size)) (\<lambda>_.
     andThen (PRECONDITION (64 \<le> withAlignment)) (\<lambda>_.
     let controlBlockSize = alignBufferSize sizeofControlBlock withAlignment;
         alignedBufferSize = alignBufferSize (ucast (bufferSize m)) withAlignment;
         offsetBetweenBuffers = ucast (alignBufferSize (controlBlockSize + alignedBufferSize) withAlignment) :: u64
     in
     andThen (INVARIANT (allocated \<noteq> 0)) (\<lambda>_.
     andThen (createSegments q (unat (numOfBuffers m)) offsetBetweenBuffers (ucast controlBlockSize) (ucast (bufferSize m))
                0 allocated ([], availableBuffers m)) (\<lambda>(buffers, available).
     Inr (m\<lparr>allBuffers := buffers, availableBuffers := available, basePointer := allocated,
            allocatedAreaSize := offsetBetweenBuffers * numOfBuffers m\<rparr>)))))))"

definition DEFAULT_ALIGNMENT :: u32 where
  "DEFAULT_ALIGNMENT = 64"

definition newBufferManager ::
  "'q MPMCQueue \<Rightarrow> u64 \<Rightarrow> u64 \<Rightarrow> u32 \<Rightarrow> u64 \<Rightarrow> u32 \<Rightarrow> u32 \<Rightarrow> 'q BufferManager result" where
  "newBufferManager q memorySizeInBytes page_size sizeofControlBlock allocated sz n =
     initialize q memorySizeInBytes page_size sizeofControlBlock allocated DEFAULT_ALIGNMENT
       \<lparr>allBuffers = [], availableBuffers = newQueue q (unat n), numOfAvailableBuffers = ucast n, bufferSize = ucast sz,
        numOfBuffers = ucast n, basePointer = 0, allocatedAreaSize = 0, localBufferPools = [], managerDestroyed = False\<rparr>"

section \<open>The reference counter\<close>

definition isAvailable :: "'q BufferManager \<Rightarrow> nat \<Rightarrow> bool" where
  "isAvailable m s \<longleftrightarrow> referenceCounter (block m s) = 0"

definition prepare :: "nat \<Rightarrow> BufferRecycler \<Rightarrow> 'q BufferManager \<Rightarrow> (bool \<times> 'q BufferManager) result" where
  "prepare s recycler m =
     (if referenceCounter (block m s) = 0
      then andThen (INVARIANT (owningBufferRecycler (block m s) = None)) (\<lambda>_.
             Inr (True, updateBlock s (\<lambda>b. b\<lparr>referenceCounter := 1, owningBufferRecycler := Some recycler\<rparr>) m))
      else Inr (False, m))"

definition retain :: "nat \<Rightarrow> 'q BufferManager \<Rightarrow> 'q BufferManager" where
  "retain s m = updateBlock s (\<lambda>b. b\<lparr>referenceCounter := referenceCounter b + 1\<rparr>) m"

section \<open>Recycling\<close>

definition recyclePooledBuffer :: "'q MPMCQueue \<Rightarrow> nat \<Rightarrow> 'q BufferManager \<Rightarrow> 'q BufferManager result" where
  "recyclePooledBuffer q s m =
     andThen (INVARIANT (isAvailable m s)) (\<lambda>_.
     andThen (INVARIANT (owningBufferRecycler (block m s) = None)) (\<lambda>_.
     Inr (m\<lparr>availableBuffers := snd (writeQueue q s (availableBuffers m)),
            numOfAvailableBuffers := numOfAvailableBuffers m + 1\<rparr>)))"

text \<open>\<open>FixedSizeBufferPool::recyclePooledBuffer\<close> reads \<open>isDestroyed\<close> and then acts on the value it has read; another
  thread can run \<open>destroy\<close> in between.\<close>

definition pool_recycleAfterCheck :: "'q MPMCQueue \<Rightarrow> bool \<Rightarrow> nat \<Rightarrow> nat \<Rightarrow> 'q BufferManager \<Rightarrow> 'q BufferManager result" where
  "pool_recycleAfterCheck q destroyed p s m =
     (if destroyed then recyclePooledBuffer q s m
      else andThen (INVARIANT (isAvailable m s)) (\<lambda>_.
        Inr (m\<lparr>localBufferPools := (localBufferPools m)[p := (localBufferPools m ! p)
          \<lparr>exclusiveBuffers := snd (writeQueue q s (exclusiveBuffers (localBufferPools m ! p)))\<rparr>]\<rparr>)))"

definition pool_recyclePooledBuffer :: "'q MPMCQueue \<Rightarrow> nat \<Rightarrow> nat \<Rightarrow> 'q BufferManager \<Rightarrow> 'q BufferManager result" where
  "pool_recyclePooledBuffer q p s m = pool_recycleAfterCheck q (poolDestroyed (localBufferPools m ! p)) p s m"

fun recycleCallback :: "'q MPMCQueue \<Rightarrow> nat \<Rightarrow> BufferRecycler option \<Rightarrow> 'q BufferManager \<Rightarrow> 'q BufferManager result" where
  "recycleCallback q s (Some GlobalManager) m = recyclePooledBuffer q s m"
| "recycleCallback q s (Some (LocalPool p)) m = pool_recyclePooledBuffer q p s m"
| "recycleCallback q s None m = Inl UndefinedBehaviour"

fun releaseAll ::
  "(nat \<Rightarrow> 'q BufferManager \<Rightarrow> (bool \<times> 'q BufferManager) result) \<Rightarrow> nat list \<Rightarrow> 'q BufferManager \<Rightarrow> 'q BufferManager result" where
  "releaseAll rel [] m = Inr m"
| "releaseAll rel (c # cs) m = andThen (rel c m) (\<lambda>(_, m'). releaseAll rel cs m')"

fun release :: "nat \<Rightarrow> 'q MPMCQueue \<Rightarrow> nat \<Rightarrow> 'q BufferManager \<Rightarrow> (bool \<times> 'q BufferManager) result" where
  "release 0 q s m = Inl NonTermination"
| "release (Suc fuel) q s m =
     (let prevRefCnt = referenceCounter (block m s);
          m1 = updateBlock s (\<lambda>b. b\<lparr>referenceCounter := prevRefCnt - 1\<rparr>) m
      in if prevRefCnt = 1
         then let m2 = updateBlock s (\<lambda>b. b\<lparr>numberOfTuples := 0\<rparr>) m1 in
              andThen (releaseAll (release fuel q) (children (block m2 s)) m2) (\<lambda>m3.
              let m4 = updateBlock s (\<lambda>b. b\<lparr>children := []\<rparr>) m3;
                  recycler = owningBufferRecycler (block m4 s);
                  m5 = updateBlock s (\<lambda>b. b\<lparr>owningBufferRecycler := None\<rparr>) m4
              in andThen (recycleCallback q s recycler m5) (\<lambda>m6. Inr (True, m6)))
         else andThen (INVARIANT (prevRefCnt \<noteq> 0)) (\<lambda>_. Inr (False, m1)))"

section \<open>Taking buffers\<close>

definition takePrepared ::
  "nat \<Rightarrow> BufferRecycler \<Rightarrow> 'q BufferManager \<Rightarrow> (nat option \<times> 'q BufferManager) result" where
  "takePrepared s recycler m =
     andThen (prepare s recycler m) (\<lambda>(ok, m'). if ok then Inr (Some s, m') else Inl InvalidRefCountForBuffer)"

definition getBufferNoBlocking :: "'q MPMCQueue \<Rightarrow> 'q BufferManager \<Rightarrow> (nat option \<times> 'q BufferManager) result" where
  "getBufferNoBlocking q m =
     (case readQueue q (availableBuffers m) of
        None \<Rightarrow> Inr (None, m)
      | Some (s, rest) \<Rightarrow>
          takePrepared s GlobalManager (m\<lparr>availableBuffers := rest, numOfAvailableBuffers := numOfAvailableBuffers m - 1\<rparr>))"

text \<open>A timed read finds what the queue holds at its deadline; until then other threads may return buffers.\<close>

definition getBufferWithTimeout :: "'q MPMCQueue \<Rightarrow> 'q BufferManager \<Rightarrow> (nat option \<times> 'q BufferManager) result" where
  "getBufferWithTimeout q m =
     (case readQueue q (availableBuffers m) of
        None \<Rightarrow> Inr (None, m)
      | Some (s, rest) \<Rightarrow>
          takePrepared s GlobalManager (m\<lparr>availableBuffers := rest, numOfAvailableBuffers := numOfAvailableBuffers m - 1\<rparr>))"

definition getBufferBlocking :: "'q MPMCQueue \<Rightarrow> 'q BufferManager \<Rightarrow> (nat \<times> 'q BufferManager) result" where
  "getBufferBlocking q m =
     andThen (getBufferWithTimeout q m) (\<lambda>(buffer, m').
       case buffer of Some s \<Rightarrow> Inr (s, m') | None \<Rightarrow> Inl BufferAllocationFailure)"

definition setExclusive :: "nat \<Rightarrow> 'q \<Rightarrow> 'q BufferManager \<Rightarrow> 'q BufferManager" where
  "setExclusive p x m = m\<lparr>localBufferPools := (localBufferPools m)[p := (localBufferPools m ! p)\<lparr>exclusiveBuffers := x\<rparr>]\<rparr>"

definition pool_getBufferWithTimeout ::
  "'q MPMCQueue \<Rightarrow> nat \<Rightarrow> 'q BufferManager \<Rightarrow> (nat option \<times> 'q BufferManager) result" where
  "pool_getBufferWithTimeout q p m =
     (case readQueue q (exclusiveBuffers (localBufferPools m ! p)) of
        Some (s, rest) \<Rightarrow> takePrepared s (LocalPool p) (setExclusive p rest m)
      | None \<Rightarrow> Inr (None, m))"

text \<open>A blocking read of an empty queue returns only if another thread writes to it.\<close>

definition pool_getBufferBlocking :: "'q MPMCQueue \<Rightarrow> nat \<Rightarrow> 'q BufferManager \<Rightarrow> (nat option \<times> 'q BufferManager) result" where
  "pool_getBufferBlocking q p m =
     (case readQueue q (exclusiveBuffers (localBufferPools m ! p)) of
        Some (s, rest) \<Rightarrow> takePrepared s (LocalPool p) (setExclusive p rest m)
      | None \<Rightarrow> Inl NonTermination)"

definition pool_getBufferNoBlocking :: "'q BufferManager \<Rightarrow> (nat option \<times> 'q BufferManager) result" where
  "pool_getBufferNoBlocking m = Inl UnknownOperation"

definition pool_getAvailableBuffers :: "'q MPMCQueue \<Rightarrow> nat \<Rightarrow> 'q BufferManager \<Rightarrow> nat" where
  "pool_getAvailableBuffers q p m =
     (let qSize = sizeQueue q (exclusiveBuffers (localBufferPools m ! p)) in if qSize > 0 then nat qSize else 0)"

section \<open>Creating and destroying pools\<close>

fun reserveBuffers :: "'q MPMCQueue \<Rightarrow> nat \<Rightarrow> nat list \<Rightarrow> 'q BufferManager \<Rightarrow> (nat list \<times> 'q BufferManager) result" where
  "reserveBuffers q 0 buffers m = Inr (buffers, m)"
| "reserveBuffers q (Suc n) buffers m =
     (case readQueue q (availableBuffers m) of
        None \<Rightarrow> Inl NonTermination
      | Some (s, rest) \<Rightarrow>
          reserveBuffers q n (buffers @ [s])
            (m\<lparr>availableBuffers := rest, numOfAvailableBuffers := numOfAvailableBuffers m - 1\<rparr>))"

fun fillPool :: "'q MPMCQueue \<Rightarrow> nat list \<Rightarrow> 'q BufferManager \<Rightarrow> 'q \<Rightarrow> 'q result" where
  "fillPool q [] m exclusive = Inr exclusive"
| "fillPool q (s # buffers) m exclusive =
     andThen (INVARIANT (isAvailable m s)) (\<lambda>_.
     andThen (INVARIANT (owningBufferRecycler (block m s) = None)) (\<lambda>_.
     fillPool q buffers m (snd (writeQueue q s exclusive))))"

definition newFixedSizeBufferPool ::
  "'q MPMCQueue \<Rightarrow> nat list \<Rightarrow> u64 \<Rightarrow> 'q BufferManager \<Rightarrow> 'q FixedSizeBufferPool result" where
  "newFixedSizeBufferPool q buffers reserved m =
     andThen (fillPool q buffers m (newQueue q (unat reserved))) (\<lambda>exclusive.
     Inr \<lparr>exclusiveBuffers = exclusive, numberOfReservedBuffers = reserved, poolDestroyed = False\<rparr>)"

definition createFixedSizeBufferPool :: "'q MPMCQueue \<Rightarrow> u64 \<Rightarrow> 'q BufferManager \<Rightarrow> (nat option \<times> 'q BufferManager) result" where
  "createFixedSizeBufferPool q reserved m =
     (let available = sizeQueue q (availableBuffers m) in
      if available < 0 \<or> (word_of_int available :: u64) < reserved then Inr (None, m)
      else andThen (reserveBuffers q (unat reserved) [] m) (\<lambda>(buffers, m1).
           andThen (newFixedSizeBufferPool q buffers reserved m1) (\<lambda>pool.
           Inr (Some (length (localBufferPools m1)), m1\<lparr>localBufferPools := localBufferPools m1 @ [pool]\<rparr>))))"

text \<open>The loop of \<open>FixedSizeBufferPool::destroy\<close> reads until the queue is empty. A segment it reads goes to the
  queue of the manager, so the number of segments is enough fuel.\<close>

fun drainPool :: "nat \<Rightarrow> 'q MPMCQueue \<Rightarrow> nat \<Rightarrow> 'q BufferManager \<Rightarrow> 'q BufferManager result" where
  "drainPool 0 q p m = Inl NonTermination"
| "drainPool (Suc fuel) q p m =
     (case readQueue q (exclusiveBuffers (localBufferPools m ! p)) of
        None \<Rightarrow> Inr m
      | Some (s, rest) \<Rightarrow>
          let m1 = setExclusive p rest m in
          andThen (INVARIANT (owningBufferRecycler (block m1 s) = None)) (\<lambda>_.
          andThen (recyclePooledBuffer q s m1) (\<lambda>m2. drainPool fuel q p m2)))"

definition pool_destroy :: "'q MPMCQueue \<Rightarrow> nat \<Rightarrow> 'q BufferManager \<Rightarrow> 'q BufferManager result" where
  "pool_destroy q p m =
     (if poolDestroyed (localBufferPools m ! p) then Inr m
      else drainPool (Suc (length (allBuffers m))) q p
             (m\<lparr>localBufferPools := (localBufferPools m)[p := (localBufferPools m ! p)\<lparr>poolDestroyed := True\<rparr>]\<rparr>))"

fun destroyPools :: "'q MPMCQueue \<Rightarrow> nat list \<Rightarrow> 'q BufferManager \<Rightarrow> 'q BufferManager result" where
  "destroyPools q [] m = Inr m"
| "destroyPools q (p # ps) m = andThen (pool_destroy q p m) (destroyPools q ps)"

definition destroy :: "'q MPMCQueue \<Rightarrow> 'q BufferManager \<Rightarrow> 'q BufferManager result" where
  "destroy q m =
     (if managerDestroyed m then Inr m
      else andThen (destroyPools q [0..<length (localBufferPools m)] (m\<lparr>managerDestroyed := True\<rparr>)) (\<lambda>m1.
           andThen (INVARIANT ((of_nat (length (allBuffers m1)) :: u64) = numOfAvailableBuffers m1
                                \<and> list_all (isAvailable m1) [0..<length (allBuffers m1)])) (\<lambda>_.
           Inr (m1\<lparr>allBuffers := [], availableBuffers := newQueue q 0, localBufferPools := []\<rparr>))))"

section \<open>Handles\<close>

definition storeChild :: "nat \<Rightarrow> nat \<Rightarrow> 'q BufferManager \<Rightarrow> u32 \<times> 'q BufferManager" where
  "storeChild parent child m =
     (let m1 = retain child m;
          m2 = updateBlock parent (\<lambda>b. b\<lparr>children := children b @ [child]\<rparr>) m1
      in (of_nat (length (children (block m2 parent))) - 1, m2))"

definition loadChild :: "nat \<Rightarrow> u16 \<Rightarrow> 'q BufferManager \<Rightarrow> (nat \<times> 'q BufferManager) result" where
  "loadChild parent index m =
     andThen (PRECONDITION (unat index < length (children (block m parent)))) (\<lambda>_.
     let child = children (block m parent) ! unat index in Inr (child, retain child m))"

definition tb_copy :: "nat option \<Rightarrow> 'q BufferManager \<Rightarrow> nat option \<times> 'q BufferManager" where
  "tb_copy other m = (other, case other of Some s \<Rightarrow> retain s m | None \<Rightarrow> m)"

definition tb_release :: "'q MPMCQueue \<Rightarrow> nat option \<Rightarrow> 'q BufferManager \<Rightarrow> (nat option \<times> 'q BufferManager) result" where
  "tb_release q this m =
     (case this of
        Some s \<Rightarrow> andThen (release (Suc (length (allBuffers m))) q s m) (\<lambda>(_, m'). Inr (None, m'))
      | None \<Rightarrow> Inr (None, m))"

text \<open>\<open>operator=\<close> of two different handles; a handle assigned to itself is left alone.\<close>

definition tb_assign :: "'q MPMCQueue \<Rightarrow> nat option \<Rightarrow> nat option \<Rightarrow> 'q BufferManager \<Rightarrow> (nat option \<times> 'q BufferManager) result" where
  "tb_assign q this other m =
     (if this \<noteq> other
      then let m1 = (case other of Some s \<Rightarrow> retain s m | None \<Rightarrow> m) in
           andThen (tb_release q this m1) (\<lambda>(_, m2). Inr (other, m2))
      else Inr (other, m))"

definition tb_moveAssign :: "nat option \<Rightarrow> nat option \<Rightarrow> nat option \<times> nat option" where
  "tb_moveAssign this other = (other, this)"

definition tb_storeChildBuffer ::
  "'q MPMCQueue \<Rightarrow> nat option \<Rightarrow> nat option \<Rightarrow> 'q BufferManager \<Rightarrow> (u32 \<times> nat option \<times> 'q BufferManager) result" where
  "tb_storeChildBuffer q this buffer m =
     andThen (INVARIANT (this \<noteq> buffer)) (\<lambda>_.
     case (this, buffer) of
       (Some parent, Some child) \<Rightarrow>
         let (index, m1) = storeChild parent child m in
         andThen (tb_release q buffer m1) (\<lambda>(_, m2). Inr (index, None, m2))
     | _ \<Rightarrow> Inl UndefinedBehaviour)"

definition tb_loadChildBuffer :: "nat option \<Rightarrow> u32 \<Rightarrow> 'q BufferManager \<Rightarrow> (nat option \<times> 'q BufferManager) result" where
  "tb_loadChildBuffer this bufferIndex m =
     (case this of
        Some parent \<Rightarrow> andThen (loadChild parent (ucast bufferIndex) m) (\<lambda>(child, m'). Inr (Some child, m'))
      | None \<Rightarrow> Inl UndefinedBehaviour)"

definition tb_setNumberOfTuples :: "nat \<Rightarrow> u64 \<Rightarrow> 'q BufferManager \<Rightarrow> 'q BufferManager" where
  "tb_setNumberOfTuples s n m = updateBlock s (\<lambda>b. b\<lparr>numberOfTuples := ucast n\<rparr>) m"

definition tb_getNumberOfTuples :: "nat \<Rightarrow> 'q BufferManager \<Rightarrow> u64" where
  "tb_getNumberOfTuples s m = ucast (numberOfTuples (block m s))"

end
