(* ===== verification/BufferReferences.thy ===== *)
theory BufferReferences
  imports BufferMemory
begin

text \<open>
  Correctness of the reference-counted buffers of \<open>BufferMemory\<close>.

  \<open>refs_inv\<close> says that every counter is the number of references to its segment, \<open>queue_inv\<close> that the unused
  segments are in exactly one queue each. The operations keep both (locale \<open>mpmc_queue\<close>, over any queue that
  behaves as documented), so no assertion of the code can fail and no segment is handed out twice or lost.
\<close>

section \<open>Reference counts\<close>

abbreviation nbuf :: "'q BufferManager \<Rightarrow> nat" where
  "nbuf m \<equiv> length (allBuffers m)"

abbreviation cnt :: "'q BufferManager \<Rightarrow> nat \<Rightarrow> nat" where
  "cnt m s \<equiv> unat (referenceCounter (block m s))"

abbreviation kids :: "'q BufferManager \<Rightarrow> nat \<Rightarrow> nat list" where
  "kids m s \<equiv> children (block m s)"

abbreviation owner :: "'q BufferManager \<Rightarrow> nat \<Rightarrow> BufferRecycler option" where
  "owner m s \<equiv> owningBufferRecycler (block m s)"

text \<open>References from the children of all buffers except those in \<open>Z\<close>.\<close>

definition childRefs :: "'q BufferManager \<Rightarrow> nat set \<Rightarrow> nat \<Rightarrow> nat" where
  "childRefs m Z s = (\<Sum>p \<in> {..<nbuf m} - Z. count_list (kids m p) s)"

text \<open>Every counter is the number of handles in \<open>held\<close> plus the number of places among the children of buffers.
  The buffers in \<open>Z\<close> are being released: their counter is zero, and the references of their children are in \<open>held\<close>.
  A buffer without references has no children and no recycler.\<close>

definition refs_inv :: "nat \<Rightarrow> nat set \<Rightarrow> nat multiset \<Rightarrow> 'q BufferManager \<Rightarrow> bool" where
  "refs_inv k Z held m \<longleftrightarrow>
     (\<forall>s < nbuf m. cnt m s = count held s + childRefs m Z s \<and> cnt m s \<le> k) \<and>
     (\<forall>s \<in># held. s < nbuf m) \<and> (\<forall>p < nbuf m. \<forall>s \<in> set (kids m p). s < nbuf m) \<and>
     (\<forall>s \<in> Z. s < nbuf m \<and> cnt m s = 0) \<and>
     (\<forall>s < nbuf m. cnt m s = 0 \<and> s \<notin> Z \<longrightarrow> kids m s = []) \<and>
     (\<forall>s < nbuf m. owner m s = None \<longleftrightarrow> cnt m s = 0 \<and> s \<notin> Z)"

text \<open>The segments without a recycler are in exactly one queue, except those in \<open>loose\<close>, which an operation has just
  taken from its queue or is about to return. A pool that is not destroyed has all its segments in its queue or
  handed out, except the pools in \<open>D\<close>, which are being changed.\<close>

definition idle :: "('q \<Rightarrow> nat list) \<Rightarrow> 'q BufferManager \<Rightarrow> nat list" where
  "idle contents m =
     contents (availableBuffers m) @ concat (map (\<lambda>P. contents (exclusiveBuffers P)) (localBufferPools m))"

definition ownedBy :: "'q BufferManager \<Rightarrow> BufferRecycler option \<Rightarrow> nat set" where
  "ownedBy m r = {s. s < nbuf m \<and> owner m s = r}"

definition pool_ok :: "('q \<Rightarrow> nat list) \<Rightarrow> ('q \<Rightarrow> nat) \<Rightarrow> 'q BufferManager \<Rightarrow> nat \<Rightarrow> bool" where
  "pool_ok contents capacity m p \<longleftrightarrow>
     (let P = localBufferPools m ! p; x = exclusiveBuffers P in
      if poolDestroyed P then contents x = []
      else capacity x = unat (numberOfReservedBuffers P) \<and>
           length (contents x) + card (ownedBy m (Some (LocalPool p))) = unat (numberOfReservedBuffers P))"

definition queue_inv :: "('q \<Rightarrow> nat list) \<Rightarrow> ('q \<Rightarrow> nat) \<Rightarrow> nat set \<Rightarrow> nat list \<Rightarrow> 'q BufferManager \<Rightarrow> bool" where
  "queue_inv contents capacity D loose m \<longleftrightarrow>
     (\<forall>s < nbuf m. \<forall>p. owner m s = Some (LocalPool p) \<longrightarrow> p < length (localBufferPools m)) \<and>
     distinct (loose @ idle contents m) \<and> set (loose @ idle contents m) = ownedBy m None \<and>
     capacity (availableBuffers m) = nbuf m \<and>
     numOfAvailableBuffers m = of_nat (length (contents (availableBuffers m))) \<and>
     (\<forall>p < length (localBufferPools m). p \<notin> D \<longrightarrow> pool_ok contents capacity m p)"

text \<open>What the operations on references leave alone.\<close>

definition evolves :: "nat set \<Rightarrow> 'q BufferManager \<Rightarrow> 'q BufferManager \<Rightarrow> bool" where
  "evolves Z m m' \<longleftrightarrow>
     nbuf m' = nbuf m \<and> (\<forall>s < nbuf m. cnt m' s \<le> cnt m s) \<and> (\<forall>s \<in> Z. block m' s = block m s) \<and>
     map poolDestroyed (localBufferPools m') = map poolDestroyed (localBufferPools m) \<and>
     map numberOfReservedBuffers (localBufferPools m') = map numberOfReservedBuffers (localBufferPools m)"

lemma evolves_refl: "evolves Z m m"
  by (simp add: evolves_def)

lemma evolves_trans: "evolves Z m m' \<Longrightarrow> evolves Z m' m'' \<Longrightarrow> evolves Z m m''"
  unfolding evolves_def by (auto intro: le_trans)

lemma evolves_mono: "evolves Z' m m' \<Longrightarrow> Z \<subseteq> Z' \<Longrightarrow> evolves Z m m'"
  unfolding evolves_def by blast

lemma evolves_card: "evolves Z m m' \<Longrightarrow> card {t. t < nbuf m' \<and> 0 < cnt m' t} \<le> card {t. t < nbuf m \<and> 0 < cnt m t}"
  unfolding evolves_def by (rule card_mono) (auto dest: le_trans)

lemma updateBlock_simps [simp]:
  "nbuf (updateBlock s f m) = nbuf m"
  "availableBuffers (updateBlock s f m) = availableBuffers m"
  "localBufferPools (updateBlock s f m) = localBufferPools m"
  "numOfAvailableBuffers (updateBlock s f m) = numOfAvailableBuffers m"
  "managerDestroyed (updateBlock s f m) = managerDestroyed m"
  by (simp_all add: updateBlock_def)

lemma block_updateBlock [simp]:
  "s < nbuf m \<Longrightarrow> block (updateBlock s f m) t = (if t = s then f (block m s) else block m t)"
  by (simp add: updateBlock_def block_def nth_list_update)

lemma block_queues [simp]:
  "block (m\<lparr>availableBuffers := x\<rparr>) s = block m s" "block (m\<lparr>numOfAvailableBuffers := c\<rparr>) s = block m s"
  "block (m\<lparr>localBufferPools := ps\<rparr>) s = block m s" "block (m\<lparr>managerDestroyed := d\<rparr>) s = block m s"
  by (simp_all add: block_def)

lemma updateBlock_twice: "s < nbuf m \<Longrightarrow> updateBlock s g (updateBlock s f m) = updateBlock s (\<lambda>b. g (f b)) m"
  by (simp add: updateBlock_def block_def)

lemma childRefs_cong:
  assumes "nbuf m' = nbuf m" "\<And>p. p < nbuf m \<Longrightarrow> p \<notin> Z \<Longrightarrow> kids m' p = kids m p"
  shows "childRefs m' Z s = childRefs m Z s"
  unfolding childRefs_def using assms by (intro sum.cong) auto

lemma childRefs_remove:
  assumes "p < nbuf m" "p \<notin> Z"
  shows "childRefs m Z s = count_list (kids m p) s + childRefs m (insert p Z) s"
proof -
  have "{..<nbuf m} - Z - {p} = {..<nbuf m} - insert p Z" by auto
  then show ?thesis unfolding childRefs_def using assms
    by (subst sum.remove [where x = p]) auto
qed

lemma ownedBy_cong: "nbuf m' = nbuf m \<Longrightarrow> (\<And>s. s < nbuf m \<Longrightarrow> owner m' s = owner m s) \<Longrightarrow> ownedBy m' r = ownedBy m r"
  unfolding ownedBy_def by auto

lemma queue_inv_cong:
  assumes "nbuf m' = nbuf m" "\<And>s. s < nbuf m \<Longrightarrow> owner m' s = owner m s"
    "availableBuffers m' = availableBuffers m" "localBufferPools m' = localBufferPools m"
    "numOfAvailableBuffers m' = numOfAvailableBuffers m"
  shows "queue_inv contents capacity D loose m' = queue_inv contents capacity D loose m"
proof -
  have own: "ownedBy m' r = ownedBy m r" for r by (rule ownedBy_cong) (simp_all add: assms(1,2))
  show ?thesis unfolding queue_inv_def pool_ok_def idle_def Let_def assms(1,3-5) own using assms(2) by simp
qed

lemma cnt_one: "referenceCounter b = 1 \<longleftrightarrow> unat (referenceCounter b) = 1"
  by (simp add: word_unat_eq_iff)

lemma cnt_zero: "referenceCounter b = 0 \<longleftrightarrow> unat (referenceCounter b) = 0"
  by (simp add: unat_eq_0)

lemma cnt_decrement: "r \<noteq> (0 :: u32) \<Longrightarrow> unat (r - 1) = unat r - 1"
  by (simp add: unat_minus_one)

lemma cnt_increment: "unat (r :: u32) + 1 < 2 ^ 32 \<Longrightarrow> unat (r + 1) = unat r + 1"
  by (simp add: unat_word_ariths)


lemma refs_invD:
  assumes "refs_inv k Z held m" "s < nbuf m"
  shows "cnt m s = count held s + childRefs m Z s" "cnt m s \<le> k"
    "owner m s = None \<longleftrightarrow> cnt m s = 0 \<and> s \<notin> Z" "cnt m s = 0 \<Longrightarrow> s \<notin> Z \<Longrightarrow> kids m s = []"
  using assms unfolding refs_inv_def by metis+

lemma refs_inv_bounds:
  assumes "refs_inv k Z held m"
  shows "s \<in># held \<Longrightarrow> s < nbuf m" "p < nbuf m \<Longrightarrow> c \<in> set (kids m p) \<Longrightarrow> c < nbuf m"
    "s \<in> Z \<Longrightarrow> s < nbuf m" "s \<in> Z \<Longrightarrow> cnt m s = 0"
  using assms unfolding refs_inv_def by blast+

lemma refs_inv_held:
  assumes "refs_inv k Z held m" "s \<in># held"
  shows "s < nbuf m" "0 < cnt m s" "s \<notin> Z"
proof -
  show s: "s < nbuf m" by (rule refs_inv_bounds(1) [OF assms])
  have "0 < count held s" using assms(2) by simp
  then show c: "0 < cnt m s" using refs_invD(1) [OF assms(1) s] by linarith
  show "s \<notin> Z" using refs_inv_bounds(4) [OF assms(1), of s] c by (metis less_irrefl)
qed

lemma refs_invI:
  assumes "\<And>s. s < nbuf m \<Longrightarrow> cnt m s = count held s + childRefs m Z s" "\<And>s. s < nbuf m \<Longrightarrow> cnt m s \<le> k"
    "\<And>s. s \<in># held \<Longrightarrow> s < nbuf m" "\<And>p c. p < nbuf m \<Longrightarrow> c \<in> set (kids m p) \<Longrightarrow> c < nbuf m"
    "\<And>s. s \<in> Z \<Longrightarrow> s < nbuf m" "\<And>s. s \<in> Z \<Longrightarrow> cnt m s = 0" "\<And>s. s < nbuf m \<Longrightarrow> cnt m s = 0 \<Longrightarrow> s \<notin> Z \<Longrightarrow> kids m s = []"
    "\<And>s. s < nbuf m \<Longrightarrow> owner m s = None \<longleftrightarrow> cnt m s = 0 \<and> s \<notin> Z"
  shows "refs_inv k Z held m"
  unfolding refs_inv_def by (intro conjI allI impI ballI; (elim conjE)?; rule assms; assumption)

lemma refs_inv_cong:
  assumes "nbuf m' = nbuf m" "\<And>s. block m' s = block m s"
  shows "refs_inv k Z held m' \<longleftrightarrow> refs_inv k Z held m"
  unfolding refs_inv_def childRefs_def assms ..

lemma refs_decrement:
  assumes inv: "refs_inv k Z (add_mset s held) m" and more: "cnt m s \<noteq> 1"
  shows "refs_inv k Z held (updateBlock s (\<lambda>b. b\<lparr>referenceCounter := referenceCounter b - 1\<rparr>) m)"
proof -
  let ?m = "updateBlock s (\<lambda>b. b\<lparr>referenceCounter := referenceCounter b - 1\<rparr>) m"
  have s: "s < nbuf m" "0 < cnt m s" "s \<notin> Z" using refs_inv_held [OF inv, of s] by simp_all
  have dec: "cnt ?m t = (if t = s then cnt m s - 1 else cnt m t)" for t
    using s(1,2) by (simp add: cnt_decrement unat_gt_0)
  have refs: "childRefs ?m Z t = childRefs m Z t" for t by (rule childRefs_cong) (use s in auto)
  have blocks: "kids ?m t = kids m t" "owner ?m t = owner m t" for t using s(1) by auto
  show ?thesis
  proof (rule refs_invI, unfold dec refs blocks updateBlock_simps)
    fix t assume t: "t < nbuf m"
    show "(if t = s then cnt m s - 1 else cnt m t) = count held t + childRefs m Z t" using refs_invD(1) [OF inv t] by auto
    show "(if t = s then cnt m s - 1 else cnt m t) \<le> k" using refs_invD(2) [OF inv t] by auto
    show "owner m t = None \<longleftrightarrow> (if t = s then cnt m s - 1 else cnt m t) = 0 \<and> t \<notin> Z"
      using refs_invD(3) [OF inv t] s more by auto
    show "kids m t = []" if "(if t = s then cnt m s - 1 else cnt m t) = 0" "t \<notin> Z"
      using refs_invD(4) [OF inv t] that s more by (cases "t = s") auto
  next
    fix t assume "t \<in># held"
    then show "t < nbuf m" by (intro refs_inv_bounds(1) [OF inv]) simp
  next
    fix t assume t: "t \<in> Z"
    show "t < nbuf m" by (rule refs_inv_bounds(3) [OF inv t])
    show "(if t = s then cnt m s - 1 else cnt m t) = 0" using refs_inv_bounds(4) [OF inv t] t s by auto
  qed (rule refs_inv_bounds(2) [OF inv])
qed

lemma refs_last:
  assumes inv: "refs_inv k Z (add_mset s held) m" and last: "cnt m s = 1"
  shows "refs_inv k (insert s Z) (held + mset (kids m s)) (updateBlock s (\<lambda>b. b\<lparr>referenceCounter := 0, numberOfTuples := 0\<rparr>) m)"
proof -
  let ?m = "updateBlock s (\<lambda>b. b\<lparr>referenceCounter := 0, numberOfTuples := 0\<rparr>) m"
  have s: "s < nbuf m" "0 < cnt m s" "s \<notin> Z" using refs_inv_held [OF inv, of s] by simp_all
  have dec: "cnt ?m t = (if t = s then 0 else cnt m t)" for t using s by simp
  have blocks: "kids ?m t = kids m t" "owner ?m t = owner m t" for t using s(1) by auto
  have refs: "count (mset (kids m s)) t + childRefs ?m (insert s Z) t = childRefs m Z t" for t
    using childRefs_remove [OF s(1,3), of t] childRefs_cong [of ?m m "insert s Z" t] blocks by (simp add: count_mset)
  have none: "count held s = 0" "childRefs m Z s = 0" using refs_invD(1) [OF inv s(1)] last by auto
  have total: "cnt ?m t = count (held + mset (kids m s)) t + childRefs ?m (insert s Z) t" if "t < nbuf m" for t
    using refs [of t] none refs_invD(1) [OF inv that] dec [of t] by auto
  show ?thesis
  proof (rule refs_invI, unfold blocks updateBlock_simps)
    fix t assume t: "t < nbuf m"
    show "cnt ?m t = count (held + mset (kids m s)) t + childRefs ?m (insert s Z) t" by (rule total [OF t])
    show "cnt ?m t \<le> k" using refs_invD(2) [OF inv t] dec [of t] by simp
    show "owner m t = None \<longleftrightarrow> cnt ?m t = 0 \<and> t \<notin> insert s Z" using refs_invD(3) [OF inv t] dec [of t] s by auto
    show "kids m t = []" if "cnt ?m t = 0" "t \<notin> insert s Z" using refs_invD(4) [OF inv t] that dec [of t] by auto
  next
    fix t assume "t \<in># held + mset (kids m s)"
    then show "t < nbuf m" using refs_inv_bounds(1) [OF inv, of t] refs_inv_bounds(2) [OF inv s(1), of t] by auto
  next
    fix t assume "t \<in> insert s Z"
    then show "t < nbuf m" "cnt ?m t = 0" using refs_inv_bounds(3,4) [OF inv, of t] s(1) dec [of t] by auto
  qed (rule refs_inv_bounds(2) [OF inv])
qed

lemma refs_finish:
  assumes inv: "refs_inv k (insert s Z) held m" and s: "s \<notin> Z"
  shows "refs_inv k Z held (updateBlock s (\<lambda>b. b\<lparr>children := [], owningBufferRecycler := None\<rparr>) m)"
proof -
  let ?m = "updateBlock s (\<lambda>b. b\<lparr>children := [], owningBufferRecycler := None\<rparr>) m"
  have n: "s < nbuf m" "cnt m s = 0" using inv unfolding refs_inv_def by auto
  have cnts: "cnt ?m t = cnt m t" for t using n by simp
  have blocks: "kids ?m t = (if t = s then [] else kids m t)" "owner ?m t = (if t = s then None else owner m t)" for t
    using n(1) by auto
  have refs: "childRefs ?m Z t = childRefs m (insert s Z) t" for t
    using childRefs_remove [of s ?m Z t] childRefs_cong [of ?m m "insert s Z" t] blocks n(1) s by simp
  show ?thesis
  proof (rule refs_invI, unfold cnts blocks refs updateBlock_simps)
    fix t assume t: "t < nbuf m"
    show "(if t = s then None else owner m t) = None \<longleftrightarrow> cnt m t = 0 \<and> t \<notin> Z" using refs_invD(3) [OF inv t] n s by auto
    show "(if t = s then [] else kids m t) = []" if "cnt m t = 0" "t \<notin> Z" using refs_invD(4) [OF inv t] that by auto
    show "c < nbuf m" if "c \<in> set (if t = s then [] else kids m t)" for c
      using refs_inv_bounds(2) [OF inv t, of c] that by (auto split: if_splits)
  qed (rule refs_invD(1,2) [OF inv] refs_inv_bounds(1,3,4) [OF inv]; simp)+
qed

lemma refs_increment:
  assumes inv: "refs_inv k Z held m" and s: "s < nbuf m" "s \<notin> Z" and k: "Suc k < 2 ^ 32"
    and r: "0 < cnt m s \<and> r = owner m s \<or> r \<noteq> None"
  shows "refs_inv (Suc k) Z (add_mset s held)
           (updateBlock s (\<lambda>b. b\<lparr>referenceCounter := referenceCounter b + 1, owningBufferRecycler := r\<rparr>) m)"
proof -
  let ?m = "updateBlock s (\<lambda>b. b\<lparr>referenceCounter := referenceCounter b + 1, owningBufferRecycler := r\<rparr>) m"
  have "cnt m s + 1 < 2 ^ 32" using refs_invD(2) [OF inv s(1)] k by linarith
  then have cnts: "cnt ?m t = (if t = s then cnt m s + 1 else cnt m t)" for t using s(1) cnt_increment by simp
  have blocks: "kids ?m t = kids m t" "owner ?m t = (if t = s then r else owner m t)" for t using s(1) by auto
  have refs: "childRefs ?m Z t = childRefs m Z t" for t by (rule childRefs_cong) (use s in auto)
  have some: "r \<noteq> None" using r refs_invD(3) [OF inv s(1)] by auto
  show ?thesis
  proof (rule refs_invI, unfold cnts blocks refs updateBlock_simps)
    fix t assume t: "t < nbuf m"
    show "(if t = s then cnt m s + 1 else cnt m t) = count (add_mset s held) t + childRefs m Z t"
      using refs_invD(1) [OF inv t] by auto
    show "(if t = s then cnt m s + 1 else cnt m t) \<le> Suc k" using refs_invD(2) [OF inv t] by auto
    show "(if t = s then r else owner m t) = None \<longleftrightarrow> (if t = s then cnt m s + 1 else cnt m t) = 0 \<and> t \<notin> Z"
      using refs_invD(3) [OF inv t] some by auto
    show "kids m t = []" if "(if t = s then cnt m s + 1 else cnt m t) = 0" "t \<notin> Z"
      using refs_invD(4) [OF inv t] that by (cases "t = s") auto
  next
    fix t assume "t \<in># add_mset s held"
    then show "t < nbuf m" using refs_inv_bounds(1) [OF inv, of t] s by auto
  next
    fix t assume t: "t \<in> Z"
    show "t < nbuf m" by (rule refs_inv_bounds(3) [OF inv t])
    show "(if t = s then cnt m s + 1 else cnt m t) = 0" using refs_inv_bounds(4) [OF inv t] t s by auto
  qed (rule refs_inv_bounds(2) [OF inv])
qed

lemma refs_attach:
  assumes inv: "refs_inv k {} (add_mset c held) m" and p: "p < nbuf m" "0 < cnt m p"
  shows "refs_inv k {} held (updateBlock p (\<lambda>b. b\<lparr>children := children b @ [c]\<rparr>) m)"
proof -
  let ?m = "updateBlock p (\<lambda>b. b\<lparr>children := children b @ [c]\<rparr>) m"
  have c: "c < nbuf m" using refs_inv_held [OF inv, of c] by simp
  have cnts: "cnt ?m t = cnt m t" for t using p(1) by simp
  have blocks: "kids ?m t = (if t = p then kids m p @ [c] else kids m t)" "owner ?m t = owner m t" for t using p(1) by auto
  have refs: "childRefs ?m {} t = (if t = c then 1 else 0) + childRefs m {} t" for t
    using childRefs_remove [of p ?m "{}" t] childRefs_remove [of p m "{}" t] childRefs_cong [of ?m m "{p}" t] blocks p(1)
    by auto
  show ?thesis
  proof (rule refs_invI, unfold cnts blocks refs updateBlock_simps)
    fix t assume t: "t < nbuf m"
    show "cnt m t = count held t + ((if t = c then 1 else 0) + childRefs m {} t)" using refs_invD(1) [OF inv t] by auto
    show "cnt m t \<le> k" by (rule refs_invD(2) [OF inv t])
    show "owner m t = None \<longleftrightarrow> cnt m t = 0 \<and> t \<notin> {}" by (rule refs_invD(3) [OF inv t])
    show "(if t = p then kids m p @ [c] else kids m t) = []" if "cnt m t = 0" "t \<notin> {}"
      using refs_invD(4) [OF inv t] that p by auto
    show "d < nbuf m" if "d \<in> set (if t = p then kids m p @ [c] else kids m t)" for d
      using refs_inv_bounds(2) [OF inv t, of d] that c by (auto split: if_splits)
  next
    fix t assume "t \<in># held"
    then show "t < nbuf m" by (intro refs_inv_bounds(1) [OF inv]) simp
  qed simp_all
qed


section \<open>Segments and queues\<close>

lemma queue_invD:
  assumes "queue_inv contents capacity D loose m"
  shows "s < nbuf m \<Longrightarrow> owner m s = Some (LocalPool p) \<Longrightarrow> p < length (localBufferPools m)"
    "distinct (loose @ idle contents m)" "set (loose @ idle contents m) = ownedBy m None"
    "capacity (availableBuffers m) = nbuf m" "numOfAvailableBuffers m = of_nat (length (contents (availableBuffers m)))"
    "p < length (localBufferPools m) \<Longrightarrow> p \<notin> D \<Longrightarrow> pool_ok contents capacity m p"
  using assms unfolding queue_inv_def by blast+

text \<open>Moving segments between the queues and \<open>loose\<close> keeps the invariant if nothing appears or disappears.\<close>

lemma queue_inv_move:
  assumes inv: "queue_inv contents capacity D loose m"
    and same: "nbuf m' = nbuf m" "\<And>s. s < nbuf m \<Longrightarrow> owner m' s = owner m s"
      "length (localBufferPools m') = length (localBufferPools m)"
    and moved: "mset (loose' @ idle contents m') = mset (loose @ idle contents m)"
    and available: "capacity (availableBuffers m') = nbuf m"
      "numOfAvailableBuffers m' = of_nat (length (contents (availableBuffers m')))"
    and pools: "\<And>p. p < length (localBufferPools m) \<Longrightarrow> p \<notin> D' \<Longrightarrow> pool_ok contents capacity m' p"
  shows "queue_inv contents capacity D' loose' m'"
proof -
  have own: "ownedBy m' r = ownedBy m r" for r by (rule ownedBy_cong) (simp_all add: same)
  have "distinct (loose' @ idle contents m')" "set (loose' @ idle contents m') = ownedBy m' None"
    using mset_eq_imp_distinct_iff [OF moved] mset_eq_setD [OF moved] queue_invD(2,3) [OF inv] own by simp_all
  then show ?thesis unfolding queue_inv_def using queue_invD(1) [OF inv] same available pools by auto
qed

lemma pool_ok_cong:
  assumes "nbuf m' = nbuf m" "\<And>s. s < nbuf m \<Longrightarrow> owner m' s = owner m s" "localBufferPools m' ! p = localBufferPools m ! p"
  shows "pool_ok contents capacity m' p = pool_ok contents capacity m p"
proof -
  have own: "ownedBy m' r = ownedBy m r" for r by (rule ownedBy_cong) (simp_all add: assms(1,2))
  show ?thesis unfolding pool_ok_def assms(3) own ..
qed

lemma mset_idle:
  "mset (idle contents m) =
     mset (contents (availableBuffers m)) + (\<Sum>P \<leftarrow> localBufferPools m. mset (contents (exclusiveBuffers P)))"
proof -
  have "mset (concat (map f xs)) = (\<Sum>x \<leftarrow> xs. mset (f x))" for f and xs :: "'b list" by (induction xs) auto
  then show ?thesis by (simp add: idle_def)
qed

lemma sum_list_swap:
  fixes f :: "'a \<Rightarrow> 'b :: comm_monoid_add"
  assumes "p < length xs"
  shows "sum_list (map f (xs[p := x])) + f (xs ! p) = sum_list (map f xs) + f x"
  using assms by (induction xs arbitrary: p) (auto split: nat.split simp: ac_simps)

lemma setExclusive_simps [simp]:
  "allBuffers (setExclusive p x m) = allBuffers m" "block (setExclusive p x m) s = block m s"
  "availableBuffers (setExclusive p x m) = availableBuffers m"
  "numOfAvailableBuffers (setExclusive p x m) = numOfAvailableBuffers m"
  "length (localBufferPools (setExclusive p x m)) = length (localBufferPools m)"
  "p < length (localBufferPools m) \<Longrightarrow> localBufferPools (setExclusive p x m) ! r =
     (if r = p then (localBufferPools m ! p)\<lparr>exclusiveBuffers := x\<rparr> else localBufferPools m ! r)"
  by (simp_all add: setExclusive_def)

lemma map_setExclusive:
  assumes "p < length (localBufferPools m)"
  shows "map poolDestroyed (localBufferPools (setExclusive p x m)) = map poolDestroyed (localBufferPools m)"
    "map numberOfReservedBuffers (localBufferPools (setExclusive p x m)) = map numberOfReservedBuffers (localBufferPools m)"
  using assms by (auto intro!: nth_equalityI split: if_splits)

lemma mset_idle_setExclusive:
  assumes "p < length (localBufferPools m)"
  shows "mset (idle contents (setExclusive p x m)) + mset (contents (exclusiveBuffers (localBufferPools m ! p))) =
           mset (idle contents m) + mset (contents x)"
  using sum_list_swap [OF assms, of "\<lambda>P. mset (contents (exclusiveBuffers P))" "(localBufferPools m ! p)\<lparr>exclusiveBuffers := x\<rparr>"]
  by (simp add: mset_idle setExclusive_def ac_simps)

text \<open>Giving a loose segment to a client and taking one back.\<close>

lemma queue_inv_hand_out:
  assumes inv: "queue_inv contents capacity D (s # loose) m" and m': "nbuf m' = nbuf m"
    "\<And>t. t < nbuf m \<Longrightarrow> owner m' t = (if t = s then Some r else owner m t)" "availableBuffers m' = availableBuffers m"
    "localBufferPools m' = localBufferPools m" "numOfAvailableBuffers m' = numOfAvailableBuffers m"
    and r: "\<And>p. r = LocalPool p \<Longrightarrow> p < length (localBufferPools m) \<and> p \<in> D"
  shows "queue_inv contents capacity D loose m'"
proof -
  have s: "s < nbuf m" "owner m s = None" using queue_invD(3) [OF inv] by (auto simp: ownedBy_def)
  have none: "ownedBy m' None = ownedBy m None - {s}" using m'(1,2) by (auto simp: ownedBy_def split: if_splits)
  have same: "ownedBy m' (Some (LocalPool p)) = ownedBy m (Some (LocalPool p))" if "r \<noteq> LocalPool p" for p
    using that m'(1,2) s by (auto simp: ownedBy_def split: if_splits)
  have idle: "idle contents m' = idle contents m" by (simp add: idle_def m')
  have set: "set (loose @ idle contents m') = ownedBy m' None" "distinct (loose @ idle contents m')"
    using queue_invD(2,3) [OF inv] unfolding none idle by auto
  have pools: "pool_ok contents capacity m' p" if "p < length (localBufferPools m)" "p \<notin> D" for p
    using queue_invD(6) [OF inv that] same [of p] r [of p] that(2) unfolding pool_ok_def m'(4) Let_def by metis
  show ?thesis unfolding queue_inv_def using set pools queue_invD(1,4,5) [OF inv] m' r by (auto split: if_splits)
qed

lemma queue_inv_take_back:
  assumes inv: "queue_inv contents capacity D loose m" and m': "nbuf m' = nbuf m"
    "\<And>t. t < nbuf m \<Longrightarrow> owner m' t = (if t = s then None else owner m t)" "availableBuffers m' = availableBuffers m"
    "localBufferPools m' = localBufferPools m" "numOfAvailableBuffers m' = numOfAvailableBuffers m"
    and s: "s < nbuf m" "owner m s = Some r"
  shows "queue_inv contents capacity (D \<union> {p. r = LocalPool p}) (s # loose) m'"
proof -
  have none: "ownedBy m' None = insert s (ownedBy m None)" using m'(1,2) s by (auto simp: ownedBy_def split: if_splits)
  have same: "ownedBy m' (Some (LocalPool p)) = ownedBy m (Some (LocalPool p))" if "r \<noteq> LocalPool p" for p
    using that m'(1,2) s by (auto simp: ownedBy_def split: if_splits)
  have idle: "idle contents m' = idle contents m" by (simp add: idle_def m')
  have "s \<notin> ownedBy m None" using s by (simp add: ownedBy_def)
  then have set: "set ((s # loose) @ idle contents m') = ownedBy m' None" "distinct ((s # loose) @ idle contents m')"
    using queue_invD(2,3) [OF inv] unfolding none idle by auto
  have pools: "pool_ok contents capacity m' p" if "p < length (localBufferPools m)" "p \<notin> D \<union> {p. r = LocalPool p}" for p
    using queue_invD(6) [OF inv that(1)] same [of p] that(2) unfolding pool_ok_def m'(4) Let_def by auto
  show ?thesis unfolding queue_inv_def using set pools queue_invD(1,4,5) [OF inv] m' by (auto split: if_splits)
qed


lemma updateBlock_cong: "f (block m s) = g (block m s) \<Longrightarrow> updateBlock s f m = updateBlock s g m"
  by (simp add: updateBlock_def)

section \<open>The queue contract\<close>

locale mpmc_queue =
  fixes q :: "'q MPMCQueue" and contents :: "'q \<Rightarrow> nat list" and capacity :: "'q \<Rightarrow> nat"
  assumes new_queue: "0 < c \<Longrightarrow> contents (newQueue q c) = [] \<and> capacity (newQueue q c) = c"
    and write_queue: "length (contents x) < capacity x \<Longrightarrow>
      contents (snd (writeQueue q s x)) = contents x @ [s] \<and> capacity (snd (writeQueue q s x)) = capacity x"
    and read_empty: "contents x = [] \<Longrightarrow> readQueue q x = None"
    and read_first: "contents x = s # r \<Longrightarrow> \<exists>y. readQueue q x = Some (s, y) \<and> contents y = r \<and> capacity y = capacity x"
    and size_queue: "sizeQueue q x = int (length (contents x))"
begin

lemma read_available:
  assumes inv: "queue_inv contents capacity D L m" and first: "contents (availableBuffers m) = s # r"
  shows "\<exists>y. readQueue q (availableBuffers m) = Some (s, y) \<and> contents y = r \<and>
    queue_inv contents capacity D (L @ [s]) (m\<lparr>availableBuffers := y, numOfAvailableBuffers := numOfAvailableBuffers m - 1\<rparr>)"
proof -
  obtain y where y: "readQueue q (availableBuffers m) = Some (s, y)" "contents y = r" "capacity y = capacity (availableBuffers m)"
    using read_first [OF first] by blast
  let ?m = "m\<lparr>availableBuffers := y, numOfAvailableBuffers := numOfAvailableBuffers m - 1\<rparr>"
  have "queue_inv contents capacity D (L @ [s]) ?m"
  proof (rule queue_inv_move [OF inv])
    show "numOfAvailableBuffers ?m = of_nat (length (contents (availableBuffers ?m)))"
      using queue_invD(5) [OF inv] first y by simp
    show "pool_ok contents capacity ?m p" if "p < length (localBufferPools m)" "p \<notin> D" for p
      using queue_invD(6) [OF inv that] by (subst pool_ok_cong [where m = m]) simp_all
  qed (use first y queue_invD(4) [OF inv] in \<open>simp_all add: idle_def\<close>)
  with y show ?thesis by blast
qed

lemma write_available:
  assumes inv: "queue_inv contents capacity D (s # L) m"
  shows "queue_inv contents capacity D L
    (m\<lparr>availableBuffers := snd (writeQueue q s (availableBuffers m)), numOfAvailableBuffers := numOfAvailableBuffers m + 1\<rparr>)"
proof -
  have "set ((s # L) @ idle contents m) \<subseteq> {..<nbuf m}" using queue_invD(3) [OF inv] by (auto simp: ownedBy_def)
  then have "card (set ((s # L) @ idle contents m)) \<le> nbuf m" using card_mono [of "{..<nbuf m}"] by fastforce
  then have "length ((s # L) @ idle contents m) \<le> nbuf m" using distinct_card [OF queue_invD(2) [OF inv]] by simp
  then have "length (contents (availableBuffers m)) < capacity (availableBuffers m)"
    using queue_invD(4) [OF inv] by (simp add: idle_def)
  from write_queue [OF this] have w: "contents (snd (writeQueue q s (availableBuffers m))) = contents (availableBuffers m) @ [s]"
    "capacity (snd (writeQueue q s (availableBuffers m))) = capacity (availableBuffers m)" by auto
  show ?thesis
  proof (rule queue_inv_move [OF inv])
    show "pool_ok contents capacity (m\<lparr>availableBuffers := snd (writeQueue q s (availableBuffers m)),
      numOfAvailableBuffers := numOfAvailableBuffers m + 1\<rparr>) p" if "p < length (localBufferPools m)" "p \<notin> D" for p
      using queue_invD(6) [OF inv that] by (subst pool_ok_cong [where m = m]) simp_all
  qed (use w queue_invD(4,5) [OF inv] in \<open>simp_all add: idle_def\<close>)
qed

lemma exchange_pool:
  assumes inv: "queue_inv contents capacity D L m" and p: "p < length (localBufferPools m)" "p \<in> D"
    and moved: "mset L' + mset (contents x) = mset L + mset (contents (exclusiveBuffers (localBufferPools m ! p)))"
  shows "queue_inv contents capacity D L' (setExclusive p x m)"
proof (rule queue_inv_move [OF inv])
  have "mset (idle contents (setExclusive p x m)) + mset (contents (exclusiveBuffers (localBufferPools m ! p))) + mset L' =
    mset (idle contents m) + mset (contents (exclusiveBuffers (localBufferPools m ! p))) + mset L"
    using mset_idle_setExclusive [OF p(1), of contents x] moved by (simp add: ac_simps)
  then show "mset (L' @ idle contents (setExclusive p x m)) = mset (L @ idle contents m)" by (simp add: ac_simps)
  show "pool_ok contents capacity (setExclusive p x m) r" if "r < length (localBufferPools m)" "r \<notin> D" for r
    using queue_invD(6) [OF inv that] that p by (subst pool_ok_cong [where m = m]) auto
qed (use queue_invD(4,5) [OF inv] in simp_all)

lemma read_pool:
  assumes inv: "queue_inv contents capacity D L m" and p: "p < length (localBufferPools m)" "p \<in> D"
    and first: "contents (exclusiveBuffers (localBufferPools m ! p)) = s # r"
  shows "\<exists>y. readQueue q (exclusiveBuffers (localBufferPools m ! p)) = Some (s, y) \<and> contents y = r \<and>
    capacity y = capacity (exclusiveBuffers (localBufferPools m ! p)) \<and>
    queue_inv contents capacity D (s # L) (setExclusive p y m)"
proof -
  obtain y where y: "readQueue q (exclusiveBuffers (localBufferPools m ! p)) = Some (s, y)" "contents y = r"
    "capacity y = capacity (exclusiveBuffers (localBufferPools m ! p))" using read_first [OF first] by blast
  have "queue_inv contents capacity D (s # L) (setExclusive p y m)"
    by (rule exchange_pool [OF inv p]) (simp add: y first)
  with y show ?thesis by blast
qed

lemma restore_pool:
  assumes "queue_inv contents capacity D L m" "\<And>p. p \<in> D \<Longrightarrow> p < length (localBufferPools m) \<Longrightarrow> pool_ok contents capacity m p"
  shows "queue_inv contents capacity {} L m"
  using assms unfolding queue_inv_def by blast

lemma weaken_pools: "queue_inv contents capacity D L m \<Longrightarrow> D \<subseteq> D' \<Longrightarrow> queue_inv contents capacity D' L m"
  unfolding queue_inv_def by blast


text \<open>A segment read from a queue is unused, so it can be prepared.\<close>

lemma takePrepared_ok:
  assumes refs: "refs_inv k {} held m" and queues: "queue_inv contents capacity D [s] m" and k: "Suc k < 2 ^ 32"
    and r: "\<And>p. r = LocalPool p \<Longrightarrow> p < length (localBufferPools m) \<and> p \<in> D"
  shows "\<exists>m'. takePrepared s r m = Inr (Some s, m') \<and> s \<notin># held \<and> cnt m s = 0 \<and> s < nbuf m \<and>
    refs_inv (Suc k) {} (add_mset s held) m' \<and> queue_inv contents capacity D [] m' \<and>
    localBufferPools m' = localBufferPools m \<and> nbuf m' = nbuf m \<and>
    (\<forall>t < nbuf m. owner m' t = (if t = s then Some r else owner m t))"
proof -
  have s: "s < nbuf m" "owner m s = None" using queue_invD(3) [OF queues] by (auto simp: ownedBy_def)
  then have zero: "cnt m s = 0" using refs_invD(3) [OF refs] by blast
  let ?m = "updateBlock s (\<lambda>b. b\<lparr>referenceCounter := 1, owningBufferRecycler := Some r\<rparr>) m"
  have "?m = updateBlock s (\<lambda>b. b\<lparr>referenceCounter := referenceCounter b + 1, owningBufferRecycler := Some r\<rparr>) m"
    by (rule updateBlock_cong) (use zero in \<open>simp add: unat_eq_0\<close>)
  then have "refs_inv (Suc k) {} (add_mset s held) ?m" using refs_increment [OF refs s(1) _ k, of "Some r"] by simp
  moreover have "queue_inv contents capacity D [] ?m" by (rule queue_inv_hand_out [OF queues _ _ _ _ _ r]) (use s in auto)
  moreover have "takePrepared s r m = Inr (Some s, ?m)" using zero s by (simp add: takePrepared_def prepare_def cnt_zero)
  moreover have "s \<notin># held" using refs_inv_held(2) [OF refs, of s] zero by auto
  ultimately show ?thesis using zero s by auto
qed

lemma getBufferNoBlocking_ok:
  assumes refs: "refs_inv k {} held m" and queues: "queue_inv contents capacity {} [] m" and k: "Suc k < 2 ^ 32"
  shows "\<exists>r m'. getBufferNoBlocking q m = Inr (r, m') \<and> queue_inv contents capacity {} [] m' \<and> nbuf m' = nbuf m \<and>
    (case r of None \<Rightarrow> refs_inv (Suc k) {} held m'
     | Some s \<Rightarrow> s \<notin># held \<and> cnt m s = 0 \<and> refs_inv (Suc k) {} (add_mset s held) m')"
proof (cases "contents (availableBuffers m)")
  case Nil
  moreover have "refs_inv (Suc k) {} held m" using refs unfolding refs_inv_def by (meson le_SucI)
  ultimately show ?thesis using queues read_empty by (simp add: getBufferNoBlocking_def)
next
  case (Cons s r)
  obtain y where y: "readQueue q (availableBuffers m) = Some (s, y)" and
    queues': "queue_inv contents capacity {} [s] (m\<lparr>availableBuffers := y, numOfAvailableBuffers := numOfAvailableBuffers m - 1\<rparr>)"
    using read_available [OF queues Cons] by auto
  have refs': "refs_inv k {} held (m\<lparr>availableBuffers := y, numOfAvailableBuffers := numOfAvailableBuffers m - 1\<rparr>)"
    using refs by (rule refs_inv_cong [THEN iffD2, rotated -1]) simp_all
  show ?thesis using takePrepared_ok [OF refs' queues' k, of GlobalManager] y by (auto simp: getBufferNoBlocking_def)
qed

lemma pool_getBufferWithTimeout_ok:
  assumes refs: "refs_inv k {} held m" and queues: "queue_inv contents capacity {} [] m" and k: "Suc k < 2 ^ 32"
    and p: "p < length (localBufferPools m)"
  shows "\<exists>r m'. pool_getBufferWithTimeout q p m = Inr (r, m') \<and> queue_inv contents capacity {} [] m' \<and> nbuf m' = nbuf m \<and>
    (case r of None \<Rightarrow> refs_inv (Suc k) {} held m'
     | Some s \<Rightarrow> s \<notin># held \<and> cnt m s = 0 \<and> refs_inv (Suc k) {} (add_mset s held) m')"
proof (cases "contents (exclusiveBuffers (localBufferPools m ! p))")
  case Nil
  moreover have "refs_inv (Suc k) {} held m" using refs unfolding refs_inv_def by (meson le_SucI)
  ultimately show ?thesis using queues read_empty by (simp add: pool_getBufferWithTimeout_def)
next
  case (Cons s r)
  have ok: "pool_ok contents capacity m p" by (rule queue_invD(6) [OF queues p]) simp
  obtain y where y: "readQueue q (exclusiveBuffers (localBufferPools m ! p)) = Some (s, y)" "contents y = r"
    "capacity y = capacity (exclusiveBuffers (localBufferPools m ! p))"
    and queues': "queue_inv contents capacity {p} [s] (setExclusive p y m)"
    using read_pool [OF weaken_pools [OF queues] p _ Cons, of "{p}"] by auto
  have refs': "refs_inv k {} held (setExclusive p y m)" using refs by (rule refs_inv_cong [THEN iffD2, rotated -1]) simp_all
  obtain m' where m': "takePrepared s (LocalPool p) (setExclusive p y m) = Inr (Some s, m')" "s \<notin># held" "cnt m s = 0" "s < nbuf m"
    "refs_inv (Suc k) {} (add_mset s held) m'" "queue_inv contents capacity {p} [] m'"
    "localBufferPools m' = localBufferPools (setExclusive p y m)" "nbuf m' = nbuf m"
    "\<forall>t < nbuf m. owner m' t = (if t = s then Some (LocalPool p) else owner m t)"
    using takePrepared_ok [OF refs' queues' k, of "LocalPool p"] p by auto
  have "owner m s = None" using queue_invD(3) [OF queues'] by (auto simp: ownedBy_def)
  then have "ownedBy m' (Some (LocalPool p)) = insert s (ownedBy m (Some (LocalPool p)))" "s \<notin> ownedBy m (Some (LocalPool p))"
    using m'(4,8,9) by (auto simp: ownedBy_def split: if_splits)
  then have "card (ownedBy m' (Some (LocalPool p))) = Suc (card (ownedBy m (Some (LocalPool p))))" by (simp add: ownedBy_def)
  then have "pool_ok contents capacity m' p" using ok y Cons p unfolding pool_ok_def Let_def m'(7) by (simp split: if_splits)
  then have "queue_inv contents capacity {} [] m'" by (intro restore_pool [OF m'(6)]) simp
  then show ?thesis using m' y by (auto simp: pool_getBufferWithTimeout_def)
qed


lemma recycle_to_manager:
  assumes inv: "queue_inv contents capacity D (s # L) m" and s: "cnt m s = 0" "owner m s = None"
  shows "\<exists>m'. recyclePooledBuffer q s m = Inr m' \<and> queue_inv contents capacity D L m' \<and> allBuffers m' = allBuffers m \<and>
    localBufferPools m' = localBufferPools m \<and> managerDestroyed m' = managerDestroyed m"
  using write_available [OF inv] s by (simp add: recyclePooledBuffer_def isAvailable_def cnt_zero)

lemma recycle_ok:
  assumes queues: "queue_inv contents capacity {} [] m" and s: "s < nbuf m" "owner m s = Some r" "cnt m s = 0"
  shows "\<exists>m'. recycleCallback q s (Some r) (updateBlock s (\<lambda>b. b\<lparr>children := [], owningBufferRecycler := None\<rparr>) m) = Inr m' \<and>
    queue_inv contents capacity {} [] m' \<and>
    allBuffers m' = allBuffers (updateBlock s (\<lambda>b. b\<lparr>children := [], owningBufferRecycler := None\<rparr>) m) \<and>
    map poolDestroyed (localBufferPools m') = map poolDestroyed (localBufferPools m) \<and>
    map numberOfReservedBuffers (localBufferPools m') = map numberOfReservedBuffers (localBufferPools m)"
proof -
  let ?m = "updateBlock s (\<lambda>b. b\<lparr>children := [], owningBufferRecycler := None\<rparr>) m"
  have queues': "queue_inv contents capacity {p. r = LocalPool p} [s] ?m"
    using queue_inv_take_back [OF queues _ _ _ _ _ s(1,2), of ?m] s(1) by simp
  have zero: "cnt ?m s = 0" "owner ?m s = None" using s by simp_all
  show ?thesis
  proof (cases r)
    case GlobalManager
    then show ?thesis using recycle_to_manager [OF queues' zero] by auto
  next
    case (LocalPool p)
    have p: "p < length (localBufferPools m)" using queue_invD(1) [OF queues s(1)] s(2) LocalPool by simp
    have ok: "pool_ok contents capacity m p" by (rule queue_invD(6) [OF queues p]) simp
    have D: "queue_inv contents capacity {p} [s] ?m" using queues' LocalPool by simp
    show ?thesis
    proof (cases "poolDestroyed (localBufferPools m ! p)")
      case True
      obtain m' where m': "recyclePooledBuffer q s ?m = Inr m'" "queue_inv contents capacity {p} [] m'" "allBuffers m' = allBuffers ?m"
        "localBufferPools m' = localBufferPools m" using recycle_to_manager [OF D zero] by auto
      have "pool_ok contents capacity m' p" using ok True unfolding pool_ok_def m'(4) Let_def by simp
      then have "queue_inv contents capacity {} [] m'" by (intro restore_pool [OF m'(2)]) simp
      then show ?thesis using m' True LocalPool by (simp add: pool_recyclePooledBuffer_def pool_recycleAfterCheck_def)
    next
      case False
      let ?x = "exclusiveBuffers (localBufferPools m ! p)" and ?y = "snd (writeQueue q s (exclusiveBuffers (localBufferPools m ! p)))"
      have owned: "ownedBy m (Some r) = insert s (ownedBy ?m (Some r))" "s \<notin> ownedBy ?m (Some r)"
        using s by (auto simp: ownedBy_def split: if_splits)
      then have card: "card (ownedBy m (Some r)) = Suc (card (ownedBy ?m (Some r)))" by (simp add: ownedBy_def)
      have bal: "capacity ?x = unat (numberOfReservedBuffers (localBufferPools m ! p))"
        "length (contents ?x) + Suc (card (ownedBy ?m (Some r))) = unat (numberOfReservedBuffers (localBufferPools m ! p))"
        using ok False card LocalPool unfolding pool_ok_def Let_def by auto
      then have w: "contents ?y = contents ?x @ [s]" "capacity ?y = capacity ?x" using write_queue [of ?x s] by auto
      have inv: "queue_inv contents capacity {p} [] (setExclusive p ?y ?m)"
        by (rule exchange_pool [OF D]) (use p w in simp_all)
      have "ownedBy (setExclusive p ?y ?m) (Some r) = ownedBy ?m (Some r)" by (rule ownedBy_cong) simp_all
      then have "pool_ok contents capacity (setExclusive p ?y ?m) p"
        using bal w p False LocalPool unfolding pool_ok_def Let_def by simp
      then have "queue_inv contents capacity {} [] (setExclusive p ?y ?m)" by (intro restore_pool [OF inv]) simp
      moreover have "recycleCallback q s (Some r) ?m = Inr (setExclusive p ?y ?m)" using zero False LocalPool p
        by (simp add: pool_recyclePooledBuffer_def pool_recycleAfterCheck_def isAvailable_def cnt_zero setExclusive_def)
      ultimately show ?thesis using map_setExclusive [of p ?m ?y] p by simp
    qed
  qed
qed


text \<open>Releasing a reference: enough fuel is one more than the number of buffers in use.\<close>

lemma releaseAll_ok:
  assumes rel: "\<And>c held m. refs_inv k Z (add_mset c held) m \<Longrightarrow> queue_inv contents capacity {} [] m \<Longrightarrow>
      card {t. t < nbuf m \<and> 0 < cnt m t} < fuel \<Longrightarrow>
      \<exists>b m'. rel c m = Inr (b, m') \<and> refs_inv k Z held m' \<and> queue_inv contents capacity {} [] m' \<and> evolves Z m m'"
  shows "refs_inv k Z (held + mset cs) m \<Longrightarrow> queue_inv contents capacity {} [] m \<Longrightarrow>
      card {t. t < nbuf m \<and> 0 < cnt m t} < fuel \<Longrightarrow>
      \<exists>m'. releaseAll rel cs m = Inr m' \<and> refs_inv k Z held m' \<and> queue_inv contents capacity {} [] m' \<and> evolves Z m m'"
proof (induction cs arbitrary: m)
  case Nil
  then show ?case using evolves_refl by auto
next
  case (Cons c cs)
  obtain b m1 where m1: "rel c m = Inr (b, m1)" "refs_inv k Z (held + mset cs) m1" "queue_inv contents capacity {} [] m1" "evolves Z m m1"
    using rel [of c "held + mset cs" m] Cons.prems by auto
  have "card {t. t < nbuf m1 \<and> 0 < cnt m1 t} < fuel" using Cons.prems(3) evolves_card [OF m1(4)] by linarith
  then show ?case using Cons.IH [OF m1(2,3)] m1(1,4) evolves_trans by fastforce
qed

lemma release_ok:
  assumes "refs_inv k Z (add_mset s held) m" "queue_inv contents capacity {} [] m" "card {t. t < nbuf m \<and> 0 < cnt m t} < fuel"
  shows "\<exists>b m'. release fuel q s m = Inr (b, m') \<and> refs_inv k Z held m' \<and> queue_inv contents capacity {} [] m' \<and> evolves Z m m'"
  using assms
proof (induction fuel arbitrary: Z s held m)
  case 0
  then show ?case by simp
next
  case (Suc fuel)
  note refs = Suc.prems(1) and queues = Suc.prems(2)
  have s: "s < nbuf m" "0 < cnt m s" "s \<notin> Z" using refs_inv_held [OF refs, of s] by simp_all
  show ?case
  proof (cases "cnt m s = 1")
    case False
    let ?m = "updateBlock s (\<lambda>b. b\<lparr>referenceCounter := referenceCounter b - 1\<rparr>) m"
    have "refs_inv k Z held ?m" by (rule refs_decrement [OF refs False])
    moreover have "queue_inv contents capacity {} [] ?m" using queues by (subst queue_inv_cong [where m = m]) (use s in auto)
    moreover have "evolves Z m ?m" unfolding evolves_def using s by (auto simp: cnt_decrement unat_gt_0)
    moreover have "?m = updateBlock s (\<lambda>b. b\<lparr>referenceCounter := referenceCounter (block m s) - 1\<rparr>) m"
      by (rule updateBlock_cong) simp
    moreover have "referenceCounter (block m s) \<noteq> 0" "referenceCounter (block m s) \<noteq> 1" using s(2) False by auto
    ultimately show ?thesis by (auto simp: Let_def)
  next
    case True
    let ?m2 = "updateBlock s (\<lambda>b. b\<lparr>referenceCounter := 0, numberOfTuples := 0\<rparr>) m"
    have refs2: "refs_inv k (insert s Z) (held + mset (kids m s)) ?m2" by (rule refs_last [OF refs True])
    have queues2: "queue_inv contents capacity {} [] ?m2" using queues by (subst queue_inv_cong [where m = m]) (use s in auto)
    have "{t. t < nbuf ?m2 \<and> 0 < cnt ?m2 t} \<subset> {t. t < nbuf m \<and> 0 < cnt m t}" using s by (auto split: if_splits)
    then have "card {t. t < nbuf ?m2 \<and> 0 < cnt ?m2 t} < card {t. t < nbuf m \<and> 0 < cnt m t}" by (intro psubset_card_mono) simp_all
    then have fuel: "card {t. t < nbuf ?m2 \<and> 0 < cnt ?m2 t} < fuel" using Suc.prems(3) by linarith
    have "\<exists>m3. releaseAll (release fuel q) (kids m s) ?m2 = Inr m3 \<and> refs_inv k (insert s Z) held m3 \<and>
      queue_inv contents capacity {} [] m3 \<and> evolves (insert s Z) ?m2 m3"
      by (rule releaseAll_ok [OF _ refs2 queues2 fuel]) (rule Suc.IH)
    then obtain m3 where m3: "releaseAll (release fuel q) (kids m s) ?m2 = Inr m3" "refs_inv k (insert s Z) held m3"
      "queue_inv contents capacity {} [] m3" "evolves (insert s Z) ?m2 m3"
      by blast
    have b: "block m3 s = block ?m2 s" "s < nbuf m3" "nbuf m3 = nbuf m" using m3(4) s unfolding evolves_def by auto
    obtain r where r: "owner m s = Some r" using refs_invD(3) [OF refs s(1)] s(2) by fastforce
    then have o3: "owner m3 s = Some r" "cnt m3 s = 0" using b s by simp_all
    let ?m5 = "updateBlock s (\<lambda>b. b\<lparr>children := [], owningBufferRecycler := None\<rparr>) m3"
    obtain m6 where m6: "recycleCallback q s (Some r) ?m5 = Inr m6" "queue_inv contents capacity {} [] m6" "allBuffers m6 = allBuffers ?m5"
      "map poolDestroyed (localBufferPools m6) = map poolDestroyed (localBufferPools m3)"
      "map numberOfReservedBuffers (localBufferPools m6) = map numberOfReservedBuffers (localBufferPools m3)"
      using recycle_ok [OF m3(3) b(2) o3] by blast
    have blocks: "block m6 t = block ?m5 t" for t using m6(3) by (simp add: block_def)
    have "refs_inv k Z held ?m5" by (rule refs_finish [OF m3(2) s(3)])
    then have refs6: "refs_inv k Z held m6" by (rule refs_inv_cong [THEN iffD2, rotated -1]) (use m6(3) blocks in simp_all)
    have "evolves Z m m6" using m3(4) m6(3-5) blocks s b unfolding evolves_def by (auto split: if_splits)
    moreover have "referenceCounter (block m s) = 1" using True cnt_one by blast
    moreover have "updateBlock s (\<lambda>b. b\<lparr>numberOfTuples := 0\<rparr>) (updateBlock s (\<lambda>b. b\<lparr>referenceCounter := 0\<rparr>) m) = ?m2"
      using s(1) by (simp add: updateBlock_twice)
    ultimately show ?thesis using m3(1) m6(1,2) refs6 o3 b s
      by (intro exI [of _ True] exI [of _ m6]) (simp add: Let_def updateBlock_twice)
  qed
qed


text \<open>Creating and destroying pools moves segments between queues.\<close>

lemma reserveBuffers_ok:
  assumes "queue_inv contents capacity {} L m" "n \<le> length (contents (availableBuffers m))"
  shows "\<exists>bs m'. reserveBuffers q n L m = Inr (bs, m') \<and> length bs = length L + n \<and> queue_inv contents capacity {} bs m' \<and>
    allBuffers m' = allBuffers m \<and> localBufferPools m' = localBufferPools m"
  using assms
proof (induction n arbitrary: L m)
  case 0
  then show ?case by simp
next
  case (Suc n)
  then obtain s r where first: "contents (availableBuffers m) = s # r" by (cases "contents (availableBuffers m)") auto
  obtain y where y: "readQueue q (availableBuffers m) = Some (s, y)" "contents y = r"
    "queue_inv contents capacity {} (L @ [s]) (m\<lparr>availableBuffers := y, numOfAvailableBuffers := numOfAvailableBuffers m - 1\<rparr>)"
    using read_available [OF Suc.prems(1) first] by blast
  show ?case using Suc.IH [OF y(3)] Suc.prems(2) y first by simp
qed

lemma fillPool_ok:
  assumes "\<And>s. s \<in> set bs \<Longrightarrow> cnt m s = 0 \<and> owner m s = None" "length (contents x) + length bs \<le> capacity x"
  shows "\<exists>y. fillPool q bs m x = Inr y \<and> contents y = contents x @ bs \<and> capacity y = capacity x"
  using assms
proof (induction bs arbitrary: x)
  case (Cons s bs)
  then have w: "contents (snd (writeQueue q s x)) = contents x @ [s]" "capacity (snd (writeQueue q s x)) = capacity x"
    using write_queue [of x s] by auto
  have s: "referenceCounter (block m s) = 0" "owner m s = None" using Cons.prems(1) [of s] by (auto simp: cnt_zero)
  show ?case using Cons.IH [of "snd (writeQueue q s x)"] Cons.prems w s by (auto simp: isAvailable_def)
qed simp

lemma append_pool:
  assumes inv: "queue_inv contents capacity {} bs m" and x: "contents (exclusiveBuffers P) = bs" "\<not> poolDestroyed P"
    "capacity (exclusiveBuffers P) = length bs" "length bs = unat (numberOfReservedBuffers P)"
  shows "queue_inv contents capacity {} [] (m\<lparr>localBufferPools := localBufferPools m @ [P]\<rparr>)"
proof -
  let ?m = "m\<lparr>localBufferPools := localBufferPools m @ [P]\<rparr>"
  have own: "ownedBy ?m r = ownedBy m r" for r by (rule ownedBy_cong) simp_all
  have moved: "mset (idle contents ?m) = mset (bs @ idle contents m)" using x by (simp add: idle_def)
  have all: "distinct (idle contents ?m)" "set (idle contents ?m) = ownedBy ?m None"
    using mset_eq_imp_distinct_iff [OF moved] mset_eq_setD [OF moved] queue_invD(2,3) [OF inv] own by simp_all
  have none: "ownedBy m (Some (LocalPool (length (localBufferPools m)))) = {}"
    using queue_invD(1) [OF inv] by (fastforce simp: ownedBy_def)
  have pools: "pool_ok contents capacity ?m p" if "p < Suc (length (localBufferPools m))" for p
  proof (cases "p = length (localBufferPools m)")
    case True
    then show ?thesis using x none own by (simp add: pool_ok_def Let_def)
  next
    case False
    with that have "p < length (localBufferPools m)" by simp
    then show ?thesis using queue_invD(6) [OF inv, of p] by (subst pool_ok_cong [where m = m]) (simp_all add: nth_append)
  qed
  show ?thesis unfolding queue_inv_def using all pools queue_invD(1,4,5) [OF inv] by (auto simp: less_Suc_eq)
qed

lemma queue_lengths:
  assumes "queue_inv contents capacity D L m"
  shows "length (contents (availableBuffers m)) \<le> nbuf m"
    "p < length (localBufferPools m) \<Longrightarrow> length (contents (exclusiveBuffers (localBufferPools m ! p))) \<le> nbuf m"
proof -
  have small: "length xs \<le> nbuf m" if "distinct xs" "set xs \<subseteq> set (idle contents m)" for xs
  proof -
    have "set xs \<subseteq> {..<nbuf m}" using that queue_invD(3) [OF assms] by (auto simp: ownedBy_def)
    then have "card (set xs) \<le> nbuf m" using card_mono [OF finite_lessThan] by fastforce
    then show ?thesis using distinct_card [OF that(1)] by simp
  qed
  have d: "distinct (idle contents m)" using queue_invD(2) [OF assms] by simp
  then show "length (contents (availableBuffers m)) \<le> nbuf m" by (intro small) (auto simp: idle_def)
  assume p: "p < length (localBufferPools m)"
  have "distinct (concat (map (\<lambda>P. contents (exclusiveBuffers P)) (localBufferPools m)))" using d by (simp add: idle_def)
  then have "distinct (contents (exclusiveBuffers (localBufferPools m ! p)))" using p by (auto simp: distinct_concat_iff)
  moreover have "localBufferPools m ! p \<in> set (localBufferPools m)" using p by simp
  ultimately show "length (contents (exclusiveBuffers (localBufferPools m ! p))) \<le> nbuf m"
    by (intro small) (auto simp: idle_def)
qed

lemma createFixedSizeBufferPool_ok:
  assumes refs: "refs_inv k {} held m" and queues: "queue_inv contents capacity {} [] m" and n: "nbuf m < 2 ^ 64" and r: "0 < reserved"
  shows "\<exists>p m'. createFixedSizeBufferPool q reserved m = Inr (p, m') \<and> refs_inv k {} held m' \<and> queue_inv contents capacity {} [] m' \<and>
    nbuf m' = nbuf m"
proof (cases "length (contents (availableBuffers m)) < unat reserved")
  case True
  then have "(word_of_int (int (length (contents (availableBuffers m)))) :: u64) < reserved"
    using queue_lengths(1) [OF queues] n by (simp add: word_less_nat_alt unat_of_nat_u64)
  then show ?thesis using refs queues by (simp add: createFixedSizeBufferPool_def size_queue)
next
  case False
  then have fits: "\<not> (word_of_int (int (length (contents (availableBuffers m)))) :: u64) < reserved"
    using queue_lengths(1) [OF queues] n by (simp add: word_less_nat_alt unat_of_nat_u64)
  obtain bs m1 where m1: "reserveBuffers q (unat reserved) [] m = Inr (bs, m1)" "length bs = unat reserved"
    "queue_inv contents capacity {} bs m1" "allBuffers m1 = allBuffers m" "localBufferPools m1 = localBufferPools m"
    using reserveBuffers_ok [OF queues, of "unat reserved"] False by auto
  have blocks: "block m1 s = block m s" for s using m1(4) by (simp add: block_def)
  have unused: "cnt m1 s = 0 \<and> owner m1 s = None" if "s \<in> set bs" for s
  proof -
    have s: "s < nbuf m" "owner m s = None" using that queue_invD(3) [OF m1(3)] m1(4) blocks by (auto simp: ownedBy_def)
    then show ?thesis using refs_invD(3) [OF refs] blocks by simp
  qed
  have new: "contents (newQueue q (unat reserved)) = []" "capacity (newQueue q (unat reserved)) = unat reserved"
    using new_queue [of "unat reserved"] r by (auto simp: unat_gt_0)
  obtain x where x: "fillPool q bs m1 (newQueue q (unat reserved)) = Inr x" "contents x = bs" "capacity x = unat reserved"
    using fillPool_ok [OF unused, of bs "newQueue q (unat reserved)"] new m1(2) by auto
  let ?P = "\<lparr>exclusiveBuffers = x, numberOfReservedBuffers = reserved, poolDestroyed = False\<rparr>"
  have "queue_inv contents capacity {} [] (m1\<lparr>localBufferPools := localBufferPools m1 @ [?P]\<rparr>)"
    by (rule append_pool [OF m1(3)]) (use x m1(2) in simp_all)
  moreover have "refs_inv k {} held (m1\<lparr>localBufferPools := localBufferPools m1 @ [?P]\<rparr>)"
    using refs by (rule refs_inv_cong [THEN iffD2, rotated -1]) (use m1(4) blocks in simp_all)
  ultimately show ?thesis using fits m1 x
    by (simp add: createFixedSizeBufferPool_def size_queue newFixedSizeBufferPool_def)
qed


lemma drainPool_ok:
  assumes "refs_inv k {} held m" "queue_inv contents capacity {p} [] m" "p < length (localBufferPools m)"
    "length (contents (exclusiveBuffers (localBufferPools m ! p))) < fuel"
  shows "\<exists>m'. drainPool fuel q p m = Inr m' \<and> queue_inv contents capacity {p} [] m' \<and>
    contents (exclusiveBuffers (localBufferPools m' ! p)) = [] \<and> allBuffers m' = allBuffers m \<and>
    map poolDestroyed (localBufferPools m') = map poolDestroyed (localBufferPools m) \<and> managerDestroyed m' = managerDestroyed m"
  using assms
proof (induction fuel arbitrary: m)
  case 0
  then show ?case by simp
next
  case (Suc fuel)
  show ?case
  proof (cases "contents (exclusiveBuffers (localBufferPools m ! p))")
    case Nil
    then show ?thesis using Suc.prems(2) read_empty [OF Nil] by simp
  next
    case (Cons s r)
    obtain y where y: "readQueue q (exclusiveBuffers (localBufferPools m ! p)) = Some (s, y)" "contents y = r"
      "queue_inv contents capacity {p} [s] (setExclusive p y m)"
      using read_pool [OF Suc.prems(2,3) _ Cons] by auto
    let ?m1 = "setExclusive p y m"
    have s: "s < nbuf m" "owner m s = None" using queue_invD(3) [OF y(3)] by (auto simp: ownedBy_def)
    then have zero: "cnt m s = 0" using refs_invD(3) [OF Suc.prems(1)] by blast
    obtain m2 where m2: "recyclePooledBuffer q s ?m1 = Inr m2" "queue_inv contents capacity {p} [] m2" "allBuffers m2 = allBuffers m"
      "localBufferPools m2 = localBufferPools ?m1" "managerDestroyed m2 = managerDestroyed m"
      using recycle_to_manager [OF y(3)] zero s by (auto simp: setExclusive_def)
    have "refs_inv k {} held m2" using Suc.prems(1)
      by (rule refs_inv_cong [THEN iffD2, rotated -1]) (use m2(3) in \<open>simp_all add: block_def\<close>)
    from Suc.IH [OF this m2(2)] obtain m' where m': "drainPool fuel q p m2 = Inr m'" "queue_inv contents capacity {p} [] m'"
      "contents (exclusiveBuffers (localBufferPools m' ! p)) = []" "allBuffers m' = allBuffers m2"
      "map poolDestroyed (localBufferPools m') = map poolDestroyed (localBufferPools m2)" "managerDestroyed m' = managerDestroyed m2"
      using m2(4) y Cons Suc.prems(3,4) by auto
    then show ?thesis using y m2 s map_setExclusive(1) [OF Suc.prems(3), of y] by simp
  qed
qed

lemma pool_destroy_ok:
  assumes refs: "refs_inv k {} held m" and queues: "queue_inv contents capacity {} [] m" and p: "p < length (localBufferPools m)"
  shows "\<exists>m'. pool_destroy q p m = Inr m' \<and> refs_inv k {} held m' \<and> queue_inv contents capacity {} [] m' \<and>
    allBuffers m' = allBuffers m \<and> managerDestroyed m' = managerDestroyed m \<and>
    map poolDestroyed (localBufferPools m') = (map poolDestroyed (localBufferPools m))[p := True]"
proof (cases "poolDestroyed (localBufferPools m ! p)")
  case True
  then have "(map poolDestroyed (localBufferPools m))[p := True] = map poolDestroyed (localBufferPools m)"
    using p by (intro nth_equalityI) (auto simp: nth_list_update)
  then show ?thesis using True refs queues by (simp add: pool_destroy_def)
next
  case False
  let ?m = "m\<lparr>localBufferPools := (localBufferPools m)[p := (localBufferPools m ! p)\<lparr>poolDestroyed := True\<rparr>]\<rparr>"
  have same: "map (\<lambda>P. contents (exclusiveBuffers P)) (localBufferPools ?m) = map (\<lambda>P. contents (exclusiveBuffers P)) (localBufferPools m)"
    using p by (intro nth_equalityI) (auto simp: nth_list_update)
  have queues': "queue_inv contents capacity {p} [] ?m"
  proof (rule queue_inv_move [OF queues])
    show "mset ([] @ idle contents ?m) = mset ([] @ idle contents m)" unfolding idle_def same by simp
    show "pool_ok contents capacity ?m r" if "r < length (localBufferPools m)" "r \<notin> {p}" for r
      using queue_invD(6) [OF queues that(1)] that by (subst pool_ok_cong [where m = m]) simp_all
  qed (use queue_invD(4,5) [OF queues] in simp_all)
  have refs': "refs_inv k {} held ?m" using refs by (rule refs_inv_cong [THEN iffD2, rotated -1]) simp_all
  have "length (contents (exclusiveBuffers (localBufferPools ?m ! p))) < Suc (nbuf m)"
    using queue_lengths(2) [OF queues p] p by simp
  then obtain m' where m': "drainPool (Suc (nbuf m)) q p ?m = Inr m'" "queue_inv contents capacity {p} [] m'"
    "contents (exclusiveBuffers (localBufferPools m' ! p)) = []" "allBuffers m' = allBuffers m"
    "map poolDestroyed (localBufferPools m') = map poolDestroyed (localBufferPools ?m)" "managerDestroyed m' = managerDestroyed m"
    using drainPool_ok [OF refs' queues', of "Suc (nbuf m)"] p by (simp del: drainPool.simps) blast
  have flags: "map poolDestroyed (localBufferPools m') = (map poolDestroyed (localBufferPools m))[p := True]"
    using m'(5) by (simp add: map_update)
  have "length (localBufferPools m') = length (localBufferPools m)" using flags by (metis length_list_update length_map)
  then have "poolDestroyed (localBufferPools m' ! p)" using flags p by (metis length_map nth_list_update_eq nth_map)
  then have "pool_ok contents capacity m' p" using m'(3) by (simp add: pool_ok_def Let_def)
  then have "queue_inv contents capacity {} [] m'" by (intro restore_pool [OF m'(2)]) simp
  moreover have "refs_inv k {} held m'" using refs
    by (rule refs_inv_cong [THEN iffD2, rotated -1]) (use m'(4) in \<open>simp_all add: block_def\<close>)
  ultimately show ?thesis using False m' flags by (simp add: pool_destroy_def)
qed

lemma destroyPools_ok:
  assumes "refs_inv k {} held m" "queue_inv contents capacity {} [] m" "\<And>p. p \<in> set ps \<Longrightarrow> p < length (localBufferPools m)"
  shows "\<exists>m'. destroyPools q ps m = Inr m' \<and> refs_inv k {} held m' \<and> queue_inv contents capacity {} [] m' \<and>
    allBuffers m' = allBuffers m \<and> managerDestroyed m' = managerDestroyed m \<and> length (localBufferPools m') = length (localBufferPools m) \<and>
    (\<forall>p < length (localBufferPools m). p \<in> set ps \<or> poolDestroyed (localBufferPools m ! p) \<longrightarrow> poolDestroyed (localBufferPools m' ! p))"
  using assms
proof (induction ps arbitrary: m)
  case Nil
  then show ?case by simp
next
  case (Cons p ps)
  obtain m1 where m1: "pool_destroy q p m = Inr m1" "refs_inv k {} held m1" "queue_inv contents capacity {} [] m1"
    "allBuffers m1 = allBuffers m" "managerDestroyed m1 = managerDestroyed m"
    "map poolDestroyed (localBufferPools m1) = (map poolDestroyed (localBufferPools m))[p := True]"
    using pool_destroy_ok [OF Cons.prems(1,2), of p] Cons.prems(3) by auto
  have len: "length (localBufferPools m1) = length (localBufferPools m)" using m1(6) by (metis length_list_update length_map)
  have flags: "poolDestroyed (localBufferPools m1 ! r)" if "r < length (localBufferPools m)" "r = p \<or> poolDestroyed (localBufferPools m ! r)" for r
  proof -
    have "map poolDestroyed (localBufferPools m1) ! r" using that unfolding m1(6) by (cases "r = p") auto
    then show ?thesis using that(1) len by simp
  qed
  obtain m' where "destroyPools q ps m1 = Inr m'" "refs_inv k {} held m'" "queue_inv contents capacity {} [] m'"
    "allBuffers m' = allBuffers m1" "managerDestroyed m' = managerDestroyed m1" "length (localBufferPools m') = length (localBufferPools m1)"
    "\<forall>p < length (localBufferPools m1). p \<in> set ps \<or> poolDestroyed (localBufferPools m1 ! p) \<longrightarrow> poolDestroyed (localBufferPools m' ! p)"
    using Cons.IH [OF m1(2,3)] Cons.prems(3) len by auto
  then show ?case using m1 len flags by auto
qed

text \<open>Without references the manager shuts down.\<close>

lemma destroy_ok:
  assumes refs: "refs_inv k {} held m" and queues: "queue_inv contents capacity {} [] m" and zero: "\<And>s. s < nbuf m \<Longrightarrow> cnt m s = 0"
  shows "\<exists>m'. destroy q m = Inr m'"
proof (cases "managerDestroyed m")
  case False
  let ?m = "m\<lparr>managerDestroyed := True\<rparr>"
  have refs': "refs_inv k {} held ?m" using refs by (rule refs_inv_cong [THEN iffD2, rotated -1]) simp_all
  have queues': "queue_inv contents capacity {} [] ?m" using queues by (subst queue_inv_cong [where m = m]) simp_all
  have all: "p < length (localBufferPools ?m)" if "p \<in> set [0..<length (localBufferPools m)]" for p using that by simp
  obtain m1 where m1: "destroyPools q [0..<length (localBufferPools m)] ?m = Inr m1" "refs_inv k {} held m1"
    "queue_inv contents capacity {} [] m1" "allBuffers m1 = allBuffers m" "length (localBufferPools m1) = length (localBufferPools m)"
    "\<forall>p < length (localBufferPools m). poolDestroyed (localBufferPools m1 ! p)"
    using destroyPools_ok [OF refs' queues', of "[0..<length (localBufferPools m)]"] all by auto
  have blocks: "block m1 s = block m s" for s using m1(4) by (simp add: block_def)
  have "contents (exclusiveBuffers P) = []" if P: "P \<in> set (localBufferPools m1)" for P
  proof -
    obtain p where p: "p < length (localBufferPools m1)" "P = localBufferPools m1 ! p" using P by (metis in_set_conv_nth)
    then show ?thesis using queue_invD(6) [OF m1(3) p(1)] m1(5,6) by (simp add: pool_ok_def Let_def)
  qed
  then have "idle contents m1 = contents (availableBuffers m1)" by (simp add: idle_def)
  moreover have "ownedBy m1 None = {..<nbuf m}"
    using refs_invD(3) [OF m1(2)] zero blocks m1(4) by (auto simp: ownedBy_def)
  ultimately have "length (contents (availableBuffers m1)) = nbuf m"
    using queue_invD(2,3) [OF m1(3)] distinct_card [of "contents (availableBuffers m1)"] by simp
  then have "numOfAvailableBuffers m1 = of_nat (nbuf m1)" using queue_invD(5) [OF m1(3)] m1(4) by simp
  moreover have "list_all (isAvailable m1) [0..<nbuf m1]" using zero blocks m1(4) by (auto simp: list_all_iff isAvailable_def cnt_zero)
  ultimately show ?thesis using False m1(1) by (simp add: destroy_def)
qed (simp add: destroy_def)

end

end
