(* ===== verification/BufferTraces.thy ===== *)
theory BufferTraces
  imports BufferReferences
begin

text \<open>
  Programs over tuple buffers: sequences of operations on handles and pools, in any order, starting from a new
  buffer manager. The theorems say that no assertion of \<open>src/nes-memory\<close> fails, that every counter is the number
  of references, that no segment is lost or handed out twice, that a manager whose handles are gone shuts down,
  and that the memory areas of the segments do not overlap.
\<close>

section \<open>Programs\<close>

datatype BufferOp =
    GetBuffer | GetFromPool nat | CopyHandle nat | AssignHandle nat nat | MoveHandle nat nat | DropHandle nat
  | StoreChild nat nat | LoadChild nat u32 | CreatePool u64 | DestroyPool nat | SetTuples nat u64

text \<open>The state is the list of the handles of the program and the memory.\<close>

fun clientStep :: "'q MPMCQueue \<Rightarrow> BufferOp \<Rightarrow> nat option list \<times> 'q BufferManager \<Rightarrow> (nat option list \<times> 'q BufferManager) result" where
  "clientStep q GetBuffer (vars, m) = andThen (getBufferNoBlocking q m) (\<lambda>(h, m'). Inr (vars @ [h], m'))"
| "clientStep q (GetFromPool p) (vars, m) = andThen (pool_getBufferWithTimeout q p m) (\<lambda>(h, m'). Inr (vars @ [h], m'))"
| "clientStep q (CopyHandle i) (vars, m) = (let (h, m') = tb_copy (vars ! i) m in Inr (vars @ [h], m'))"
| "clientStep q (AssignHandle i j) (vars, m) =
     (if i = j then Inr (vars, m) else andThen (tb_assign q (vars ! i) (vars ! j) m) (\<lambda>(h, m'). Inr (vars[i := h], m')))"
| "clientStep q (MoveHandle i j) (vars, m) =
     (if i = j then Inr (vars, m) else let (h, h') = tb_moveAssign (vars ! i) (vars ! j) in Inr (vars[i := h, j := h'], m))"
| "clientStep q (DropHandle i) (vars, m) = andThen (tb_release q (vars ! i) m) (\<lambda>(h, m'). Inr (vars[i := h], m'))"
| "clientStep q (StoreChild i j) (vars, m) =
     andThen (tb_storeChildBuffer q (vars ! i) (vars ! j) m) (\<lambda>(_, h, m'). Inr (vars[j := h], m'))"
| "clientStep q (LoadChild i key) (vars, m) = andThen (tb_loadChildBuffer (vars ! i) key m) (\<lambda>(h, m'). Inr (vars @ [h], m'))"
| "clientStep q (CreatePool reserved) (vars, m) = andThen (createFixedSizeBufferPool q reserved m) (\<lambda>(_, m'). Inr (vars, m'))"
| "clientStep q (DestroyPool p) (vars, m) = andThen (pool_destroy q p m) (\<lambda>m'. Inr (vars, m'))"
| "clientStep q (SetTuples i n) (vars, m) =
     (case vars ! i of Some s \<Rightarrow> Inr (vars, tb_setNumberOfTuples s n m) | None \<Rightarrow> Inl UndefinedBehaviour)"

text \<open>What a program must respect: it uses its own handles and pools, attaches a buffer to a different one, loads
  children that exist, and creates pools that are not empty.\<close>

fun validOp :: "BufferOp \<Rightarrow> nat option list \<times> 'q BufferManager \<Rightarrow> bool" where
  "validOp GetBuffer (vars, m) \<longleftrightarrow> True"
| "validOp (GetFromPool p) (vars, m) \<longleftrightarrow> p < length (localBufferPools m)"
| "validOp (CopyHandle i) (vars, m) \<longleftrightarrow> i < length vars"
| "validOp (AssignHandle i j) (vars, m) \<longleftrightarrow> i < length vars \<and> j < length vars"
| "validOp (MoveHandle i j) (vars, m) \<longleftrightarrow> i < length vars \<and> j < length vars"
| "validOp (DropHandle i) (vars, m) \<longleftrightarrow> i < length vars"
| "validOp (StoreChild i j) (vars, m) \<longleftrightarrow>
     i < length vars \<and> j < length vars \<and> vars ! i \<noteq> None \<and> vars ! j \<noteq> None \<and> vars ! i \<noteq> vars ! j"
| "validOp (LoadChild i key) (vars, m) \<longleftrightarrow>
     i < length vars \<and> vars ! i \<noteq> None \<and> unat (ucast key :: u16) < length (children (block m (the (vars ! i))))"
| "validOp (CreatePool reserved) (vars, m) \<longleftrightarrow> 0 < reserved"
| "validOp (DestroyPool p) (vars, m) \<longleftrightarrow> p < length (localBufferPools m)"
| "validOp (SetTuples i n) (vars, m) \<longleftrightarrow> i < length vars \<and> vars ! i \<noteq> None"

fun runClient :: "'q MPMCQueue \<Rightarrow> BufferOp list \<Rightarrow> nat option list \<times> 'q BufferManager \<Rightarrow> (nat option list \<times> 'q BufferManager) result" where
  "runClient q [] st = Inr st"
| "runClient q (op # ops) st = andThen (clientStep q op st) (runClient q ops)"

fun validRun :: "'q MPMCQueue \<Rightarrow> BufferOp list \<Rightarrow> nat option list \<times> 'q BufferManager \<Rightarrow> bool" where
  "validRun q [] st \<longleftrightarrow> True"
| "validRun q (op # ops) st \<longleftrightarrow> validOp op st \<and> (case clientStep q op st of Inl _ \<Rightarrow> True | Inr st' \<Rightarrow> validRun q ops st')"

section \<open>One step\<close>

fun handleRefs :: "nat option \<Rightarrow> nat multiset" where
  "handleRefs None = {#}"
| "handleRefs (Some s) = {#s#}"

definition heldBy :: "nat option list \<Rightarrow> nat multiset" where
  "heldBy vars = (\<Sum>h \<leftarrow> vars. handleRefs h)"

lemma heldBy_simps [simp]: "heldBy [] = {#}" "heldBy (vars @ [h]) = heldBy vars + handleRefs h"
  by (simp_all add: heldBy_def)

lemma heldBy_update: "i < length vars \<Longrightarrow> heldBy (vars[i := h]) + handleRefs (vars ! i) = heldBy vars + handleRefs h"
  unfolding heldBy_def by (rule sum_list_swap)

lemma heldBy_drop: "i < length vars \<Longrightarrow> heldBy vars = heldBy (vars[i := None]) + handleRefs (vars ! i)"
  using heldBy_update [of i vars None] by simp

lemma heldBy_Some: "i < length vars \<Longrightarrow> vars ! i = Some s \<Longrightarrow> heldBy vars = add_mset s (heldBy (vars[i := None]))"
  using heldBy_drop [of i vars] by simp

lemma count_heldBy: "count (heldBy vars) s = count_list vars (Some s)"
proof (induction vars)
  case (Cons h vars)
  then show ?case by (cases h) (auto simp: heldBy_def)
qed simp

lemma refs_inv_mono: "refs_inv k Z held m \<Longrightarrow> k \<le> k' \<Longrightarrow> refs_inv k' Z held m"
  unfolding refs_inv_def by (meson le_trans)

lemma refs_inv_frame:
  assumes inv: "refs_inv k Z held m" and same: "nbuf m' = nbuf m" "\<And>s. s < nbuf m \<Longrightarrow> cnt m' s = cnt m s"
    "\<And>s. s < nbuf m \<Longrightarrow> kids m' s = kids m s" "\<And>s. s < nbuf m \<Longrightarrow> owner m' s = owner m s"
  shows "refs_inv k Z held m'"
proof -
  have "childRefs m' Z s = childRefs m Z s" for s by (rule childRefs_cong) (simp_all add: same(1,3))
  note refs = this
  show ?thesis
  proof (rule refs_invI, unfold refs same(1))
    fix s assume s: "s < nbuf m"
    show "cnt m' s = count held s + childRefs m Z s" using refs_invD(1) [OF inv s] same(2) [OF s] by simp
    show "cnt m' s \<le> k" using refs_invD(2) [OF inv s] same(2) [OF s] by simp
    show "owner m' s = None \<longleftrightarrow> cnt m' s = 0 \<and> s \<notin> Z" unfolding same(2,4) [OF s] by (rule refs_invD(3) [OF inv s])
    show "kids m' s = []" if "cnt m' s = 0" "s \<notin> Z" using refs_invD(4) [OF inv s] that same(2,3) [OF s] by simp
    show "c < nbuf m" if "c \<in> set (kids m' s)" for c
      using that unfolding same(3) [OF s] by (rule refs_inv_bounds(2) [OF inv s])
  next
    fix s assume s: "s \<in> Z"
    show "s < nbuf m" by (rule refs_inv_bounds(3) [OF inv s])
    then show "cnt m' s = 0" using refs_inv_bounds(4) [OF inv s] same(2) [of s] by simp
  qed (rule refs_inv_bounds(1) [OF inv])
qed

lemma retain_ok:
  assumes refs: "refs_inv k {} held m" and s: "s < nbuf m" "0 < cnt m s" and k: "Suc k < 2 ^ 32"
  shows "refs_inv (Suc k) {} (add_mset s held) (retain s m)" "queue_inv contents capacity {} [] (retain s m) = queue_inv contents capacity {} [] m"
proof -
  have "retain s m = updateBlock s (\<lambda>b. b\<lparr>referenceCounter := referenceCounter b + 1, owningBufferRecycler := owner m s\<rparr>) m"
    unfolding retain_def by (rule updateBlock_cong) simp
  then show "refs_inv (Suc k) {} (add_mset s held) (retain s m)" using refs_increment [OF refs s(1) _ k, of "owner m s"] s by simp
  show "queue_inv contents capacity {} [] (retain s m) = queue_inv contents capacity {} [] m"
    by (rule queue_inv_cong) (use s in \<open>simp_all add: retain_def\<close>)
qed

lemma retain_simps [simp]: "nbuf (retain s m) = nbuf m" by (simp add: retain_def)

text \<open>The segments of a new manager.\<close>

definition newSegment :: "u64 \<Rightarrow> u64 \<Rightarrow> u32 \<Rightarrow> u64 \<Rightarrow> nat \<Rightarrow> MemorySegment" where
  "newSegment offsetBetweenBuffers controlBlockSize sz base j =
     \<lparr>segmentPtr = base + of_nat j * offsetBetweenBuffers + controlBlockSize, segmentSize = sz, controlBlock = newControlBlock\<rparr>"

definition segmentStride :: "u32 \<Rightarrow> u32 \<Rightarrow> u64" where
  "segmentStride cb sz = ucast (alignBufferSize (alignBufferSize cb 64 + alignBufferSize sz 64) 64)"

lemma unat_u32_less: "unat (n :: u32) < 4294967296"
  using unsigned_less [of n] by simp

lemma unat_ucast_u32: "unat (ucast (n :: u32) :: u64) = unat n"
proof -
  have "unat n < 2 ^ 32" using unat_u32_less [of n] by simp
  then have "unat n < 2 ^ 64" by (rule less_trans) simp
  then show ?thesis by (simp add: unsigned_ucast_eq take_bit_nat_eq_self)
qed

lemma ucast_ucast_u32: "(ucast (ucast (n :: u32) :: u64) :: u32) = n"
proof -
  have "unat n < 2 ^ 32" using unat_u32_less [of n] by simp
  then have "unat (ucast (ucast n :: u64) :: u32) = unat n"
    by (subst unsigned_ucast_eq) (simp add: unat_ucast_u32 take_bit_nat_eq_self)
  then show ?thesis by (simp add: word_unat_eq_iff)
qed

lemma newSegment_Suc: "newSegment off cb sz base (Suc j) = newSegment off cb sz (base + off) j"
  by (simp add: newSegment_def algebra_simps)

text \<open>If no handle is left, a buffer in use is the child of a buffer in use; without a cycle there is none.\<close>

lemma nothing_in_use:
  assumes refs: "refs_inv k {} {#} m" and acyclic: "acyclic {(c, p). p < nbuf m \<and> c \<in> set (kids m p)}"
  shows "s < nbuf m \<Longrightarrow> cnt m s = 0"
proof (rule ccontr)
  let ?R = "{(c, p). p < nbuf m \<and> c \<in> set (kids m p)}"
  let ?S = "{s. s < nbuf m \<and> 0 < cnt m s}"
  assume "s < nbuf m" "cnt m s \<noteq> 0"
  then have s: "s \<in> ?S" by simp
  have "?R \<subseteq> {..<nbuf m} \<times> {..<nbuf m}" using refs_inv_bounds(2) [OF refs] by auto
  then have "finite ?R" by (rule finite_subset) simp
  then have "wf (?R\<inverse>)" using acyclic by (rule finite_acyclic_wf_converse)
  then obtain z where z: "z \<in> ?S" "\<And>y. (y, z) \<in> ?R\<inverse> \<Longrightarrow> y \<notin> ?S" using s by (rule wfE_min) blast
  then have "0 < childRefs m {} z" using refs_invD(1) [OF refs, of z] by simp
  then obtain p where p: "p < nbuf m" "0 < count_list (kids m p) z"
    unfolding childRefs_def by (metis (no_types, lifting) Diff_empty gr0I lessThan_iff less_numeral_extra(3) sum.neutral)
  then have child: "z \<in> set (kids m p)" by (metis count_list_0_iff less_numeral_extra(3))
  then have "0 < cnt m p" using refs_invD(4) [OF refs p(1)] by fastforce
  then show False using z(2) [of p] p(1) child by simp
qed

context mpmc_queue
begin

lemma tb_release_ok:
  assumes refs: "refs_inv k {} (held + handleRefs h) m" and queues: "queue_inv contents capacity {} [] m"
  shows "\<exists>m'. tb_release q h m = Inr (None, m') \<and> refs_inv k {} held m' \<and> queue_inv contents capacity {} [] m' \<and> nbuf m' = nbuf m"
proof (cases h)
  case None
  then show ?thesis using assms by (simp add: tb_release_def)
next
  case (Some s)
  have "card {t. t < nbuf m \<and> 0 < cnt m t} \<le> card {..<nbuf m}" by (rule card_mono) auto
  then have fuel: "card {t. t < nbuf m \<and> 0 < cnt m t} < Suc (nbuf m)" by simp
  have refs': "refs_inv k {} (add_mset s held) m" using refs Some by simp
  obtain b m' where m': "release (Suc (nbuf m)) q s m = Inr (b, m')" "refs_inv k {} held m'" "queue_inv contents capacity {} [] m'" "evolves {} m m'"
    using release_ok [OF refs' queues fuel] by blast
  then show ?thesis using Some by (auto simp: tb_release_def evolves_def simp del: release.simps)
qed


text \<open>Every operation adds at most one reference.\<close>

lemma clientStep_ok:
  assumes refs: "refs_inv k {} (heldBy vars) m" and queues: "queue_inv contents capacity {} [] m"
    and n: "nbuf m < 2 ^ 64" and k: "Suc k < 2 ^ 32" and valid: "validOp op (vars, m)"
  shows "\<exists>vars' m'. clientStep q op (vars, m) = Inr (vars', m') \<and> refs_inv (Suc k) {} (heldBy vars') m' \<and>
    queue_inv contents capacity {} [] m' \<and> nbuf m' = nbuf m"
proof -
  have weak: "refs_inv (Suc k) {} (heldBy vars) m" using refs by (rule refs_inv_mono) simp
  have held: "s < nbuf m" "0 < cnt m s" if "i < length vars" "vars ! i = Some s" for i s
    using refs_inv_held [OF refs, of s] heldBy_Some [OF that] by simp_all
  show ?thesis
  proof (cases op)
    case GetBuffer
    then show ?thesis using getBufferNoBlocking_ok [OF refs queues k] by (fastforce split: option.splits)
  next
    case (GetFromPool p)
    then show ?thesis using pool_getBufferWithTimeout_ok [OF refs queues k, of p] valid by (fastforce split: option.splits)
  next
    case (CopyHandle i)
    then show ?thesis
      using retain_ok [OF refs _ _ k] held valid weak queues by (cases "vars ! i") (auto simp: tb_copy_def)
  next
    case (AssignHandle i j)
    show ?thesis
    proof (cases "i = j \<or> vars ! i = vars ! j")
      case True
      then have "vars ! j = vars ! i" by auto
      then have "vars[i := vars ! j] = vars" by simp
      then show ?thesis using True AssignHandle valid weak queues by (auto simp: tb_assign_def)
    next
      case False
      let ?m = "case vars ! j of Some s \<Rightarrow> retain s m | None \<Rightarrow> m"
      have refs1: "refs_inv (Suc k) {} (heldBy vars + handleRefs (vars ! j)) ?m" and queues1: "queue_inv contents capacity {} [] ?m"
        and n1: "nbuf ?m = nbuf m"
        using retain_ok [OF refs _ _ k] held valid weak queues AssignHandle by (cases "vars ! j"; auto)+
      have "heldBy vars + handleRefs (vars ! j) = heldBy (vars[i := vars ! j]) + handleRefs (vars ! i)"
        using heldBy_update [of i vars "vars ! j"] valid AssignHandle by simp
      then show ?thesis using tb_release_ok [OF _ queues1, of "Suc k" "heldBy (vars[i := vars ! j])" "vars ! i"] refs1 n1 False AssignHandle
        by (auto simp: tb_assign_def)
    qed
  next
    case (MoveHandle i j)
    have "heldBy (vars[i := vars ! j, j := vars ! i]) = heldBy vars" if "i \<noteq> j"
      using heldBy_update [of i vars "vars ! j"] heldBy_update [of j "vars[i := vars ! j]" "vars ! i"] that valid MoveHandle
      by (simp add: ac_simps)
    then show ?thesis using weak queues MoveHandle by (auto simp: tb_moveAssign_def)
  next
    case (DropHandle i)
    have "heldBy vars = heldBy (vars[i := None]) + handleRefs (vars ! i)" using valid DropHandle by (intro heldBy_drop) simp
    then show ?thesis using tb_release_ok [OF _ queues, of "Suc k" "heldBy (vars[i := None])" "vars ! i"] weak DropHandle by auto
  next
    case (StoreChild i j)
    then obtain a b where ab: "vars ! i = Some a" "vars ! j = Some b" "a \<noteq> b" "i < length vars" "j < length vars" using valid by auto
    have in_use: "a < nbuf m" "0 < cnt m a" "b < nbuf m" "0 < cnt m b" using held ab by auto
    have refs1: "refs_inv (Suc k) {} (add_mset b (heldBy vars)) (retain b m)" by (rule retain_ok(1) [OF refs in_use(3,4) k])
    have "0 < cnt (retain b m) a" using in_use ab(3) by (simp add: retain_def)
    then have refs2: "refs_inv (Suc k) {} (heldBy vars) (snd (storeChild a b m))"
      using refs_attach [OF refs1] in_use by (simp add: storeChild_def Let_def)
    have queues2: "queue_inv contents capacity {} [] (snd (storeChild a b m))" using queues in_use
      by (subst queue_inv_cong [where m = m]) (auto simp: storeChild_def Let_def retain_def)
    have n2: "nbuf (snd (storeChild a b m)) = nbuf m" by (simp add: storeChild_def Let_def)
    have "heldBy vars = heldBy (vars[j := None]) + handleRefs (Some b)" using heldBy_drop [of j vars] ab by simp
    then obtain m' where "tb_release q (Some b) (snd (storeChild a b m)) = Inr (None, m')" "refs_inv (Suc k) {} (heldBy (vars[j := None])) m'"
      "queue_inv contents capacity {} [] m'" "nbuf m' = nbuf m"
      using tb_release_ok [OF _ queues2, of "Suc k" "heldBy (vars[j := None])" "Some b"] refs2 n2 by auto
    then show ?thesis using StoreChild ab by (cases "storeChild a b m") (auto simp: tb_storeChildBuffer_def)
  next
    case (LoadChild i key)
    then obtain a where a: "vars ! i = Some a" "i < length vars" "unat (ucast key :: u16) < length (kids m a)" using valid by auto
    let ?c = "kids m a ! unat (ucast key :: u16)"
    have child: "?c \<in> set (kids m a)" using a(3) by simp
    have p: "a < nbuf m" by (rule held(1) [OF a(2,1)])
    have c: "?c < nbuf m" by (rule refs_inv_bounds(2) [OF refs p child])
    have "0 < count_list (kids m a) ?c" using child by (metis count_list_0_iff gr0I)
    then have "0 < cnt m ?c" using refs_invD(1) [OF refs c] childRefs_remove [of a m "{}" ?c] p by simp
    then show ?thesis using retain_ok [OF refs c _ k] queues a LoadChild by (simp add: tb_loadChildBuffer_def loadChild_def Let_def)
  next
    case (CreatePool r)
    then show ?thesis using createFixedSizeBufferPool_ok [OF weak queues n] valid by fastforce
  next
    case (DestroyPool p)
    then show ?thesis using pool_destroy_ok [OF weak queues, of p] valid by fastforce
  next
    case (SetTuples i c)
    then obtain s where s: "vars ! i = Some s" "i < length vars" using valid by auto
    have n': "s < nbuf m" by (rule held(1) [OF s(2,1)])
    have "refs_inv (Suc k) {} (heldBy vars) (tb_setNumberOfTuples s c m)"
      by (rule refs_inv_frame [OF weak]) (use n' in \<open>auto simp: tb_setNumberOfTuples_def\<close>)
    moreover have "queue_inv contents capacity {} [] (tb_setNumberOfTuples s c m)" using queues n'
      by (subst queue_inv_cong [where m = m]) (auto simp: tb_setNumberOfTuples_def)
    ultimately show ?thesis using SetTuples s by (simp add: tb_setNumberOfTuples_def)
  qed
qed

lemma runClient_ok:
  assumes "refs_inv k {} (heldBy vars) m" "queue_inv contents capacity {} [] m" "nbuf m < 2 ^ 64"
    "k + length ops < 2 ^ 32" "validRun q ops (vars, m)"
  shows "\<exists>vars' m'. runClient q ops (vars, m) = Inr (vars', m') \<and> refs_inv (k + length ops) {} (heldBy vars') m' \<and>
    queue_inv contents capacity {} [] m' \<and> nbuf m' = nbuf m"
  using assms
proof (induction ops arbitrary: k vars m)
  case Nil
  then show ?case by simp
next
  case (Cons op ops)
  obtain vars1 m1 where s1: "clientStep q op (vars, m) = Inr (vars1, m1)" "refs_inv (Suc k) {} (heldBy vars1) m1"
    "queue_inv contents capacity {} [] m1" "nbuf m1 = nbuf m"
    using clientStep_ok [OF Cons.prems(1-3), of op] Cons.prems(4,5) by auto
  show ?case using Cons.IH [OF s1(2,3)] s1 Cons.prems(3-5) by auto
qed



lemma createSegments_ok:
  assumes "createSegments q r off cb sz i base (bs, x) = Inr (bs', x')" "length (contents x) + r \<le> capacity x"
  shows "bs' = bs @ map (newSegment off cb sz base) [0..<r] \<and> contents x' = contents x @ [i..<i + r] \<and> capacity x' = capacity x"
  using assms
proof (induction r arbitrary: i base bs x)
  case 0
  then show ?case by simp
next
  case (Suc r)
  have w: "contents (snd (writeQueue q i x)) = contents x @ [i]" "capacity (snd (writeQueue q i x)) = capacity x"
    using write_queue [of x i] Suc.prems(2) by auto
  have seg: "newMemorySegment (base + cb) sz = Inr (newSegment off cb sz base 0)"
    using Suc.prems(1) by (auto simp: newMemorySegment_def newSegment_def andThen_eq_Inr)
  have "createSegments q r off cb sz (Suc i) (base + off) (bs @ [newSegment off cb sz base 0], snd (writeQueue q i x)) = Inr (bs', x')"
    using Suc.prems(1) seg by simp
  note ih = Suc.IH [OF this]
  have "map (newSegment off cb sz base) [0..<Suc r] = newSegment off cb sz base 0 # map (newSegment off cb sz (base + off)) [0..<r]"
    by (simp add: upt_conv_Cons map_Suc_upt [symmetric] newSegment_Suc comp_def del: upt_Suc)
  then show ?case using ih w Suc.prems(2) by (auto simp: upt_conv_Cons)
qed

lemma newBufferManager_state:
  assumes new: "newBufferManager q mem page cb base sz n = Inr m" and n: "0 < n"
  shows "allBuffers m = map (newSegment (segmentStride cb sz) (ucast (alignBufferSize cb 64)) sz base) [0..<unat n] \<and>
    contents (availableBuffers m) = [0..<unat n] \<and> capacity (availableBuffers m) = unat n \<and>
    numOfAvailableBuffers m = ucast n \<and> localBufferPools m = [] \<and> allocatedAreaSize m = segmentStride cb sz * ucast n"
proof -
  have pos: "0 < unat n" using n by (simp add: unat_gt_0)
  obtain bs x where bs: "createSegments q (unat n) (segmentStride cb sz) (ucast (alignBufferSize cb 64)) sz 0 base ([], newQueue q (unat n)) = Inr (bs, x)"
    and m: "allBuffers m = bs" "availableBuffers m = x" "numOfAvailableBuffers m = ucast n" "localBufferPools m = []"
      "allocatedAreaSize m = segmentStride cb sz * ucast n"
    using new unfolding newBufferManager_def initialize_def DEFAULT_ALIGNMENT_def segmentStride_def
    by (auto simp: andThen_eq_Inr Let_def unat_ucast_u32 ucast_ucast_u32 split: if_splits)
  show ?thesis using createSegments_ok [OF bs] new_queue [OF pos] m by simp
qed


lemma newBufferManager_ok:
  assumes new: "newBufferManager q mem page cb base sz n = Inr m" and n: "0 < n"
  shows "refs_inv 0 {} (heldBy []) m \<and> queue_inv contents capacity {} [] m \<and> nbuf m = unat n"
proof -
  note st = newBufferManager_state [OF new n]
  have len: "nbuf m = unat n" using st by simp
  have blocks: "block m s = newControlBlock" if "s < nbuf m" for s using that st by (simp add: block_def newSegment_def)
  have refs: "childRefs m {} s = 0" for s unfolding childRefs_def by (rule sum.neutral) (simp add: blocks newControlBlock_def)
  have "refs_inv 0 {} (heldBy []) m"
    by (rule refs_invI) (simp_all add: blocks refs newControlBlock_def)
  moreover have "queue_inv contents capacity {} [] m"
  proof -
    have "ownedBy m None = {..<unat n}" using blocks len by (auto simp: ownedBy_def newControlBlock_def)
    moreover have "owner m s \<noteq> Some r" if "s < nbuf m" for s r using blocks [OF that] by (simp add: newControlBlock_def)
    moreover have "(of_nat (unat n) :: u64) = ucast n" by (rule u64_eqI) (simp add: unat_ucast_u32 unat_of_nat_u64 less_trans [OF unat_u32_less])
    ultimately show ?thesis unfolding queue_inv_def using st len by (auto simp: idle_def)
  qed
  ultimately show ?thesis using len by simp
qed

lemma program_ok:
  assumes new: "newBufferManager q mem page cb base sz n = Inr m0" "0 < n"
    and ops: "length ops < 2 ^ 32" "validRun q ops ([], m0)"
  shows "\<exists>vars m. runClient q ops ([], m0) = Inr (vars, m) \<and> refs_inv (length ops) {} (heldBy vars) m \<and>
    queue_inv contents capacity {} [] m \<and> nbuf m = unat n"
proof -
  note ok = newBufferManager_ok [OF new]
  then have "nbuf m0 < 2 ^ 64" using unat_u32_less [of n] by simp
  then show ?thesis using runClient_ok [of 0 "[]" m0 ops] ok ops by simp
qed

end

section \<open>A queue with the documented behaviour\<close>

definition boundedQueue :: "(nat list \<times> nat) MPMCQueue" where
  "boundedQueue =
     \<lparr>newQueue = (\<lambda>c. ([], c)),
      writeQueue = (\<lambda>s (xs, c). if length xs < c then (True, xs @ [s], c) else (False, xs, c)),
      readQueue = (\<lambda>(xs, c). case xs of [] \<Rightarrow> None | x # r \<Rightarrow> Some (x, r, c)),
      sizeQueue = (\<lambda>(xs, c). int (length xs))\<rparr>"

interpretation bounded: mpmc_queue boundedQueue fst snd
  by unfold_locales (auto simp: boundedQueue_def split: prod.splits)

definition smallManager :: "(nat list \<times> nat) BufferManager result" where
  "smallManager = newBufferManager boundedQueue 1099511627776 4096 256 4096 8192 3"

definition smallProgram :: "BufferOp list" where
  "smallProgram = [GetBuffer, GetBuffer, StoreChild 0 1, CreatePool 1, GetFromPool 0, CopyHandle 0, LoadChild 3 0, DropHandle 0]"

lemma smallManager_ok: "isOk smallManager"
  by code_simp

lemma smallManager_new: "newBufferManager boundedQueue 1099511627776 4096 256 4096 8192 3 = Inr (projr smallManager)"
  using smallManager_ok by (simp add: smallManager_def isOk_iff) (metis sum.sel(2))

lemma smallProgram_valid: "validRun boundedQueue smallProgram ([], projr smallManager)"
  by code_simp

section \<open>Theorems\<close>


text \<open>C9. When a program has dropped all its handles and no chain of child buffers is circular, every segment is
  unused again and the manager shuts down without an error.\<close>

theorem buffers_returned:
  assumes queue: "mpmc_queue q contents capacity"
    and new: "newBufferManager q mem page cb base sz n = Inr m0" "0 < n"
    and ops: "length ops < 2 ^ 32" "validRun q ops ([], m0)"
    and run: "runClient q ops ([], m0) = Inr (vars, m)" "list_all (\<lambda>h. h = None) vars"
    and acyclic: "acyclic {(c, p). p < unat n \<and> c \<in> set (children (block m p))}"
  shows "list_all (isAvailable m) [0..<unat n] \<and> (\<exists>m'. destroy q m = Inr m')"
proof -
  have m: "refs_inv (length ops) {} (heldBy vars) m" "queue_inv contents capacity {} [] m" "nbuf m = unat n"
    using mpmc_queue.program_ok [OF queue new ops] run(1) by auto
  have "heldBy vars = {#}" using run(2) by (induction vars) (auto simp: heldBy_def)
  then have zero: "cnt m s = 0" if "s < nbuf m" for s
    using nothing_in_use [of "length ops" m s] m acyclic that by simp
  then have "list_all (isAvailable m) [0..<unat n]" using m(3) by (auto simp: list_all_iff isAvailable_def cnt_zero)
  moreover have "\<exists>m'. destroy q m = Inr m'" by (rule mpmc_queue.destroy_ok [OF queue m(1,2) zero])
  ultimately show ?thesis ..
qed




definition droppingProgram :: "BufferOp list" where
  "droppingProgram = smallProgram @ [DropHandle 2, DropHandle 3, DropHandle 4]"

lemma droppingProgram_valid: "validRun boundedQueue droppingProgram ([], projr smallManager)"
  by code_simp

lemma droppingProgram_result:
  "case runClient boundedQueue droppingProgram ([], projr smallManager) of
     Inl _ \<Rightarrow> False
   | Inr (vars, m) \<Rightarrow> list_all (\<lambda>h. h = None) vars \<and> list_all (\<lambda>p. children (block m p) = []) [0..<3]"
  by code_simp

theorem buffers_returned_witness:
  "\<exists>vars m. runClient boundedQueue droppingProgram ([], projr smallManager) = Inr (vars, m) \<and>
     list_all (\<lambda>h. h = None) vars \<and> list_all (isAvailable m) [0..<3] \<and> (\<exists>m'. destroy boundedQueue m = Inr m')"
proof -
  obtain vars m where run: "runClient boundedQueue droppingProgram ([], projr smallManager) = Inr (vars, m)"
    "list_all (\<lambda>h. h = None) vars" "list_all (\<lambda>p. children (block m p) = []) [0..<3]"
    using droppingProgram_result by (auto split: sum.splits)
  have "length droppingProgram < 2 ^ 32" by (simp add: droppingProgram_def smallProgram_def)
  moreover have "{(c, p). p < unat (3 :: u32) \<and> c \<in> set (children (block m p))} = {}" using run(3) by (auto simp: list_all_iff)
  then have "acyclic {(c, p). p < unat (3 :: u32) \<and> c \<in> set (children (block m p))}" by (simp only: acyclic_def trancl_empty) simp
  ultimately show ?thesis
    using buffers_returned [OF bounded.mpmc_queue_axioms smallManager_new _ _ droppingProgram_valid run(1,2)] run(1,2) by auto
qed

section \<open>Memory areas\<close>

lemma alignBufferSize_64:
  assumes "unat x + 64 \<le> 2 ^ 32"
  shows "64 dvd unat (alignBufferSize x 64)" "unat x \<le> unat (alignBufferSize x 64)" "unat (alignBufferSize x 64) < unat x + 64"
    "64 dvd unat x \<Longrightarrow> alignBufferSize x 64 = x"
proof -
  have m: "unat (x mod 64) = unat x mod 64" by (simp add: unat_mod_distrib)
  have zero: "x mod 64 = 0 \<longleftrightarrow> unat x mod 64 = 0" by (metis m unat_eq_0)
  have less: "unat x mod 64 < 64" by simp
  have "unat (64 - x mod 64) = 64 - unat x mod 64" using m less by (subst unat_sub) (auto simp: word_le_nat_alt)
  then have pad: "unat (x + (64 - x mod 64)) = unat x + (64 - unat x mod 64)" if "unat x mod 64 \<noteq> 0"
    using that assms by (subst unat_word_ariths) (auto simp: m)
  have split: "unat x = 64 * (unat x div 64) + unat x mod 64" by simp
  show "64 dvd unat (alignBufferSize x 64)"
  proof (cases "unat x mod 64 = 0")
    case False
    then have "unat (alignBufferSize x 64) = unat x + (64 - unat x mod 64)" using pad zero by (simp add: alignBufferSize_def)
    then have "unat (alignBufferSize x 64) = 64 * (unat x div 64) + 64" using split less by linarith
    then show ?thesis by simp
  qed (simp add: alignBufferSize_def zero mod_eq_0_iff_dvd)
  show "unat x \<le> unat (alignBufferSize x 64)" "unat (alignBufferSize x 64) < unat x + 64"
    using pad zero less by (auto simp: alignBufferSize_def)
  show "alignBufferSize x 64 = x" if "64 dvd unat x" using that zero by (simp add: alignBufferSize_def mod_eq_0_iff_dvd)
qed

lemma segmentStride_bounds:
  assumes "unat cb + unat sz + 192 \<le> 2 ^ 32"
  shows "unat (segmentStride cb sz) = unat (alignBufferSize cb 64) + unat (alignBufferSize sz 64)" "64 dvd unat (segmentStride cb sz)"
    "unat (segmentStride cb sz) < 2 ^ 32"
proof -
  have c: "unat cb + 64 \<le> 2 ^ 32" and z: "unat sz + 64 \<le> 2 ^ 32" using assms by auto
  note cb = alignBufferSize_64 [OF c] and sz = alignBufferSize_64 [OF z]
  have sum: "unat (alignBufferSize cb 64 + alignBufferSize sz 64) = unat (alignBufferSize cb 64) + unat (alignBufferSize sz 64)"
    using assms cb(3) sz(3) by (subst unat_word_ariths) simp
  have "unat (alignBufferSize cb 64 + alignBufferSize sz 64) + 64 \<le> 2 ^ 32" using assms cb(3) sz(3) unfolding sum by simp
  moreover have dvd: "64 dvd unat (alignBufferSize cb 64 + alignBufferSize sz 64)" unfolding sum by (rule dvd_add [OF cb(1) sz(1)])
  ultimately have "alignBufferSize (alignBufferSize cb 64 + alignBufferSize sz 64) 64 = alignBufferSize cb 64 + alignBufferSize sz 64"
    using alignBufferSize_64(4) by blast
  then show "unat (segmentStride cb sz) = unat (alignBufferSize cb 64) + unat (alignBufferSize sz 64)"
    "64 dvd unat (segmentStride cb sz)" "unat (segmentStride cb sz) < 2 ^ 32"
    using dvd sum unat_u32_less [of "alignBufferSize cb 64 + alignBufferSize sz 64"] by (simp_all add: segmentStride_def unat_ucast_u32)
qed

text \<open>C23. If the size of a control block and of a buffer stay 192 bytes below 4 GiB and the allocated area lies in
  the address space, the segments of a new manager lie inside the area, are aligned to 64 bytes like the area,
  and neither the data nor the control blocks of two segments overlap.\<close>

theorem segments_disjoint:
  assumes queue: "mpmc_queue q contents capacity"
    and new: "newBufferManager q mem page cb base sz n = Inr m" "0 < n"
    and fits: "unat cb + unat sz + 192 \<le> 2 ^ 32" "unat base + unat (allocatedAreaSize m) < 2 ^ 64"
  shows "\<forall>i < length (allBuffers m).
    unat base + unat cb \<le> unat (segmentPtr (allBuffers m ! i)) \<and>
    unat (segmentPtr (allBuffers m ! i)) + unat (segmentSize (allBuffers m ! i)) \<le> unat base + unat (allocatedAreaSize m) \<and>
    (64 dvd unat base \<longrightarrow> 64 dvd unat (segmentPtr (allBuffers m ! i))) \<and>
    (\<forall>j < i. unat (segmentPtr (allBuffers m ! j)) + unat (segmentSize (allBuffers m ! j)) + unat cb \<le> unat (segmentPtr (allBuffers m ! i)))"
proof -
  note st = mpmc_queue.newBufferManager_state [OF queue new]
  let ?off = "unat (segmentStride cb sz)" and ?c = "unat (alignBufferSize cb 64)"
  note stride = segmentStride_bounds [OF fits(1)]
  have c: "unat cb \<le> ?c" "64 dvd ?c" "unat sz \<le> unat (alignBufferSize sz 64)"
    using alignBufferSize_64 [of cb] alignBufferSize_64 [of sz] fits(1) by auto
  have "?off * unat n < 2 ^ 32 * 2 ^ 32" using stride(3) unat_u32_less [of n] by (intro mult_strict_mono) auto
  then have area: "unat (allocatedAreaSize m) = ?off * unat n"
    using st by (simp add: unat_mult_u64 unat_ucast_u32)
  have room: "i * ?off + ?off \<le> ?off * unat n" if "i < unat n" for i
    using mult_le_mono1 [of "Suc i" "unat n" ?off] that by (simp add: mult.commute)
  have ptr: "unat (segmentPtr (allBuffers m ! i)) = unat base + i * ?off + ?c" if "i < unat n" for i
  proof -
    have step: "unat (of_nat i * segmentStride cb sz) = i * ?off"
    proof -
      have "unat (of_nat i :: u64) = i" using that unat_u32_less [of n] by (intro unat_of_nat_u64) simp
      then show ?thesis using room [OF that] fits(2) area by (subst unat_mult_u64) auto
    qed
    have base: "unat (base + of_nat i * segmentStride cb sz) = unat base + i * ?off"
      using room [OF that] fits(2) area step by (subst unat_add_u64) auto
    have "unat (base + of_nat i * segmentStride cb sz + ucast (alignBufferSize cb 64)) = unat base + i * ?off + ?c"
      using room [OF that] fits(2) area base stride(1) by (subst unat_add_u64) (auto simp: unat_ucast_u32)
    then show ?thesis using st that by (simp add: newSegment_def)
  qed
  have size: "segmentSize (allBuffers m ! i) = sz" if "i < unat n" for i using st that by (simp add: newSegment_def)
  have apart: "unat base + j * ?off + ?c + unat sz + unat cb \<le> unat base + i * ?off + ?c" if "j < i" for i j
    using mult_le_mono1 [of "Suc j" i ?off] that stride(1) c by simp
  have len: "length (allBuffers m) = unat n" using st by simp
  show ?thesis unfolding len
  proof (intro allI impI conjI)
    fix i assume i: "i < unat n"
    show "unat base + unat cb \<le> unat (segmentPtr (allBuffers m ! i))" using ptr [OF i] c(1) by simp
    show "unat (segmentPtr (allBuffers m ! i)) + unat (segmentSize (allBuffers m ! i)) \<le> unat base + unat (allocatedAreaSize m)"
      using ptr [OF i] size [OF i] room [OF i] area stride(1) c(3) by simp
    show "64 dvd unat (segmentPtr (allBuffers m ! i))" if "64 dvd unat base"
      unfolding ptr [OF i] using that stride(2) c(2) by (simp add: dvd_add)
    show "unat (segmentPtr (allBuffers m ! j)) + unat (segmentSize (allBuffers m ! j)) + unat cb \<le> unat (segmentPtr (allBuffers m ! i))"
      if "j < i" for j using ptr [OF i] ptr [of j] size [of j] that i apart [OF that] by simp
  qed
qed


theorem segments_disjoint_witness:
  "length (allBuffers (projr smallManager)) = 3 \<and> unat (256 :: u32) + unat (8192 :: u32) + 192 \<le> 2 ^ 32 \<and>
   64 dvd unat (segmentPtr (allBuffers (projr smallManager) ! 2)) \<and>
   unat (segmentPtr (allBuffers (projr smallManager) ! 1)) + unat (segmentSize (allBuffers (projr smallManager) ! 1)) + unat (256 :: u32)
     \<le> unat (segmentPtr (allBuffers (projr smallManager) ! 2))"
proof -
  have len: "length (allBuffers (projr smallManager)) = 3" by code_simp
  have "allocatedAreaSize (projr smallManager) = 25344" by code_simp
  then have "unat (4096 :: u64) + unat (allocatedAreaSize (projr smallManager)) < 2 ^ 64" by simp
  from segments_disjoint [OF bounded.mpmc_queue_axioms smallManager_new _ _ this] len show ?thesis by simp
qed

section \<open>What the code does not guard against\<close>

text \<open>\<open>alignBufferSize\<close> and the sum of the two sizes are computed with 32 bits. For buffers of almost 4 GiB they wrap,
  and the segments overlap.\<close>

lemma large_buffers_overlap:
  "case newBufferManager boundedQueue 1099511627776 4096 256 4096 4294967295 2 of
     Inl _ \<Rightarrow> False
   | Inr m \<Rightarrow> segmentPtr (allBuffers m ! 1) = segmentPtr (allBuffers m ! 0) + 256 \<and> segmentSize (allBuffers m ! 0) = 4294967295"
  by code_simp

text \<open>\<open>recyclePooledBuffer\<close> of a pool checks whether the pool is destroyed and then writes to its queue. If the pool
  is destroyed in between, the segment stays in a queue nobody reads, and the shutdown of the manager fails.\<close>

definition racingRelease :: "(nat list \<times> nat) BufferManager result" where
  "racingRelease =
     andThen (runClient boundedQueue [CreatePool 1, GetFromPool 0] ([], projr smallManager)) (\<lambda>(_, m).
     let checked = poolDestroyed (localBufferPools m ! 0);
         released = updateBlock 0 (\<lambda>b. b\<lparr>referenceCounter := 0, children := [], owningBufferRecycler := None\<rparr>) m
     in andThen (pool_destroy boundedQueue 0 released) (pool_recycleAfterCheck boundedQueue checked 0 0))"

lemma recycle_races_with_destroy:
  "isOk racingRelease" "andThen racingRelease (\<lambda>m. andThen (destroy boundedQueue m) (\<lambda>_. Inr ())) = Inl InvariantViolated"
  by code_simp+

text \<open>Buffers that are children of each other are never released; only attaching a buffer to itself is refused.\<close>

lemma circular_children_leak:
  "case runClient boundedQueue [GetBuffer, GetBuffer, CopyHandle 1, StoreChild 0 1, StoreChild 2 0, DropHandle 2] ([], projr smallManager) of
     Inl _ \<Rightarrow> False
   | Inr (vars, m) \<Rightarrow> list_all (\<lambda>h. h = None) vars \<and> \<not> isAvailable m 0 \<and> \<not> isAvailable m 1 \<and>
       andThen (destroy boundedQueue m) (\<lambda>_. Inr ()) = Inl InvariantViolated"
  by code_simp

text \<open>The number of tuples is set with 64 bits and stored with 32.\<close>

lemma number_of_tuples_truncated:
  assumes "s < length (allBuffers m)"
  shows "tb_getNumberOfTuples s (tb_setNumberOfTuples s 4294967296 m) = 0"
  using assms by (simp add: tb_getNumberOfTuples_def tb_setNumberOfTuples_def)

end
